(* ===== verification/Prelude.thy ===== *)
theory Prelude
  imports Main "HOL-Library.Sublist"
begin

text \<open>
  What the components share: the names of the model's scalar types, SQL statements as functions
  on tables (a table is the list of its rows in rowid order), recursive \<open>WITH RECURSIVE ... UNION\<close>
  queries as an executable closure with its reachability specification, the decimal printing and
  parsing of Rust's integer formatting, and reachable states with their invariant rule.
\<close>

section \<open>Scalars and collections of facts\<close>

text \<open>
  A uid is the text \<open>volume~link\<close>. Times are milliseconds or seconds since the epoch, held by
  the code in \<open>i64\<close>; local ids and row ids are SQLite integers. All of these are \<open>int\<close> here.
\<close>

type_synonym uid = string
type_synonym lid = int
type_synonym op_id = int
type_synonym millis = int

named_theorems sql_simps \<open>unfolding of the table statements\<close>
named_theorems queue_keeps \<open>what the queue operations keep\<close>

section \<open>Table statements\<close>

text \<open>\<open>UPDATE t SET f WHERE P\<close>, \<open>DELETE FROM t WHERE P\<close>, and whether a statement matched.\<close>

definition update_where :: "('r \<Rightarrow> bool) \<Rightarrow> ('r \<Rightarrow> 'r) \<Rightarrow> 'r list \<Rightarrow> 'r list" where
  "update_where P f rows = map (\<lambda>r. if P r then f r else r) rows"

definition delete_where :: "('r \<Rightarrow> bool) \<Rightarrow> 'r list \<Rightarrow> 'r list" where
  "delete_where P rows = filter (\<lambda>r. \<not> P r) rows"

definition matches :: "('r \<Rightarrow> bool) \<Rightarrow> 'r list \<Rightarrow> bool" where
  "matches P rows = list_ex P rows"

declare update_where_def [sql_simps] delete_where_def [sql_simps] matches_def [sql_simps]

lemma set_update_where:
  "set (update_where P f rows) = f ` {r \<in> set rows. P r} \<union> {r \<in> set rows. \<not> P r}"
  by (auto simp: update_where_def)

lemma set_delete_where [simp]: "set (delete_where P rows) = {r \<in> set rows. \<not> P r}"
  by (auto simp: delete_where_def)

lemma matches_iff [simp]: "matches P rows \<longleftrightarrow> (\<exists>r \<in> set rows. P r)"
  by (simp add: matches_def list_ex_iff)

text \<open>A statement that does not touch the key keeps the list of keys, in order.\<close>

lemma map_update_where_same:
  "(\<And>r. P r \<Longrightarrow> k (f r) = k r) \<Longrightarrow> map k (update_where P f rows) = map k rows"
  by (simp add: update_where_def)

lemma filter_update_where_same:
  "(\<And>r. P r \<Longrightarrow> \<not> Q r \<and> \<not> Q (f r)) \<Longrightarrow> filter Q (update_where P f rows) = filter Q rows"
  by (induction rows) (auto simp: update_where_def)

lemma find_map_key: "map_option k (find (\<lambda>r. Q (k r)) rows) = find Q (map k rows)"
  by (induction rows) auto

lemma map_filter_key: "map k (filter (\<lambda>r. Q (k r)) rows) = filter Q (map k rows)"
  by (induction rows) auto

lemma sorted_wrt_map_filter: "sorted_wrt R (map k rows) \<Longrightarrow> sorted_wrt R (map k (filter P rows))"
  by (induction rows) auto

lemma sorted_wrt_delete_where:
  "sorted_wrt R (map k rows) \<Longrightarrow> sorted_wrt R (map k (delete_where P rows))"
  by (simp add: delete_where_def sorted_wrt_map_filter)

lemma find_min_key:
  fixes k :: "'r \<Rightarrow> int"
  assumes "sorted_wrt (<) (map k rows)" and "find P rows = Some r"
  shows "\<forall>q \<in> set rows. P q \<longrightarrow> k r \<le> k q"
  using assms
proof (induction rows)
  case Nil
  then show ?case by simp
next
  case (Cons x xs)
  then show ?case by (cases "P x") (auto simp: order.strict_implies_order)
qed

lemma find_SomeD: "find P rows = Some r \<Longrightarrow> r \<in> set rows \<and> P r"
  by (auto simp: find_Some_iff)

lemma find_cong_set: "(\<And>r. r \<in> set rows \<Longrightarrow> P r = Q r) \<Longrightarrow> find P rows = find Q rows"
  by (induction rows) auto

lemma find_filter_hd: "find P rows = (case filter P rows of [] \<Rightarrow> None | r # _ \<Rightarrow> Some r)"
  by (induction rows) auto

text \<open>\<open>INSERT ... ON CONFLICT(key) DO UPDATE\<close> and \<open>DELETE\<close> by key, on a table of keys and values.\<close>

lemma map_of_update_where:
  "map_of (update_where (\<lambda>r. fst r = k) (\<lambda>r. (fst r, v)) t) =
     (if matches (\<lambda>r. fst r = k) t then (map_of t)(k \<mapsto> v) else map_of t)"
  by (induction t) (auto simp: update_where_def fun_eq_iff)

lemma map_of_upsert:
  "map_of (if matches (\<lambda>r. fst r = k) t then update_where (\<lambda>r. fst r = k) (\<lambda>r. (fst r, v)) t else t @ [(k, v)]) =
     (map_of t)(k \<mapsto> v)"
proof (cases "matches (\<lambda>r. fst r = k) t")
  case True
  then show ?thesis by (simp add: map_of_update_where del: matches_iff)
next
  case False
  then have "map_of t k = None" by (force simp: map_of_eq_None_iff)
  with False show ?thesis
    by (auto simp: fun_eq_iff map_add_def split: option.split simp del: matches_iff)
qed

lemma map_of_delete_key: "map_of (delete_where (\<lambda>r. fst r = k) t) = (map_of t)(k := None)"
  by (induction t) (auto simp: delete_where_def fun_eq_iff)

section \<open>Recursive common table expressions\<close>

text \<open>
  \<open>WITH RECURSIVE t AS (init UNION step)\<close>: SQLite adds the rows that a step yields and that are
  not in the result yet, until there are none. The counter is fuel; \<open>cte_union_reaches\<close> says how
  much is enough and that the result is then the set reachable from the initial rows.
\<close>

fun cte_union :: "('a \<Rightarrow> 'a list) \<Rightarrow> nat \<Rightarrow> 'a list \<Rightarrow> 'a list" where
  "cte_union step 0 acc = acc"
| "cte_union step (Suc n) acc =
     (let new = remdups (filter (\<lambda>y. y \<notin> set acc) (concat (map step acc)))
      in if new = [] then acc else cte_union step n (acc @ new))"

definition step_rel :: "('a \<Rightarrow> 'a list) \<Rightarrow> ('a \<times> 'a) set" where
  "step_rel step = {(x, y). y \<in> set (step x)}"

lemma cte_union_superset: "set acc \<subseteq> set (cte_union step n acc)"
proof (induction step n acc rule: cte_union.induct)
  case (2 step n acc)
  then show ?case by (fastforce simp: Let_def)
qed simp

lemma cte_union_sound:
  "set (cte_union step n acc) \<subseteq> (step_rel step)\<^sup>* `` set acc"
proof (induction step n acc rule: cte_union.induct)
  case (1 step acc)
  then show ?case by auto
next
  case (2 step n acc)
  let ?new = "remdups (filter (\<lambda>y. y \<notin> set acc) (concat (map step acc)))"
  show ?case
  proof (cases "?new = []")
    case True
    then show ?thesis by auto
  next
    case False
    have "set (acc @ ?new) \<subseteq> (step_rel step)\<^sup>* `` set acc"
      by (auto simp: step_rel_def intro!: r_into_rtrancl)
    then have "(step_rel step)\<^sup>* `` set (acc @ ?new) \<subseteq> (step_rel step)\<^sup>* `` set acc"
      by (blast intro: rtrancl_trans)
    with "2.IH" [OF refl False] False show ?thesis
      by (simp add: Let_def)
  qed
qed

text \<open>The contract of a step over a finite universe, and what every such query computes.\<close>

locale finite_cte =
  fixes step :: "'a \<Rightarrow> 'a list" and univ :: "'a set"
  assumes finite_univ: "finite univ"
    and step_in: "y \<in> set (step x) \<Longrightarrow> y \<in> univ"
begin

lemma cte_union_closed:
  "card (univ - set acc) \<le> n \<Longrightarrow> step_rel step `` set (cte_union step n acc) \<subseteq> set (cte_union step n acc)"
proof (induction n arbitrary: acc)
  case 0
  then have "univ \<subseteq> set acc"
    using finite_univ by simp
  then show ?case using step_in by (auto simp: step_rel_def)
next
  case (Suc n)
  let ?new = "remdups (filter (\<lambda>y. y \<notin> set acc) (concat (map step acc)))"
  show ?case
  proof (cases "?new = []")
    case True
    then show ?thesis by (auto simp: step_rel_def filter_empty_conv)
  next
    case False
    then obtain y where y: "y \<in> set ?new" by (meson hd_in_set)
    then have "y \<in> univ - set acc" using step_in by auto
    with y have "univ - set (acc @ ?new) \<subset> univ - set acc" by auto
    then have "card (univ - set (acc @ ?new)) < card (univ - set acc)"
      using finite_univ by (simp add: psubset_card_mono)
    with Suc.prems have "card (univ - set (acc @ ?new)) \<le> n" by linarith
    from Suc.IH [OF this] False show ?thesis by (simp add: Let_def)
  qed
qed

text \<open>Enough fuel gives the whole closure.\<close>

lemma cte_union_reaches:
  assumes "card univ \<le> n"
  shows "set (cte_union step n acc) = (step_rel step)\<^sup>* `` set acc"
proof
  show "set (cte_union step n acc) \<subseteq> (step_rel step)\<^sup>* `` set acc"
    by (rule cte_union_sound)
next
  have "card (univ - set acc) \<le> n"
    using assms finite_univ by (meson Diff_subset card_mono order_trans)
  from cte_union_closed [OF this]
  have "(step_rel step)\<^sup>* `` set (cte_union step n acc) = set (cte_union step n acc)"
    by (rule Image_closed_trancl)
  then show "(step_rel step)\<^sup>* `` set acc \<subseteq> set (cte_union step n acc)"
    using cte_union_superset [of acc step n] by blast
qed

end

section \<open>Reachable states and invariants\<close>

inductive reach :: "('s \<Rightarrow> bool) \<Rightarrow> ('s \<Rightarrow> 's \<Rightarrow> bool) \<Rightarrow> 's \<Rightarrow> bool" for init step where
  reach_init: "init s \<Longrightarrow> reach init step s"
| reach_step: "reach init step s \<Longrightarrow> step s t \<Longrightarrow> reach init step t"

locale inv_system =
  fixes init :: "'s \<Rightarrow> bool" and step :: "'s \<Rightarrow> 's \<Rightarrow> bool" and inv :: "'s \<Rightarrow> bool"
  assumes inv_init: "init s \<Longrightarrow> inv s"
    and inv_step: "step s t \<Longrightarrow> inv s \<Longrightarrow> inv t"
begin

lemma reach_inv: "reach init step s \<Longrightarrow> inv s"
  by (induction rule: reach.induct) (auto intro: inv_init inv_step)

end

section \<open>Decimal numbers\<close>

text \<open>Rust's \<open>Display\<close> for a non-negative integer, and \<open>str::parse\<close> on ASCII digits.\<close>

definition digit_char :: "nat \<Rightarrow> char" where
  "digit_char d = char_of (48 + d)"

definition is_digit :: "char \<Rightarrow> bool" where
  "is_digit c = (48 \<le> (of_char c :: nat) \<and> (of_char c :: nat) \<le> 57)"

definition digit_val :: "char \<Rightarrow> nat" where
  "digit_val c = of_char c - 48"

fun show_nat :: "nat \<Rightarrow> string" where
  "show_nat n = (if n < 10 then [digit_char n] else show_nat (n div 10) @ [digit_char (n mod 10)])"

declare show_nat.simps [simp del]

definition show_int :: "int \<Rightarrow> string" where
  "show_int i = (if i < 0 then CHR ''-'' # show_nat (nat (- i)) else show_nat (nat i))"

definition parse_digits :: "string \<Rightarrow> nat" where
  "parse_digits = foldl (\<lambda>n c. 10 * n + digit_val c) 0"

lemma digit_char_digit: "d < 10 \<Longrightarrow> is_digit (digit_char d) \<and> digit_val (digit_char d) = d"
  by (simp add: is_digit_def digit_val_def digit_char_def of_char_of)

lemma show_nat_nonempty: "show_nat n \<noteq> []"
  by (subst show_nat.simps) simp

lemma show_nat_digits: "list_all is_digit (show_nat n)"
proof (induction n rule: show_nat.induct)
  case (1 n)
  then show ?case
    by (cases "n < 10") (simp_all add: show_nat.simps [of n] digit_char_digit)
qed

lemma parse_show_nat [simp]: "parse_digits (show_nat n) = n"
proof (induction n rule: show_nat.induct)
  case (1 n)
  then show ?case
    by (cases "n < 10") (simp_all add: show_nat.simps [of n] parse_digits_def digit_char_digit)
qed

text \<open>
  \<open>str::parse::<i64>\<close>: an optional sign, at least one ASCII digit, a value in range.
\<close>

definition I64_MIN :: int where
  "I64_MIN = - (2 ^ 63)"

definition I64_MAX :: int where
  "I64_MAX = 2 ^ 63 - 1"

definition i64_of :: "int \<Rightarrow> int option" where
  "i64_of n = (if I64_MIN \<le> n \<and> n \<le> I64_MAX then Some n else None)"

fun parse_i64 :: "string \<Rightarrow> int option" where
  "parse_i64 [] = None"
| "parse_i64 (c # cs) =
     (if c = CHR ''-'' then (if cs \<noteq> [] \<and> list_all is_digit cs then i64_of (- int (parse_digits cs)) else None)
      else if c = CHR ''+'' then (if cs \<noteq> [] \<and> list_all is_digit cs then i64_of (int (parse_digits cs)) else None)
      else if list_all is_digit (c # cs) then i64_of (int (parse_digits (c # cs))) else None)"

lemma parse_i64_digits:
  assumes "list_all is_digit cs" and "cs \<noteq> []"
  shows "parse_i64 cs = i64_of (int (parse_digits cs))"
proof (cases cs)
  case (Cons c rest)
  then have "is_digit c" using assms by simp
  then have "c \<noteq> CHR ''-''" "c \<noteq> CHR ''+''" by (auto simp: is_digit_def)
  with Cons assms(1) show ?thesis by simp
qed (use assms(2) in simp)

lemma parse_show_i64 [simp]:
  assumes "I64_MIN \<le> i" and "i \<le> I64_MAX"
  shows "parse_i64 (show_int i) = Some i"
proof (cases "i < 0")
  case True
  then show ?thesis
    using assms by (simp add: show_int_def show_nat_nonempty show_nat_digits i64_of_def)
next
  case False
  then show ?thesis
    using assms by (simp add: show_int_def parse_i64_digits show_nat_nonempty show_nat_digits i64_of_def)
qed

section \<open>Hash maps keyed by text\<close>

text \<open>
  A \<open>HashMap<String, V>\<close> is the list of its entries in iteration order, which the code leaves
  open; keys are distinct (\<open>wf_table\<close>).
\<close>

type_synonym 'v table = "(string \<times> 'v) list"

definition keys :: "'v table \<Rightarrow> string list" where
  "keys t = map fst t"

definition wf_table :: "'v table \<Rightarrow> bool" where
  "wf_table t = distinct (keys t)"

definition has_key :: "'v table \<Rightarrow> string \<Rightarrow> bool" where
  "has_key t k = (map_of t k \<noteq> None)"

lemma has_key_iff: "has_key t k \<longleftrightarrow> k \<in> set (keys t)"
  by (simp add: has_key_def keys_def map_of_eq_None_iff)

end
