(* ===== verification/Schema.thy ===== *)
theory Schema
  imports Prelude
begin

text \<open>
  The tables of \<open>cache.db\<close> that the modelled components read and write, as records of rows, and
  the stand-in uids of nodes made on this machine (\<open>local_uid\<close>, \<open>local_lid\<close>).
  A table is the list of its rows in rowid order: both \<open>nodes.lid\<close> and \<open>pending_op.id\<close> are
  \<open>AUTOINCREMENT\<close> (schemas 36 and 37), so an insert appends and its id is one more than the largest
  id the table ever had, which the two \<open>_seq\<close> fields hold (SQLite's \<open>sqlite_sequence\<close>).
  A nullable column is an \<open>option\<close>. A JSON column holds the value it encodes.
\<close>

section \<open>Nodes\<close>

text \<open>
  The SDK's \<open>Node\<close>, with the fields the client reads. A uid is kept in the text form that the
  tables hold, \<open>volume~link\<close>.
\<close>

datatype node_kind =
    Folder
  | File (total_size_on_storage: int) (claimed_size: "int option")
      (active_revision_id: "string option") (content_sha1: "string option")

datatype member_role = RoleViewer | RoleEditor | RoleAdmin | RoleInherited

text \<open>
  \<open>membership\<close> is the node's membership, when it has one, as the role \<open>role_exact\<close> reads from it:
  \<open>Some None\<close> for a role on the wire that this client does not know.
\<close>

record node =
  node_uid :: uid
  parent_uid :: "uid option"
  node_name :: string
  node_kind :: node_kind
  creation_time :: int
  modification_time :: int
  trashed :: bool
  membership :: "member_role option option"

definition is_folder :: "node \<Rightarrow> bool" where
  "is_folder n = (node_kind n = Folder)"

record node_row =
  nr_lid :: lid
  nr_uid :: uid
  nr_parent_uid :: "uid option"
  nr_name :: string
  nr_is_dir :: bool
  nr_size :: "int option"
  nr_mtime :: int
  nr_trashed :: bool
  nr_node_json :: "node option"
  nr_listed :: bool
  nr_path :: "string option"
  nr_parent_lid :: "lid option"

section \<open>Queued operations\<close>

text \<open>
  \<open>kind\<close> is a text column. The five kinds the code writes are constructors; any other text is
  \<open>OP_OTHER\<close>, which the drain refuses.
\<close>

datatype op_kind = OP_REVISION | OP_CREATE | OP_MKDIR | OP_RENAME | OP_TRASH | OP_OTHER string

text \<open>
  The sidecar column \<open>meta_json\<close>: a \<open>RenameMeta\<close>, or any other document (a \<open>StagedWrite\<close>),
  in which \<open>json_extract\<close> finds no original name or parent.
\<close>

datatype meta_json =
    RenameMeta (original_parent_uid: uid) (original_name: "string option")
  | OtherMeta string

text \<open>The \<open>sent_to\<close> column: text that does not parse, or its entries in either of the two forms.\<close>

datatype sent_entry = At uid string millis | Bare uid string

datatype sent_json = Malformed string | Entries "sent_entry list"

record op_row =
  po_id :: op_id
  po_kind :: op_kind
  po_uid :: uid
  po_parent_uid :: "uid option"
  po_name :: "string option"
  po_blob_path :: "string option"
  po_meta_json :: "meta_json option"
  po_created_at :: millis
  po_attempts :: int
  po_last_error :: "string option"
  po_next_attempt_at :: millis
  po_claimed_at :: millis
  po_access_deferred_since :: millis
  po_issue :: "string option"
  po_lid :: "lid option"
  po_parent_lid :: "lid option"
  po_sent_sha1 :: "string option"
  po_sent_to :: "sent_json option"

text \<open>The defaults of the columns an \<open>INSERT\<close> leaves out.\<close>

definition new_op_row :: "op_id \<Rightarrow> op_kind \<Rightarrow> uid \<Rightarrow> millis \<Rightarrow> op_row" where
  "new_op_row i k u created =
     \<lparr>po_id = i, po_kind = k, po_uid = u, po_parent_uid = None, po_name = None,
      po_blob_path = None, po_meta_json = None, po_created_at = created, po_attempts = 0,
      po_last_error = None, po_next_attempt_at = 0, po_claimed_at = 0,
      po_access_deferred_since = 0, po_issue = None, po_lid = None, po_parent_lid = None,
      po_sent_sha1 = None, po_sent_to = None\<rparr>"

section \<open>The database\<close>

record pin_row =
  pin_uid :: uid
  pin_path :: string
  pin_recursive :: bool

record sealed_row =
  sealed_uid :: uid
  sealed_revision :: string
  sealed_at :: millis

record db =
  nodes :: "node_row list"
  nodes_seq :: lid
  nodes_fts :: "(lid \<times> string \<times> string) list"
  pending_op :: "op_row list"
  pending_seq :: op_id
  pins :: "pin_row list"
  own_sealed :: "sealed_row list"
  share_access_tbl :: "(uid \<times> string) list"
  sync_state :: "(string \<times> string) list"

definition empty_db :: db where
  "empty_db = \<lparr>nodes = [], nodes_seq = 0, nodes_fts = [], pending_op = [], pending_seq = 0,
     pins = [], own_sealed = [], share_access_tbl = [], sync_state = []\<rparr>"

section \<open>Stand-in uids\<close>

definition LOCAL_VOLUME :: string where
  "LOCAL_VOLUME = ''local''"

definition local_uid :: "lid \<Rightarrow> uid" where
  "local_uid l = LOCAL_VOLUME @ ''~'' @ show_int l"

text \<open>
  \<open>strip_prefix\<close> twice, then \<open>str::parse::<i64>\<close>, which fails past \<open>i64::MAX\<close>.
\<close>

definition strip_prefix :: "string \<Rightarrow> string \<Rightarrow> string option" where
  "strip_prefix p s = (if prefix p s then Some (drop (length p) s) else None)"

definition local_lid :: "uid \<Rightarrow> lid option" where
  "local_lid u =
     (case strip_prefix LOCAL_VOLUME u of None \<Rightarrow> None | Some rest \<Rightarrow>
      (case strip_prefix ''~'' rest of None \<Rightarrow> None | Some digits \<Rightarrow>
         (if digits = [] \<or> \<not> list_all is_digit digits then None
          else if int (parse_digits digits) < 2 ^ 63 then Some (int (parse_digits digits))
          else None)))"

text \<open>
  SQLite's \<open>uid LIKE 'local~%'\<close>, which ignores the case of ASCII letters, and the exact test
  \<open>substr(uid, 1, 6) = 'local~'\<close>.
\<close>

definition ascii_lower :: "char \<Rightarrow> char" where
  "ascii_lower c = (let n = of_char c :: nat in if 65 \<le> n \<and> n \<le> 90 then char_of (n + 32) else c)"

definition like_local :: "uid \<Rightarrow> bool" where
  "like_local u = (map ascii_lower (take 6 u) = ''local~'')"

definition has_local_prefix :: "uid \<Rightarrow> bool" where
  "has_local_prefix u = (take 6 u = ''local~'')"

lemma strip_prefix_append [simp]: "strip_prefix p (p @ s) = Some s"
  by (simp add: strip_prefix_def)

lemma local_uid_prefix: "has_local_prefix (local_uid l)"
  by (simp add: has_local_prefix_def local_uid_def LOCAL_VOLUME_def)

lemma has_local_prefix_like: "has_local_prefix u \<Longrightarrow> like_local u"
  by (simp add: has_local_prefix_def like_local_def ascii_lower_def)

lemma local_lid_local_uid [simp]:
  assumes "0 \<le> l" and "l < 2 ^ 63"
  shows "local_lid (local_uid l) = Some l"
proof -
  have "strip_prefix LOCAL_VOLUME (local_uid l) = Some (''~'' @ show_int l)"
    unfolding local_uid_def by (rule strip_prefix_append)
  moreover have "strip_prefix ''~'' (''~'' @ show_int l) = Some (show_int l)"
    by (rule strip_prefix_append)
  moreover have "show_int l = show_nat (nat l)"
    using assms by (simp add: show_int_def)
  ultimately show ?thesis
    using assms by (simp add: local_lid_def show_nat_nonempty show_nat_digits)
qed

lemma local_lid_range: "local_lid u = Some l \<Longrightarrow> 0 \<le> l \<and> l < 2 ^ 63"
  by (auto simp: local_lid_def split: option.splits if_splits)

lemma local_lid_has_prefix: "local_lid u = Some l \<Longrightarrow> has_local_prefix u"
  by (auto simp: local_lid_def strip_prefix_def has_local_prefix_def LOCAL_VOLUME_def prefix_def
      split: option.splits if_splits)

section \<open>Well-formed tables\<close>

text \<open>
  What SQLite's keys enforce: ids ascend in insertion order and never exceed the sequence, so an
  id is given out once.
\<close>

definition wf_queue :: "db \<Rightarrow> bool" where
  "wf_queue d \<longleftrightarrow> sorted_wrt (<) (map po_id (pending_op d)) \<and>
     (\<forall>r \<in> set (pending_op d). po_id r \<le> pending_seq d)"

definition wf_nodes :: "db \<Rightarrow> bool" where
  "wf_nodes d \<longleftrightarrow> sorted_wrt (<) (map nr_lid (nodes d)) \<and>
     (\<forall>r \<in> set (nodes d). nr_lid r \<le> nodes_seq d) \<and> distinct (map nr_uid (nodes d))"

lemma sorted_wrt_less_distinct: "sorted_wrt (<) (xs :: int list) \<Longrightarrow> distinct xs"
  by (simp add: strict_sorted_iff)

lemma wf_queue_distinct: "wf_queue d \<Longrightarrow> distinct (map po_id (pending_op d))"
  by (simp add: wf_queue_def sorted_wrt_less_distinct)

lemma wf_queue_same:
  "wf_queue d \<Longrightarrow> p \<in> set (pending_op d) \<Longrightarrow> q \<in> set (pending_op d) \<Longrightarrow> po_id p = po_id q \<Longrightarrow> p = q"
  using wf_queue_distinct [of d] by (auto simp: distinct_map inj_on_def)

end
