(* ===== verification/Nodes.thy ===== *)
theory Nodes
  imports Schema
begin

text \<open>
  The persisted tree, \<open>crates/pdfs-core/src/db/nodes.rs\<close>: how a row is found by uid or by local
  id, write-through of a node with its path and search-index row, the descent that follows a folder
  that moved, and the step that hands a landed placeholder's row to its real uid.
\<close>

section \<open>Finding rows\<close>

definition row_by_lid :: "db \<Rightarrow> lid \<Rightarrow> node_row option" where
  "row_by_lid d l = find (\<lambda>r. nr_lid r = l) (nodes d)"

definition row_by_uid :: "db \<Rightarrow> uid \<Rightarrow> node_row option" where
  "row_by_uid d u = find (\<lambda>r. nr_uid r = u) (nodes d)"

definition node_lid :: "db \<Rightarrow> uid \<Rightarrow> lid option" where
  "node_lid d u = (case local_lid u of
      Some l \<Rightarrow> map_option nr_lid (row_by_lid d l)
    | None \<Rightarrow> map_option nr_lid (row_by_uid d u))"

text \<open>\<open>row_key\<close> and \<open>parent_key\<close>: the test a statement puts on a row to find a node or its children.\<close>

definition row_key :: "uid \<Rightarrow> node_row \<Rightarrow> bool" where
  "row_key u r = (case local_lid u of Some l \<Rightarrow> nr_lid r = l | None \<Rightarrow> nr_uid r = u)"

definition parent_key :: "db \<Rightarrow> uid \<Rightarrow> node_row \<Rightarrow> bool" where
  "parent_key d p r = (case node_lid d p of
      Some l \<Rightarrow> nr_parent_lid r = Some l
    | None \<Rightarrow> nr_parent_uid r = Some p)"

definition parent_row :: "db \<Rightarrow> node_row \<Rightarrow> node_row option" where
  "parent_row d r = (case nr_parent_lid r of None \<Rightarrow> None | Some l \<Rightarrow> row_by_lid d l)"

text \<open>\<open>NODE_NOW\<close>: the stored node, naming its parent as the parent's row has it now.\<close>

definition node_now :: "db \<Rightarrow> node_row \<Rightarrow> node option" where
  "node_now d r = (case nr_node_json r of None \<Rightarrow> None | Some n \<Rightarrow>
     Some (case parent_row d r of
        None \<Rightarrow> n
      | Some p \<Rightarrow> (if Some (nr_uid p) = nr_parent_uid r then n else n\<lparr>parent_uid := Some (nr_uid p)\<rparr>)))"

text \<open>\<open>split_once('~')\<close> and back: a uid in text form is itself, when it has a \<open>~\<close> at all.\<close>

definition parse_node_uid :: "uid \<Rightarrow> uid option" where
  "parse_node_uid u = (if CHR ''~'' \<in> set u then Some u else None)"

definition node_size :: "node \<Rightarrow> int" where
  "node_size n = (case node_kind n of
      Folder \<Rightarrow> 0
    | File tot claimed _ _ \<Rightarrow> max 0 (case claimed of Some c \<Rightarrow> c | None \<Rightarrow> tot))"

definition node_revision_id :: "node \<Rightarrow> string option" where
  "node_revision_id n = (case node_kind n of Folder \<Rightarrow> None | File _ _ rv _ \<Rightarrow> rv)"

definition join_path :: "string \<Rightarrow> string \<Rightarrow> string" where
  "join_path parent_path name = (if parent_path = [] then name else parent_path @ ''/'' @ name)"

section \<open>Write-through of a node\<close>

definition adopt_children_tx :: "db \<Rightarrow> uid \<Rightarrow> lid \<Rightarrow> db" where
  "adopt_children_tx d u l =
     d\<lparr>nodes := update_where (\<lambda>r. nr_parent_uid r = Some u \<and> nr_parent_lid r \<noteq> Some l)
                  (\<lambda>r. r\<lparr>nr_parent_lid := Some l\<rparr>) (nodes d)\<rparr>"

text \<open>
  The walk up from a row, which stops at a row it has seen: the query's \<open>path\<close> column is the
  list of the ids seen so far.
\<close>

function anc_chain :: "db \<Rightarrow> lid list \<Rightarrow> node_row \<Rightarrow> node_row list" where
  "anc_chain d seen r = r # (case parent_row d r of
      None \<Rightarrow> []
    | Some p \<Rightarrow> (if nr_lid p \<in> set seen then [] else anc_chain d (nr_lid p # seen) p))"
  by pat_completeness auto
termination
proof (relation "measure (\<lambda>(d, seen, r). card (nr_lid ` set (nodes d) - set seen))", goal_cases)
  case (2 d seen r p)
  then have "p \<in> set (nodes d)"
    by (auto simp: parent_row_def row_by_lid_def split: option.splits dest: find_SomeD)
  then have "nr_lid ` set (nodes d) - set (nr_lid p # seen) \<subset> nr_lid ` set (nodes d) - set seen"
    using 2(2) by auto
  then show ?case by (simp add: psubset_card_mono)
qed simp

declare anc_chain.simps [simp del]

definition node_is_indexable_tx :: "db \<Rightarrow> uid \<Rightarrow> bool" where
  "node_is_indexable_tx d u = (case row_by_uid d u of
      None \<Rightarrow> False
    | Some r \<Rightarrow> (let chain = anc_chain d [nr_lid r] r in
        list_all (\<lambda>a. \<not> nr_trashed a) chain \<and> parent_row d (last chain) = None))"

text \<open>
  \<open>reindex_subtree_tx\<close>: one level of the descent after another, as the recursive query emits its
  rows; \<open>sub.depth < 256\<close> lets it pass 256 levels below the first.
\<close>

type_synonym sub_row = "lid \<times> string \<times> bool"

definition sub_children :: "db \<Rightarrow> sub_row \<Rightarrow> sub_row list" where
  "sub_children d = (\<lambda>(l, path, blocked).
     map (\<lambda>n. (nr_lid n, path @ ''/'' @ nr_name n, blocked \<or> nr_trashed n))
       (filter (\<lambda>n. nr_parent_lid n = Some l) (nodes d)))"

fun sub_levels :: "db \<Rightarrow> nat \<Rightarrow> sub_row list \<Rightarrow> sub_row list" where
  "sub_levels d k level =
     (if level = [] then []
      else level @ (if k = 0 then [] else sub_levels d (k - 1) (concat (map (sub_children d) level))))"

declare sub_levels.simps [simp del]

definition subtree_rows :: "db \<Rightarrow> lid \<Rightarrow> string \<Rightarrow> sub_row list" where
  "subtree_rows d folder folder_path = sub_levels d 256
     (map (\<lambda>n. (nr_lid n, join_path folder_path (nr_name n), nr_trashed n))
       (filter (\<lambda>n. nr_parent_lid n = Some folder) (nodes d)))"

definition reindex_row :: "bool \<Rightarrow> sub_row \<Rightarrow> db \<Rightarrow> db" where
  "reindex_row folder_indexable = (\<lambda>(l, path, blocked) d.
     let d1 = d\<lparr>nodes := update_where (\<lambda>r. nr_lid r = l) (\<lambda>r. r\<lparr>nr_path := Some path\<rparr>) (nodes d),
                nodes_fts := delete_where (\<lambda>f. fst f = l) (nodes_fts d)\<rparr>
     in (case row_by_lid d1 l of
           Some r \<Rightarrow> (if folder_indexable \<and> \<not> blocked \<and> nr_node_json r \<noteq> None
                     then d1\<lparr>nodes_fts := nodes_fts d1 @ [(l, nr_name r, path)]\<rparr> else d1)
         | None \<Rightarrow> d1))"

definition reindex_subtree_tx :: "db \<Rightarrow> lid \<Rightarrow> string \<Rightarrow> bool \<Rightarrow> db" where
  "reindex_subtree_tx d folder folder_path folder_indexable =
     fold (reindex_row folder_indexable) (subtree_rows d folder folder_path) d"

text \<open>The parent's local id and the path a node gets from it.\<close>

definition place_of :: "db \<Rightarrow> node \<Rightarrow> lid option \<times> string" where
  "place_of d n = (case parent_uid n of
      None \<Rightarrow> (None, [])
    | Some p \<Rightarrow> (case Option.bind (node_lid d p) (row_by_lid d) of
          None \<Rightarrow> (None, join_path [] (node_name n))
        | Some r \<Rightarrow> (Some (nr_lid r),
             join_path (case nr_path r of Some s \<Rightarrow> s | None \<Rightarrow> []) (node_name n))))"

definition stored_row :: "node \<Rightarrow> lid option \<Rightarrow> string \<Rightarrow> node_row \<Rightarrow> node_row" where
  "stored_row n plid path r =
     r\<lparr>nr_parent_uid := parent_uid n, nr_parent_lid := plid, nr_name := node_name n,
       nr_is_dir := is_folder n, nr_size := Some (node_size n), nr_mtime := modification_time n,
       nr_trashed := trashed n, nr_node_json := Some n, nr_path := Some path\<rparr>"

definition fresh_row :: "lid \<Rightarrow> uid \<Rightarrow> node_row" where
  "fresh_row l u = \<lparr>nr_lid = l, nr_uid = u, nr_parent_uid = None, nr_name = [], nr_is_dir = False,
     nr_size = None, nr_mtime = 0, nr_trashed = False, nr_node_json = None, nr_listed = False,
     nr_path = None, nr_parent_lid = None\<rparr>"

text \<open>
  \<open>upsert_node_tx\<close> after its first test: the \<open>INSERT ... ON CONFLICT(uid) DO UPDATE\<close>, the children
  stored before a new row, the node's own search-index row, and the descent when what the subtree
  below depends on has moved.
\<close>

definition insert_or_update :: "db \<Rightarrow> node \<Rightarrow> lid option \<Rightarrow> string \<Rightarrow> db" where
  "insert_or_update d n plid path = (case row_by_uid d (node_uid n) of
      Some _ \<Rightarrow> d\<lparr>nodes := update_where (\<lambda>r. nr_uid r = node_uid n) (stored_row n plid path) (nodes d)\<rparr>
    | None \<Rightarrow> d\<lparr>nodes := nodes d @ [stored_row n plid path (fresh_row (nodes_seq d + 1) (node_uid n))],
               nodes_seq := nodes_seq d + 1\<rparr>)"

definition index_node :: "db \<Rightarrow> lid \<Rightarrow> string \<Rightarrow> string \<Rightarrow> bool \<Rightarrow> db" where
  "index_node d l name path indexable =
     d\<lparr>nodes_fts := delete_where (\<lambda>f. fst f = l) (nodes_fts d) @ (if indexable then [(l, name, path)] else [])\<rparr>"

definition subtree_moved :: "node_row option \<Rightarrow> node \<Rightarrow> string \<Rightarrow> bool" where
  "subtree_moved prior n path = (case prior of
      None \<Rightarrow> True
    | Some r \<Rightarrow> nr_parent_uid r \<noteq> parent_uid n \<or> nr_name r \<noteq> node_name n
        \<or> nr_path r \<noteq> Some path \<or> nr_trashed r \<noteq> trashed n)"

definition upsert_row :: "db \<Rightarrow> node \<Rightarrow> db" where
  "upsert_row d n =
     (let prior = row_by_uid d (node_uid n);
          (plid, path) = place_of d n;
          d1 = insert_or_update d n plid path;
          rowid = (case row_by_uid d1 (node_uid n) of Some r \<Rightarrow> nr_lid r | None \<Rightarrow> 0);
          d2 = (if prior = None then adopt_children_tx d1 (node_uid n) rowid else d1);
          indexable = node_is_indexable_tx d2 (node_uid n);
          d3 = index_node d2 rowid (node_name n) path indexable
      in if is_folder n \<and> subtree_moved prior n path
         then reindex_subtree_tx d3 rowid path indexable else d3)"

text \<open>
  A node written under its stand-in after it landed is its row. The code calls itself with the
  row's uid; a stand-in that named another stand-in's row would send it round, so the recursion
  has fuel and \<open>None\<close> is a call that does not return.
\<close>

definition landed_uid :: "db \<Rightarrow> uid \<Rightarrow> uid option" where
  "landed_uid d u = (case local_lid u of
      None \<Rightarrow> None
    | Some l \<Rightarrow> (case find (\<lambda>r. nr_lid r = l \<and> nr_uid r \<noteq> u) (nodes d) of
          None \<Rightarrow> None
        | Some r \<Rightarrow> parse_node_uid (nr_uid r)))"

fun upsert_node_fuel :: "nat \<Rightarrow> db \<Rightarrow> node \<Rightarrow> db option" where
  "upsert_node_fuel 0 d n = None"
| "upsert_node_fuel (Suc k) d n = (case landed_uid d (node_uid n) of
      Some real \<Rightarrow> upsert_node_fuel k d (n\<lparr>node_uid := real\<rparr>)
    | None \<Rightarrow> Some (upsert_row d n))"

definition upsert_node_tx :: "db \<Rightarrow> node \<Rightarrow> db option" where
  "upsert_node_tx d n = upsert_node_fuel (Suc (Suc (length (nodes d)))) d n"

fun upsert_nodes :: "db \<Rightarrow> node list \<Rightarrow> db option" where
  "upsert_nodes d [] = Some d"
| "upsert_nodes d (n # ns) = Option.bind (upsert_node_tx d n) (\<lambda>d'. upsert_nodes d' ns)"

section \<open>A placeholder that lands\<close>

definition adopt_pins :: "pin_row list \<Rightarrow> uid \<Rightarrow> uid \<Rightarrow> pin_row list" where
  "adopt_pins ps u real =
     delete_where (\<lambda>p. pin_uid p = u)
       (if matches (\<lambda>p. pin_uid p = real) ps then ps
        else update_where (\<lambda>p. pin_uid p = u) (\<lambda>p. p\<lparr>pin_uid := real\<rparr>) ps)"

text \<open>The row Drive listed for the real uid gives way to the placeholder's row.\<close>

definition absorb_known_row :: "db \<Rightarrow> lid \<Rightarrow> lid \<Rightarrow> db" where
  "absorb_known_row d known l =
     d\<lparr>pending_op :=
         update_where (\<lambda>p. po_parent_lid p = Some known) (\<lambda>p. p\<lparr>po_parent_lid := Some l\<rparr>)
           (update_where (\<lambda>p. po_lid p = Some known) (\<lambda>p. p\<lparr>po_lid := Some l\<rparr>) (pending_op d)),
       nodes :=
         delete_where (\<lambda>r. nr_lid r = known)
           (update_where (\<lambda>r. nr_parent_lid r = Some known) (\<lambda>r. r\<lparr>nr_parent_lid := Some l\<rparr>) (nodes d)),
       nodes_fts := delete_where (\<lambda>f. fst f = known) (nodes_fts d)\<rparr>"

definition adopt_placeholder_row_tx :: "db \<Rightarrow> uid \<Rightarrow> uid \<Rightarrow> db option" where
  "adopt_placeholder_row_tx d0 u real =
     (let d = d0\<lparr>pins := adopt_pins (pins d0) u real,
                 pending_op := update_where (\<lambda>p. po_parent_lid p = None \<and> po_parent_uid p = Some u)
                   (\<lambda>p. p\<lparr>po_parent_uid := Some real\<rparr>) (pending_op d0)\<rparr>
      in case row_by_uid d0 u of
           None \<Rightarrow> Some d
         | Some row \<Rightarrow>
             (let known = row_by_uid d0 real;
                  d1 = (case known of None \<Rightarrow> d | Some k \<Rightarrow> absorb_known_row d (nr_lid k) (nr_lid row));
                  d2 = d1\<lparr>nodes := update_where (\<lambda>r. nr_lid r = nr_lid row) (\<lambda>r. r\<lparr>nr_uid := real\<rparr>) (nodes d1)\<rparr>;
                  json = (case Option.bind known nr_node_json of Some j \<Rightarrow> Some j | None \<Rightarrow> nr_node_json row)
              in case (json, parse_node_uid real) of
                   (Some n, Some r) \<Rightarrow> upsert_node_tx d2 (n\<lparr>node_uid := r\<rparr>)
                 | _ \<Rightarrow> Some d2))"

section \<open>What the queue's columns do not decide\<close>

text \<open>The lookups read the \<open>nodes\<close> table alone.\<close>

lemma row_by_lid_pending [simp]:
  "row_by_lid (d\<lparr>pending_op := x\<rparr>) = row_by_lid d" "row_by_lid (d\<lparr>pending_seq := y\<rparr>) = row_by_lid d"
  by (simp_all add: fun_eq_iff row_by_lid_def)

lemma row_by_uid_pending [simp]:
  "row_by_uid (d\<lparr>pending_op := x\<rparr>) = row_by_uid d" "row_by_uid (d\<lparr>pending_seq := y\<rparr>) = row_by_uid d"
  by (simp_all add: fun_eq_iff row_by_uid_def)

lemma node_lid_pending [simp]:
  "node_lid (d\<lparr>pending_op := x\<rparr>) = node_lid d" "node_lid (d\<lparr>pending_seq := y\<rparr>) = node_lid d"
  by (simp_all add: fun_eq_iff node_lid_def split: option.splits)

lemma row_by_uid_Some: "row_by_uid d u = Some r \<Longrightarrow> r \<in> set (nodes d) \<and> nr_uid r = u"
  by (auto simp: row_by_uid_def dest: find_SomeD)

lemma row_by_lid_Some: "row_by_lid d l = Some r \<Longrightarrow> r \<in> set (nodes d) \<and> nr_lid r = l"
  by (auto simp: row_by_lid_def dest: find_SomeD)

text \<open>Write-through of a node leaves the queue alone.\<close>

lemma reindex_row_queue [simp]:
  "pending_op (reindex_row b s d) = pending_op d" "pending_seq (reindex_row b s d) = pending_seq d"
  by (simp_all add: reindex_row_def Let_def split: prod.splits option.splits)

lemma reindex_fold_queue [simp]:
  "pending_op (fold (reindex_row b) ss d) = pending_op d"
  "pending_seq (fold (reindex_row b) ss d) = pending_seq d"
  by (induction ss arbitrary: d) simp_all

lemma upsert_row_queue [simp]:
  "pending_op (upsert_row d n) = pending_op d" "pending_seq (upsert_row d n) = pending_seq d"
  by (simp_all add: upsert_row_def Let_def reindex_subtree_tx_def index_node_def adopt_children_tx_def
      insert_or_update_def split: prod.splits option.splits)

lemma upsert_node_fuel_queue:
  "upsert_node_fuel k d n = Some d' \<Longrightarrow> pending_op d' = pending_op d \<and> pending_seq d' = pending_seq d"
  by (induction k d n rule: upsert_node_fuel.induct) (auto split: option.splits)

lemma upsert_node_tx_queue:
  "upsert_node_tx d n = Some d' \<Longrightarrow> pending_op d' = pending_op d \<and> pending_seq d' = pending_seq d"
  unfolding upsert_node_tx_def by (rule upsert_node_fuel_queue)

section \<open>Write-through returns\<close>

text \<open>What keeps the recursion from going round: a row stored under a stand-in's uid is the row that uid names.\<close>

definition stand_ins_named :: "db \<Rightarrow> bool" where
  "stand_ins_named d = (\<forall>r \<in> set (nodes d). \<forall>l. local_lid (nr_uid r) = Some l \<longrightarrow> nr_lid r = l)"

lemma landed_uid_real: "local_lid u = None \<Longrightarrow> landed_uid d u = None"
  by (simp add: landed_uid_def)

lemma landed_uid_once:
  assumes "wf_nodes d" and "stand_ins_named d" and "landed_uid d u = Some real"
  shows "landed_uid d real = None"
proof (cases "local_lid real")
  case None
  then show ?thesis by (rule landed_uid_real)
next
  case (Some l')
  from assms(3) obtain l r where r: "find (\<lambda>r. nr_lid r = l \<and> nr_uid r \<noteq> u) (nodes d) = Some r" "real = nr_uid r"
    by (auto simp: landed_uid_def parse_node_uid_def split: option.splits if_splits)
  then have "r \<in> set (nodes d)" by (auto dest: find_SomeD)
  then have l': "nr_lid r = l'" using assms(2) Some r(2) by (simp add: stand_ins_named_def)
  have "inj_on nr_lid (set (nodes d))"
    using assms(1) sorted_wrt_less_distinct [of "map nr_lid (nodes d)"] by (simp add: wf_nodes_def distinct_map)
  then have "nr_uid q = real" if "q \<in> set (nodes d)" "nr_lid q = l'" for q
    using inj_onD [of nr_lid "set (nodes d)" q r] that l' \<open>r \<in> set (nodes d)\<close> r(2) by simp
  then have "find (\<lambda>q. nr_lid q = l' \<and> nr_uid q \<noteq> real) (nodes d) = None"
    unfolding find_None_iff by blast
  then show ?thesis by (simp add: landed_uid_def Some)
qed

lemma upsert_node_tx_returns:
  assumes "wf_nodes d" and "stand_ins_named d"
  shows "\<exists>d'. upsert_node_tx d n = Some d'"
  using landed_uid_once [OF assms, of "node_uid n"]
  by (cases "landed_uid d (node_uid n)") (simp_all add: upsert_node_tx_def)

lemma upsert_real_returns: "local_lid (node_uid n) = None \<Longrightarrow> \<exists>d'. upsert_node_tx d n = Some d'"
  by (simp add: upsert_node_tx_def landed_uid_real)

lemma adopt_returns:
  assumes "local_lid real = None"
  shows "\<exists>d'. adopt_placeholder_row_tx d u real = Some d'"
  using upsert_real_returns assms
  by (auto simp: adopt_placeholder_row_tx_def Let_def parse_node_uid_def split: option.splits)

end
