(* ===== verification/Ops.thy ===== *)
theory Ops
  imports Nodes
begin

text \<open>
  The offline mutation queue, \<open>crates/pdfs-core/src/db/ops.rs\<close>: the statements on \<open>pending_op\<close>,
  one definition per method of \<open>Db\<close>, in the order of the source, followed by what they guarantee.
  A method's \<open>Result\<close> is its value: a failing SQLite call (disk, lock) rolls its transaction back
  and is not modelled. Where SQL leaves the order of the rows open, the model takes rowid order.
\<close>

section \<open>Kinds and sentinels\<close>

definition PARK_UNTIL :: millis where
  "PARK_UNTIL = 8000000000000"

definition PARK_EXPIRY_MS :: millis where
  "PARK_EXPIRY_MS = 60 * 60 * 1000"

definition FAILING_ATTEMPTS :: int where
  "FAILING_ATTEMPTS = 6"

definition OWN_SEALED_TTL_MS :: millis where
  "OWN_SEALED_TTL_MS = 7 * 24 * 60 * 60 * 1000"

fun op_supersedes :: "op_kind \<Rightarrow> bool" where
  "op_supersedes OP_REVISION = True"
| "op_supersedes OP_RENAME = True"
| "op_supersedes OP_TRASH = True"
| "op_supersedes _ = False"

definition makes_node :: "op_kind \<Rightarrow> bool" where
  "makes_node k = (k = OP_CREATE \<or> k = OP_MKDIR)"

section \<open>Fragments the statements share\<close>

definition on_node :: "db \<Rightarrow> uid \<Rightarrow> op_row \<Rightarrow> bool" where
  "on_node d u p = (po_uid p = u \<or> (node_lid d u \<noteq> None \<and> po_lid p = node_lid d u))"

definition uid_now :: "db \<Rightarrow> op_row \<Rightarrow> uid" where
  "uid_now d p = (case Option.bind (po_lid p) (row_by_lid d) of Some r \<Rightarrow> nr_uid r | None \<Rightarrow> po_uid p)"

definition parent_now :: "db \<Rightarrow> op_row \<Rightarrow> uid option" where
  "parent_now d p = (case Option.bind (po_parent_lid p) (row_by_lid d) of
      Some r \<Rightarrow> Some (nr_uid r) | None \<Rightarrow> po_parent_uid p)"

definition parent_landed :: "db \<Rightarrow> op_row \<Rightarrow> bool" where
  "parent_landed d p = (po_parent_uid p = None \<or>
     (case parent_now d p of Some q \<Rightarrow> \<not> has_local_prefix q | None \<Rightarrow> False))"

definition claimable :: "db \<Rightarrow> op_row \<Rightarrow> bool" where
  "claimable d p = (po_claimed_at p = 0 \<and> parent_landed d p \<and>
     \<not> matches (\<lambda>q. po_claimed_at q \<noteq> 0 \<and> po_uid q = po_uid p) (pending_op d) \<and>
     (po_lid p = None \<or>
      \<not> matches (\<lambda>q. po_claimed_at q \<noteq> 0 \<and> po_lid q \<noteq> None \<and> po_lid q = po_lid p) (pending_op d)))"

definition moves_from :: "string \<Rightarrow> op_row \<Rightarrow> bool" where
  "moves_from name p = (po_kind p = OP_RENAME \<and>
     (case po_meta_json p of
        Some (RenameMeta op on) \<Rightarrow> on = Some name \<and>
          ((case po_name p of Some n \<Rightarrow> n \<noteq> name | None \<Rightarrow> False) \<or>
           (case po_parent_uid p of Some q \<Rightarrow> q \<noteq> op | None \<Rightarrow> False))
      | _ \<Rightarrow> False))"

text \<open>What the drain sees of a row: its node and parent as they are now.\<close>

record pending_op_view =
  v_id :: op_id
  v_kind :: op_kind
  v_uid :: uid
  v_parent_uid :: "uid option"
  v_name :: "string option"
  v_blob_path :: "string option"
  v_meta_json :: "meta_json option"
  v_created_at :: millis
  v_attempts :: int
  v_last_error :: "string option"
  v_next_attempt_at :: millis

definition view_op :: "db \<Rightarrow> op_row \<Rightarrow> pending_op_view" where
  "view_op d p = \<lparr>v_id = po_id p, v_kind = po_kind p, v_uid = uid_now d p,
     v_parent_uid = parent_now d p, v_name = po_name p, v_blob_path = po_blob_path p,
     v_meta_json = po_meta_json p, v_created_at = po_created_at p, v_attempts = po_attempts p,
     v_last_error = po_last_error p, v_next_attempt_at = po_next_attempt_at p\<rparr>"

section \<open>Removing what a deleted node takes with it\<close>

type_synonym place = "uid \<times> lid option"

definition below_step :: "db \<Rightarrow> place \<Rightarrow> place list" where
  "below_step d = (\<lambda>(u, l).
     map (\<lambda>n. (nr_uid n, Some (nr_lid n)))
       (filter (\<lambda>n. (l \<noteq> None \<and> nr_parent_lid n = l) \<or> (nr_parent_lid n = None \<and> nr_parent_uid n = Some u))
         (nodes d)))"

definition below :: "db \<Rightarrow> uid \<Rightarrow> place list" where
  "below d u = cte_union (below_step d) (Suc (length (nodes d))) [(u, node_lid d u)]"

definition uid_in :: "uid \<Rightarrow> place list \<Rightarrow> bool" where
  "uid_in u ps = (u \<in> fst ` set ps)"

definition lid_in :: "lid option \<Rightarrow> place list \<Rightarrow> bool" where
  "lid_in l ps = (l \<noteq> None \<and> l \<in> snd ` set ps)"

definition made_below :: "db \<Rightarrow> uid \<Rightarrow> op_row \<Rightarrow> bool" where
  "made_below d u p = (makes_node (po_kind p) \<and>
     (lid_in (po_parent_lid p) (below d u) \<or>
      (case po_parent_uid p of Some q \<Rightarrow> uid_in q (below d u) | None \<Rightarrow> False)))"

definition queued_step :: "db \<Rightarrow> place \<Rightarrow> place list" where
  "queued_step d = (\<lambda>(u, l).
     map (\<lambda>p. (po_uid p, po_lid p))
       (filter (\<lambda>p. (l \<noteq> None \<and> po_parent_lid p = l) \<or> po_parent_uid p = Some u) (pending_op d)))"

definition queued :: "db \<Rightarrow> uid \<Rightarrow> place list" where
  "queued d u = cte_union (queued_step d) (Suc (length (pending_op d)))
     ((u, node_lid d u) # map (\<lambda>p. (po_uid p, po_lid p)) (filter (made_below d u) (pending_op d)))"

definition doomed :: "db \<Rightarrow> uid \<Rightarrow> op_row \<Rightarrow> bool" where
  "doomed d u p = (uid_in (po_uid p) (queued d u) \<or> lid_in (po_lid p) (queued d u) \<or>
     (po_kind p = OP_REVISION \<and> (uid_in (po_uid p) (below d u) \<or> lid_in (po_lid p) (below d u))))"

definition sent :: "op_row \<Rightarrow> bool" where
  "sent p = (makes_node (po_kind p) \<and>
     (po_claimed_at p \<noteq> 0 \<or> po_attempts p > 0 \<or> po_sent_to p \<noteq> None))"

definition withdraw :: "db \<Rightarrow> op_row \<Rightarrow> op_row" where
  "withdraw d p =
     (let gone = (case parent_now d p of Some q \<Rightarrow> like_local q | None \<Rightarrow> False)
      in p\<lparr>po_kind := OP_TRASH, po_issue := None, po_attempts := 0, po_last_error := None,
           po_next_attempt_at := 0,
           po_parent_uid := (if gone then None else parent_now d p),
           po_parent_lid := (if gone then None else po_parent_lid p)\<rparr>)"

definition withdrawn_trash :: "op_row \<Rightarrow> bool" where
  "withdrawn_trash p = (po_kind p = OP_TRASH \<and> like_local (po_uid p))"

text \<open>
  The three statements in turn. Each evaluates the common table expression anew, so the deletion
  sees the rows the update has already turned into trashes.
\<close>

definition doomed_blobs :: "db \<Rightarrow> uid \<Rightarrow> string list" where
  "doomed_blobs d u =
     List.map_filter po_blob_path (filter (\<lambda>p. doomed d u p \<and> \<not> sent p) (pending_op d))"

definition withdraw_sent :: "db \<Rightarrow> uid \<Rightarrow> db" where
  "withdraw_sent d u =
     d\<lparr>pending_op := update_where (\<lambda>p. doomed d u p \<and> sent p) (withdraw d) (pending_op d)\<rparr>"

definition delete_doomed :: "db \<Rightarrow> uid \<Rightarrow> db" where
  "delete_doomed d u =
     d\<lparr>pending_op := delete_where (\<lambda>p. doomed d u p \<and> \<not> withdrawn_trash p) (pending_op d)\<rparr>"

definition drop_doomed_ops :: "db \<Rightarrow> uid \<Rightarrow> string list \<times> db" where
  "drop_doomed_ops d u = (doomed_blobs d u, delete_doomed (withdraw_sent d u) u)"

definition wake_ops_waiting_for :: "db \<Rightarrow> string \<Rightarrow> db" where
  "wake_ops_waiting_for d name =
     d\<lparr>pending_op := update_where
         (\<lambda>p. po_name p = Some name \<and> (makes_node (po_kind p) \<or> po_kind p = OP_RENAME) \<and>
              po_attempts p > 0 \<and> po_next_attempt_at p < PARK_UNTIL \<and>
              \<not> matches (\<lambda>q. po_kind q = OP_TRASH \<and> po_name q = Some name) (pending_op d) \<and>
              \<not> matches (moves_from name) (pending_op d))
         (\<lambda>p. p\<lparr>po_next_attempt_at := 0\<rparr>) (pending_op d)\<rparr>"

section \<open>Inserting\<close>

definition fill_lids :: "db \<Rightarrow> op_row \<Rightarrow> op_row" where
  "fill_lids d p = p\<lparr>po_lid := node_lid d (po_uid p),
     po_parent_lid := Option.bind (po_parent_uid p) (node_lid d)\<rparr>"

definition fill_op_lids :: "db \<Rightarrow> op_id \<Rightarrow> db" where
  "fill_op_lids d i = d\<lparr>pending_op := update_where (\<lambda>p. po_id p = i) (fill_lids d) (pending_op d)\<rparr>"

definition insert_op :: "db \<Rightarrow> (op_id \<Rightarrow> op_row) \<Rightarrow> op_id \<times> db" where
  "insert_op d row = (let i = pending_seq d + 1
     in (i, fill_op_lids (d\<lparr>pending_op := pending_op d @ [row i], pending_seq := i\<rparr>) i))"

definition drop_replaced_rename :: "db \<Rightarrow> op_id \<Rightarrow> bool \<times> db" where
  "drop_replaced_rename d i =
     (let replaced = (\<lambda>p. po_id p = i \<and> po_kind p = OP_RENAME \<and>
            matches (\<lambda>q. (po_uid q = po_uid p \<or> (po_lid q \<noteq> None \<and> po_lid q = po_lid p)) \<and>
                         po_kind q = OP_RENAME \<and> po_id q > i) (pending_op d))
      in (matches replaced (pending_op d), d\<lparr>pending_op := delete_where replaced (pending_op d)\<rparr>))"

section \<open>Where a create was sent\<close>

record sent_target =
  st_parent :: uid
  st_name :: string
  st_at :: "millis option"

fun target_of :: "sent_entry \<Rightarrow> sent_target" where
  "target_of (At p n t) = \<lparr>st_parent = p, st_name = n, st_at = Some t\<rparr>"
| "target_of (Bare p n) = \<lparr>st_parent = p, st_name = n, st_at = None\<rparr>"

fun parse_sent_to :: "sent_json option \<Rightarrow> sent_target list option" where
  "parse_sent_to None = Some []"
| "parse_sent_to (Some (Malformed _)) = None"
| "parse_sent_to (Some (Entries es)) = Some (map target_of es)"

section \<open>Methods of Db: questions about names and nodes\<close>

definition has_pending_trash_named :: "db \<Rightarrow> string \<Rightarrow> bool" where
  "has_pending_trash_named d name =
     matches (\<lambda>p. po_kind p = OP_TRASH \<and> po_name p = Some name) (pending_op d)"

definition has_withdrawn_create :: "db \<Rightarrow> uid \<Rightarrow> string \<Rightarrow> bool" where
  "has_withdrawn_create d parent name =
     matches (\<lambda>p. po_kind p = OP_TRASH \<and> parent_now d p = Some parent \<and> po_name p = Some name \<and>
                  like_local (po_uid p)) (pending_op d)"

definition has_pending_move_from :: "db \<Rightarrow> string \<Rightarrow> bool" where
  "has_pending_move_from d name = matches (moves_from name) (pending_op d)"

definition has_pending_op :: "db \<Rightarrow> uid \<Rightarrow> op_kind \<Rightarrow> bool" where
  "has_pending_op d u k = matches (\<lambda>p. on_node d u p \<and> po_kind p = k) (pending_op d)"

definition pending_op_meta :: "db \<Rightarrow> uid \<Rightarrow> op_kind \<Rightarrow> meta_json option" where
  "pending_op_meta d u k = Option.bind (find (\<lambda>p. on_node d u p \<and> po_kind p = k) (pending_op d)) po_meta_json"

section \<open>Methods of Db: enqueueing\<close>

definition superseded_by :: "db \<Rightarrow> uid \<Rightarrow> op_kind \<Rightarrow> op_row \<Rightarrow> bool" where
  "superseded_by d u k p = (on_node d u p \<and> po_kind p = k \<and> (po_kind p \<noteq> OP_RENAME \<or> po_claimed_at p = 0))"

definition enqueue_op :: "db \<Rightarrow> pending_op_view \<Rightarrow> op_id \<times> string option \<times> db" where
  "enqueue_op d op =
     (let same = superseded_by d (v_uid op) (v_kind op);
          blob = (if op_supersedes (v_kind op)
                  then Option.bind (find same (pending_op d)) po_blob_path else None);
          d1 = (if op_supersedes (v_kind op)
                then d\<lparr>pending_op := delete_where same (pending_op d)\<rparr> else d);
          (i, d2) = insert_op d1 (\<lambda>i. (new_op_row i (v_kind op) (v_uid op) (v_created_at op))
             \<lparr>po_parent_uid := v_parent_uid op, po_name := v_name op, po_blob_path := v_blob_path op,
              po_meta_json := v_meta_json op, po_next_attempt_at := v_next_attempt_at op\<rparr>)
      in (i, blob, d2))"

definition replace_ops_with_trash :: "db \<Rightarrow> uid \<Rightarrow> string \<Rightarrow> millis \<Rightarrow> op_id \<times> string list \<times> db" where
  "replace_ops_with_trash d u name created =
     (let (blobs, d1) = drop_doomed_ops d u;
          (i, d2) = insert_op d1 (\<lambda>i. (new_op_row i OP_TRASH u created)\<lparr>po_name := Some name\<rparr>)
      in (i, blobs, d2))"

record attached_blob =
  ab_id :: op_id
  ab_superseded :: "string option"

definition keep_park :: "millis \<Rightarrow> millis \<Rightarrow> millis" where
  "keep_park old new = (if old \<ge> PARK_UNTIL then old else new)"

definition attach_blob_to_create :: "db \<Rightarrow> uid \<Rightarrow> string \<Rightarrow> meta_json \<Rightarrow> attached_blob option \<times> db" where
  "attach_blob_to_create d u blob meta =
     (case find (\<lambda>p. on_node d u p \<and> po_kind p = OP_CREATE) (pending_op d) of
        None \<Rightarrow> (None, d)
      | Some row \<Rightarrow>
          (Some \<lparr>ab_id = po_id row, ab_superseded = po_blob_path row\<rparr>,
           d\<lparr>pending_op := update_where (\<lambda>p. po_id p = po_id row)
               (\<lambda>p. p\<lparr>po_blob_path := Some blob, po_meta_json := Some meta, po_attempts := 0,
                      po_next_attempt_at := keep_park (po_next_attempt_at p) 0\<rparr>) (pending_op d)\<rparr>))"

section \<open>Methods of Db: a create that lands\<close>

record create_landing =
  cl_local :: uid
  cl_real :: uid
  cl_sent :: "uid \<times> string"
  cl_landed :: "uid \<times> string"

datatype create_retired = Landed | Newer string meta_json | Withdrawn op_id

definition newer_write ::
  "op_row \<Rightarrow> string option \<Rightarrow> (meta_json \<Rightarrow> meta_json option) \<Rightarrow> (string \<times> meta_json) option" where
  "newer_write row uploaded rewrite =
     (case (po_blob_path row, po_meta_json row) of
        (Some blob, Some meta) \<Rightarrow>
          (if uploaded \<noteq> Some blob then map_option (\<lambda>m. (blob, m)) (rewrite meta) else None)
      | _ \<Rightarrow> None)"

definition retire_create_row :: "db \<Rightarrow> op_id \<Rightarrow> uid \<Rightarrow> (string \<times> meta_json) option \<Rightarrow> db" where
  "retire_create_row d i real newer = (case newer of
      Some (_, meta) \<Rightarrow>
        d\<lparr>pending_op := update_where (\<lambda>p. po_id p = i)
            (\<lambda>p. p\<lparr>po_kind := OP_REVISION, po_uid := real, po_parent_uid := None, po_parent_lid := None,
                   po_name := None, po_meta_json := Some meta, po_attempts := 0,
                   po_last_error := None, po_next_attempt_at := 0\<rparr>) (pending_op d)\<rparr>
    | None \<Rightarrow> d\<lparr>pending_op := delete_where (\<lambda>p. po_id p = i) (pending_op d)\<rparr>)"

text \<open>The move made while the create was on the wire, queued as a rename of the landed node.\<close>

definition queue_move_of_landed ::
  "db \<Rightarrow> create_landing \<Rightarrow> uid option \<Rightarrow> string option \<Rightarrow> millis \<Rightarrow> db" where
  "queue_move_of_landed d l parent name created = (case (parent, name) of
      (Some q, Some n) \<Rightarrow>
        (if (q, n) \<noteq> cl_sent l then
           (let lid = node_lid d (cl_local l);
                d1 = d\<lparr>pending_op := delete_where
                       (\<lambda>p. (po_uid p = cl_real l \<or> (lid \<noteq> None \<and> po_lid p = lid)) \<and> po_kind p = OP_RENAME)
                       (pending_op d)\<rparr>
            in snd (insert_op d1 (\<lambda>i. (new_op_row i OP_RENAME (cl_real l) created)
                 \<lparr>po_parent_uid := Some q, po_name := Some n,
                  po_meta_json := Some (RenameMeta (fst (cl_landed l)) (Some (snd (cl_landed l))))\<rparr>)))
         else d)
    | _ \<Rightarrow> d)"

definition finish_create ::
  "db \<Rightarrow> op_id \<Rightarrow> string option \<Rightarrow> create_landing \<Rightarrow> (meta_json \<Rightarrow> meta_json option) \<Rightarrow> millis \<Rightarrow>
   (create_retired \<times> db) option" where
  "finish_create d i uploaded l rewrite now =
     (let row = find (\<lambda>p. po_id p = i \<and> po_kind p \<noteq> OP_TRASH) (pending_op d);
          is_trash = (\<lambda>p. po_id p = i \<and> po_kind p = OP_TRASH)
      in if matches is_trash (pending_op d) then
           Some (Withdrawn i, d\<lparr>pending_op := update_where is_trash
             (\<lambda>p. p\<lparr>po_uid := cl_real l, po_name := Some (snd (cl_landed l))\<rparr>) (pending_op d)\<rparr>)
         else (case row of
           None \<Rightarrow>
             (let (t, d1) = insert_op d (\<lambda>i. (new_op_row i OP_TRASH (cl_real l) now)
                    \<lparr>po_name := Some (snd (cl_landed l)), po_claimed_at := now\<rparr>)
              in Some (Withdrawn t, d1))
         | Some r \<Rightarrow>
             (let newer = newer_write r uploaded rewrite;
                  d1 = retire_create_row d i (cl_real l) newer;
                  d2 = queue_move_of_landed d1 l (parent_now d r) (po_name r) (po_created_at r)
              in map_option
                   (\<lambda>d3. ((case newer of Some (b, m) \<Rightarrow> Newer b m | None \<Rightarrow> Landed), d3))
                   (adopt_placeholder_row_tx d2 (cl_local l) (cl_real l)))))"

section \<open>Methods of Db: what a create sent\<close>

text \<open>\<open>instr(' ' || sent || ' ', ' ' || sha || ' ') > 0\<close>, and \<open>split(' ')\<close>.\<close>

definition instr :: "string \<Rightarrow> string \<Rightarrow> bool" where
  "instr hay needle = sublist needle hay"

fun split_on :: "char \<Rightarrow> string \<Rightarrow> string list" where
  "split_on c [] = [[]]"
| "split_on c (x # xs) =
     (if x = c then [] # split_on c xs
      else (case split_on c xs of [] \<Rightarrow> [[x]] | y # ys \<Rightarrow> (x # y) # ys))"

definition note_sha :: "string \<Rightarrow> string option \<Rightarrow> string option" where
  "note_sha sha old = (case old of
      None \<Rightarrow> Some sha
    | Some shas \<Rightarrow> (if instr ('' '' @ shas @ '' '') ('' '' @ sha @ '' '') then Some shas
                  else Some (shas @ '' '' @ sha)))"

definition note_create_sent :: "db \<Rightarrow> op_id \<Rightarrow> string \<Rightarrow> db" where
  "note_create_sent d i sha =
     d\<lparr>pending_op := update_where (\<lambda>p. po_id p = i)
         (\<lambda>p. p\<lparr>po_sent_sha1 := note_sha sha (po_sent_sha1 p)\<rparr>) (pending_op d)\<rparr>"

definition op_by_id :: "db \<Rightarrow> op_id \<Rightarrow> op_row option" where
  "op_by_id d i = find (\<lambda>p. po_id p = i) (pending_op d)"

definition entry_of :: "sent_target \<Rightarrow> sent_entry" where
  "entry_of t = At (st_parent t) (st_name t) (case st_at t of Some m \<Rightarrow> m | None \<Rightarrow> 0)"

definition note_create_target :: "db \<Rightarrow> op_id \<Rightarrow> uid \<Rightarrow> string \<Rightarrow> millis \<Rightarrow> db" where
  "note_create_target d i parent name at =
     (case parse_sent_to (Option.bind (op_by_id d i) po_sent_to) of
        None \<Rightarrow> d
      | Some targets \<Rightarrow>
          (if list_ex (\<lambda>t. st_parent t = parent \<and> st_name t = name) targets then d
           else d\<lparr>pending_op := update_where (\<lambda>p. po_id p = i)
                    (\<lambda>p. p\<lparr>po_sent_to := Some (Entries (map entry_of
                        (targets @ [\<lparr>st_parent = parent, st_name = name, st_at = Some at\<rparr>])))\<rparr>)
                    (pending_op d)\<rparr>))"

definition sent_targets :: "db \<Rightarrow> op_id \<Rightarrow> sent_target list" where
  "sent_targets d i = (case parse_sent_to (Option.bind (op_by_id d i) po_sent_to) of
      Some ts \<Rightarrow> ts | None \<Rightarrow> [])"

definition create_targets :: "db \<Rightarrow> op_id \<Rightarrow> (uid \<times> string) list" where
  "create_targets d i = map (\<lambda>t. (st_parent t, st_name t)) (sent_targets d i)"

definition create_first_sent :: "db \<Rightarrow> op_id \<Rightarrow> millis option" where
  "create_first_sent d i =
     (let times = filter (\<lambda>t. t > 0) (List.map_filter st_at (sent_targets d i))
      in if times = [] then None else Some (Min (set times)))"

definition create_sent :: "db \<Rightarrow> op_id \<Rightarrow> string list" where
  "create_sent d i = (case Option.bind (op_by_id d i) po_sent_sha1 of
      Some shas \<Rightarrow> split_on (CHR '' '') shas | None \<Rightarrow> [])"

section \<open>Methods of Db: changing a queued op\<close>

definition update_op_meta :: "db \<Rightarrow> uid \<Rightarrow> op_kind \<Rightarrow> meta_json \<Rightarrow> bool \<times> db" where
  "update_op_meta d u k meta =
     (let hit = (\<lambda>p. on_node d u p \<and> po_kind p = k)
      in (matches hit (pending_op d),
          d\<lparr>pending_op := update_where hit (\<lambda>p. p\<lparr>po_meta_json := Some meta\<rparr>) (pending_op d)\<rparr>))"

definition update_op_meta_for_blob :: "db \<Rightarrow> op_id \<Rightarrow> string \<Rightarrow> meta_json \<Rightarrow> bool \<times> db" where
  "update_op_meta_for_blob d i blob meta =
     (let hit = (\<lambda>p. po_id p = i \<and> po_blob_path p = Some blob)
      in (matches hit (pending_op d),
          d\<lparr>pending_op := update_where hit (\<lambda>p. p\<lparr>po_meta_json := Some meta\<rparr>) (pending_op d)\<rparr>))"

definition rewrite_op_target :: "db \<Rightarrow> uid \<Rightarrow> uid \<Rightarrow> string \<Rightarrow> bool \<times> db" where
  "rewrite_op_target d u parent name =
     (let hit = (\<lambda>p. on_node d u p \<and> makes_node (po_kind p))
      in (matches hit (pending_op d),
          d\<lparr>pending_op := update_where hit
              (\<lambda>p. p\<lparr>po_parent_uid := Some parent, po_name := Some name,
                     po_parent_lid := node_lid d parent,
                     po_next_attempt_at := keep_park (po_next_attempt_at p) 0\<rparr>) (pending_op d)\<rparr>))"

definition set_create_hold :: "db \<Rightarrow> uid \<Rightarrow> bool \<Rightarrow> bool \<times> db" where
  "set_create_hold d u held =
     (let hit = (\<lambda>p. on_node d u p \<and> makes_node (po_kind p))
      in (matches hit (pending_op d),
          d\<lparr>pending_op := update_where hit
              (\<lambda>p. p\<lparr>po_next_attempt_at := (if held then PARK_UNTIL else 0)\<rparr>) (pending_op d)\<rparr>))"

definition has_create_op :: "db \<Rightarrow> uid \<Rightarrow> bool" where
  "has_create_op d u = matches (\<lambda>p. on_node d u p \<and> makes_node (po_kind p)) (pending_op d)"

definition has_any_op :: "db \<Rightarrow> uid \<Rightarrow> bool" where
  "has_any_op d u = matches (on_node d u) (pending_op d)"

definition delete_ops_for_uid :: "db \<Rightarrow> uid \<Rightarrow> string list \<times> db" where
  "delete_ops_for_uid d u = drop_doomed_ops d u"

definition discard_ops_on_node :: "db \<Rightarrow> uid \<Rightarrow> string list option \<times> db" where
  "discard_ops_on_node d u =
     (if matches (\<lambda>p. on_node d u p \<and> po_claimed_at p \<noteq> 0) (pending_op d) then (None, d)
      else (Some (List.map_filter po_blob_path (filter (on_node d u) (pending_op d))),
            d\<lparr>pending_op := delete_where (on_node d u) (pending_op d)\<rparr>))"

section \<open>Methods of Db: the drain's side\<close>

definition due :: "millis \<Rightarrow> op_row \<Rightarrow> bool" where
  "due now p = (po_next_attempt_at p \<le> now)"

definition next_due_op :: "db \<Rightarrow> millis \<Rightarrow> pending_op_view option" where
  "next_due_op d now = map_option (view_op d) (find (\<lambda>p. due now p \<and> parent_landed d p) (pending_op d))"

definition claim_next_due_op :: "db \<Rightarrow> millis \<Rightarrow> pending_op_view option \<times> db" where
  "claim_next_due_op d now =
     (case find (\<lambda>p. due now p \<and> claimable d p) (pending_op d) of
        None \<Rightarrow> (None, d)
      | Some p \<Rightarrow> (Some (view_op d p),
          d\<lparr>pending_op := update_where (\<lambda>q. po_id q = po_id p)
              (\<lambda>q. q\<lparr>po_claimed_at := max now 1\<rparr>) (pending_op d)\<rparr>))"

definition release_op_claim :: "db \<Rightarrow> op_id \<Rightarrow> db" where
  "release_op_claim d i =
     (let (dropped, d1) = drop_replaced_rename d i
      in if dropped then d1
         else d1\<lparr>pending_op := update_where (\<lambda>p. po_id p = i) (\<lambda>p. p\<lparr>po_claimed_at := 0\<rparr>) (pending_op d1)\<rparr>)"

definition clear_op_claims :: "db \<Rightarrow> db" where
  "clear_op_claims d =
     d\<lparr>pending_op := update_where (\<lambda>p. po_claimed_at p \<noteq> 0) (\<lambda>p. p\<lparr>po_claimed_at := 0\<rparr>) (pending_op d)\<rparr>"

definition earliest_due_at :: "db \<Rightarrow> millis option" where
  "earliest_due_at d =
     (let times = map po_next_attempt_at (filter (claimable d) (pending_op d))
      in if times = [] then None else Some (Min (set times)))"

definition pending_ops :: "db \<Rightarrow> pending_op_view list" where
  "pending_ops d = map (view_op d) (pending_op d)"

definition parked_create_ops :: "db \<Rightarrow> pending_op_view list" where
  "parked_create_ops d = map (view_op d) (sort_key po_created_at
     (filter (\<lambda>p. po_next_attempt_at p \<ge> PARK_UNTIL \<and> makes_node (po_kind p)) (pending_op d)))"

record pending_counts =
  pc_uploads :: nat
  pc_changes :: nat
  pc_parked :: nat
  pc_failing :: nat
  pc_last_error :: "string option"

definition carries_bytes :: "op_kind \<Rightarrow> bool" where
  "carries_bytes k = (k = OP_REVISION \<or> k = OP_CREATE)"

definition failing :: "op_row \<Rightarrow> bool" where
  "failing p = (po_attempts p \<ge> FAILING_ATTEMPTS \<or> po_issue p \<noteq> None)"

text \<open>\<open>ORDER BY issue IS NULL, attempts DESC LIMIT 1\<close>: an op with an issue first, then the most attempts.\<close>

definition worst_failing :: "op_row list \<Rightarrow> op_row option" where
  "worst_failing ps =
     (let refused = filter (\<lambda>p. po_issue p \<noteq> None) ps;
          pool = (if refused = [] then ps else refused)
      in find (\<lambda>p. list_all (\<lambda>q. po_attempts q \<le> po_attempts p) pool) pool)"

definition pending_op_counts :: "db \<Rightarrow> pending_counts" where
  "pending_op_counts d =
     \<lparr>pc_uploads = length (filter (\<lambda>p. carries_bytes (po_kind p)) (pending_op d)),
      pc_changes = length (filter (\<lambda>p. \<not> carries_bytes (po_kind p)) (pending_op d)),
      pc_parked = length (filter (\<lambda>p. po_next_attempt_at p \<ge> PARK_UNTIL) (pending_op d)),
      pc_failing = length (filter failing (pending_op d)),
      pc_last_error = Option.bind
        (worst_failing (filter (\<lambda>p. failing p \<and> po_last_error p \<noteq> None) (pending_op d))) po_last_error\<rparr>"

definition op_exists :: "db \<Rightarrow> op_id \<Rightarrow> bool" where
  "op_exists d i = matches (\<lambda>p. po_id p = i) (pending_op d)"

definition delete_op :: "db \<Rightarrow> op_id \<Rightarrow> db" where
  "delete_op d i = d\<lparr>pending_op := delete_where (\<lambda>p. po_id p = i) (pending_op d)\<rparr>"

definition retry_op_now :: "db \<Rightarrow> op_id \<Rightarrow> millis \<Rightarrow> bool \<times> db" where
  "retry_op_now d i now =
     (let hit = (\<lambda>p. po_id p = i \<and> po_next_attempt_at p > now \<and> po_next_attempt_at p < PARK_UNTIL)
      in (matches hit (pending_op d),
          d\<lparr>pending_op := update_where hit (\<lambda>p. p\<lparr>po_next_attempt_at := now\<rparr>) (pending_op d)\<rparr>))"

definition retry_ops_now :: "db \<Rightarrow> millis \<Rightarrow> (op_row \<Rightarrow> bool) \<Rightarrow> nat \<times> db" where
  "retry_ops_now d now flt =
     (let hit = (\<lambda>p. po_attempts p > 0 \<and> po_next_attempt_at p > now \<and> po_next_attempt_at p < PARK_UNTIL \<and> flt p)
      in (length (filter hit (pending_op d)),
          d\<lparr>pending_op := update_where hit (\<lambda>p. p\<lparr>po_next_attempt_at := now\<rparr>) (pending_op d)\<rparr>))"

definition retry_failed_ops_now :: "db \<Rightarrow> millis \<Rightarrow> nat \<times> db" where
  "retry_failed_ops_now d now = retry_ops_now d now (\<lambda>_. True)"

definition retry_unrefused_ops_now :: "db \<Rightarrow> millis \<Rightarrow> nat \<times> db" where
  "retry_unrefused_ops_now d now = retry_ops_now d now (\<lambda>p. po_issue p = None)"

definition record_failure :: "db \<Rightarrow> op_id \<Rightarrow> op_kind option \<Rightarrow> string \<Rightarrow> millis \<Rightarrow> db" where
  "record_failure d i kind err next =
     (let (dropped, d1) = drop_replaced_rename d i
      in if dropped then d1
         else d1\<lparr>pending_op := update_where
                   (\<lambda>p. po_id p = i \<and> (case kind of None \<Rightarrow> True | Some k \<Rightarrow> po_kind p = k))
                   (\<lambda>p. p\<lparr>po_attempts := po_attempts p + 1, po_last_error := Some err,
                          po_next_attempt_at := next, po_access_deferred_since := 0\<rparr>) (pending_op d1)\<rparr>)"

definition record_op_failure :: "db \<Rightarrow> op_id \<Rightarrow> string \<Rightarrow> millis \<Rightarrow> db" where
  "record_op_failure d i err next = record_failure d i None err next"

definition record_attempt_failure :: "db \<Rightarrow> op_id \<Rightarrow> op_kind \<Rightarrow> string \<Rightarrow> millis \<Rightarrow> db" where
  "record_attempt_failure d i kind err next = record_failure d i (Some kind) err next"

definition set_op_issue :: "db \<Rightarrow> op_id \<Rightarrow> string option \<Rightarrow> db" where
  "set_op_issue d i issue =
     d\<lparr>pending_op := update_where (\<lambda>p. po_id p = i) (\<lambda>p. p\<lparr>po_issue := issue\<rparr>) (pending_op d)\<rparr>"

definition op_issues :: "db \<Rightarrow> op_id \<rightharpoonup> string" where
  "op_issues d = map_of (List.map_filter
     (\<lambda>p. map_option (\<lambda>issue. (po_id p, issue)) (po_issue p)) (pending_op d))"

definition node_issues :: "db \<Rightarrow> lid \<rightharpoonup> string" where
  "node_issues d = map_of (rev (List.map_filter
     (\<lambda>p. case (po_issue p, (case po_lid p of Some l \<Rightarrow> Some l
                             | None \<Rightarrow> map_option nr_lid (row_by_uid d (po_uid p)))) of
            (Some issue, Some l) \<Rightarrow> Some (l, issue) | _ \<Rightarrow> None) (pending_op d)))"

definition retry_if_retargeted ::
  "db \<Rightarrow> op_id \<Rightarrow> uid option \<Rightarrow> string option \<Rightarrow> string option \<Rightarrow> bool \<times> db" where
  "retry_if_retargeted d i parent name blob =
     (let hit = (\<lambda>p. po_id p = i \<and> makes_node (po_kind p) \<and> po_next_attempt_at p < PARK_UNTIL \<and>
                     (parent_now d p \<noteq> parent \<or> po_name p \<noteq> name \<or> po_blob_path p \<noteq> blob))
      in (matches hit (pending_op d),
          d\<lparr>pending_op := update_where hit (\<lambda>p. p\<lparr>po_next_attempt_at := 0\<rparr>) (pending_op d)\<rparr>))"

definition defer_op_without_attempt :: "db \<Rightarrow> op_id \<Rightarrow> millis \<Rightarrow> db" where
  "defer_op_without_attempt d i next =
     d\<lparr>pending_op := update_where (\<lambda>p. po_id p = i)
         (\<lambda>p. p\<lparr>po_next_attempt_at := keep_park (po_next_attempt_at p) next\<rparr>) (pending_op d)\<rparr>"

definition defer_op_for_access :: "db \<Rightarrow> op_id \<Rightarrow> millis \<Rightarrow> millis \<Rightarrow> millis \<times> db" where
  "defer_op_for_access d i now next =
     (let d1 = d\<lparr>pending_op := update_where (\<lambda>p. po_id p = i)
            (\<lambda>p. p\<lparr>po_next_attempt_at := keep_park (po_next_attempt_at p) next,
                   po_access_deferred_since :=
                     (if po_access_deferred_since p = 0 then now else po_access_deferred_since p)\<rparr>)
            (pending_op d)\<rparr>
      in ((case map_option po_access_deferred_since (op_by_id d1 i) of
             Some since \<Rightarrow> (if since \<noteq> 0 then since else now) | None \<Rightarrow> now), d1))"

definition clear_op_access_deferral :: "db \<Rightarrow> op_id \<Rightarrow> db" where
  "clear_op_access_deferral d i =
     d\<lparr>pending_op := update_where (\<lambda>p. po_id p = i \<and> po_access_deferred_since p \<noteq> 0)
         (\<lambda>p. p\<lparr>po_access_deferred_since := 0\<rparr>) (pending_op d)\<rparr>"

definition op_blob_paths :: "db \<Rightarrow> string set" where
  "op_blob_paths d = set (List.map_filter po_blob_path (pending_op d))"

section \<open>Methods of Db: revisions this daemon sealed, and a landed trash\<close>

definition set_own_sealed_rev :: "db \<Rightarrow> uid \<Rightarrow> string \<Rightarrow> millis \<Rightarrow> db" where
  "set_own_sealed_rev d u revision now =
     (let row = \<lparr>sealed_uid = u, sealed_revision = revision, sealed_at = now\<rparr>;
          rows = (if matches (\<lambda>r. sealed_uid r = u) (own_sealed d)
                  then update_where (\<lambda>r. sealed_uid r = u) (\<lambda>_. row) (own_sealed d)
                  else own_sealed d @ [row])
      in d\<lparr>own_sealed := delete_where (\<lambda>r. sealed_at r < now - OWN_SEALED_TTL_MS) rows\<rparr>)"

definition own_sealed_rev :: "db \<Rightarrow> uid \<Rightarrow> millis \<Rightarrow> string option" where
  "own_sealed_rev d u now = map_option sealed_revision
     (find (\<lambda>r. sealed_uid r = u \<and> sealed_at r \<ge> now - OWN_SEALED_TTL_MS) (own_sealed d))"

definition clear_own_sealed_rev :: "db \<Rightarrow> uid \<Rightarrow> db" where
  "clear_own_sealed_rev d u = d\<lparr>own_sealed := delete_where (\<lambda>r. sealed_uid r = u) (own_sealed d)\<rparr>"

text \<open>\<open>complete_trash_op\<close> (in \<open>nodes.rs\<close>): the node's row, its index row and the op go together.\<close>

definition drop_node_row :: "db \<Rightarrow> uid \<Rightarrow> db" where
  "drop_node_row d u =
     (let l = map_option nr_lid (row_by_uid d u)
      in d\<lparr>nodes := delete_where (\<lambda>r. nr_uid r = u) (nodes d),
           nodes_fts := delete_where (\<lambda>f. Some (fst f) = l) (nodes_fts d)\<rparr>)"

definition complete_trash_op :: "db \<Rightarrow> op_id \<Rightarrow> uid \<Rightarrow> string option \<times> db" where
  "complete_trash_op d i u =
     (let row = op_by_id d i;
          d1 = drop_node_row d u;
          d2 = d1\<lparr>pending_op := delete_where (\<lambda>p. po_id p = i) (pending_op d1)\<rparr>;
          d3 = (case Option.bind row po_name of Some name \<Rightarrow> wake_ops_waiting_for d2 name | None \<Rightarrow> d2)
      in (Option.bind row po_blob_path, d3))"

end
