(* ===== verification/Queue.thy ===== *)
theory Queue
  imports Ops
begin

text \<open>
  What the queue guarantees: ids are given out once and in order, a node is on the wire for one
  worker at a time, a claim takes the oldest op that is due and free, a parked create stays
  parked, a newer end state replaces an older one, and no staged blob leaves the queue unaccounted.
\<close>

section \<open>Frames: what a statement on the queue keeps\<close>

definition claimed :: "op_row \<Rightarrow> bool" where
  "claimed p = (po_claimed_at p \<noteq> 0)"

text \<open>Two ops are of one node when they share its uid or its local id.\<close>

definition same_node :: "op_row \<Rightarrow> op_row \<Rightarrow> bool" where
  "same_node p q = (po_uid p = po_uid q \<or> (po_lid p \<noteq> None \<and> po_lid p = po_lid q))"

definition exclusive :: "db \<Rightarrow> bool" where
  "exclusive d = (\<forall>p \<in> set (pending_op d). \<forall>q \<in> set (pending_op d).
     claimed p \<longrightarrow> claimed q \<longrightarrow> same_node p q \<longrightarrow> po_id p = po_id q)"

definition queue_inv :: "db \<Rightarrow> bool" where
  "queue_inv d = (wf_queue d \<and> exclusive d)"

text \<open>An update of some rows that keeps what identifies them and claims nothing.\<close>

definition quiet :: "(op_row \<Rightarrow> op_row) \<Rightarrow> bool" where
  "quiet f = (\<forall>p. po_id (f p) = po_id p \<and> po_uid (f p) = po_uid p \<and> po_lid (f p) = po_lid p \<and>
     (claimed (f p) \<longrightarrow> claimed p))"

lemma wf_queue_cong:
  "pending_op d' = pending_op d \<Longrightarrow> pending_seq d' = pending_seq d \<Longrightarrow> wf_queue d' = wf_queue d"
  by (simp add: wf_queue_def)

lemma exclusive_cong: "pending_op d' = pending_op d \<Longrightarrow> exclusive d' = exclusive d"
  unfolding exclusive_def by (simp only:)

lemma queue_inv_cong:
  "pending_op d' = pending_op d \<Longrightarrow> pending_seq d' = pending_seq d \<Longrightarrow> queue_inv d' = queue_inv d"
  unfolding queue_inv_def wf_queue_def exclusive_def by (simp only:)

lemma wf_queue_update:
  "wf_queue d \<Longrightarrow> (\<And>p. po_id (f p) = po_id p) \<Longrightarrow> wf_queue (d\<lparr>pending_op := update_where P f (pending_op d)\<rparr>)"
  by (auto simp: wf_queue_def map_update_where_same [of P po_id f] set_update_where)

lemma wf_queue_delete: "wf_queue d \<Longrightarrow> wf_queue (d\<lparr>pending_op := delete_where P (pending_op d)\<rparr>)"
  by (auto simp: wf_queue_def sorted_wrt_delete_where)

lemma exclusive_update:
  assumes "exclusive d" and f: "quiet f"
  shows "exclusive (d\<lparr>pending_op := update_where P f (pending_op d)\<rparr>)"
proof -
  have "\<exists>p \<in> set (pending_op d). po_id p = po_id p' \<and> po_uid p = po_uid p' \<and> po_lid p = po_lid p' \<and>
        (claimed p' \<longrightarrow> claimed p)"
    if "p' \<in> set (update_where P f (pending_op d))" for p'
    using that f by (auto simp: set_update_where quiet_def)
  with assms(1) show ?thesis
    unfolding exclusive_def same_node_def by simp (metis (no_types, lifting))
qed

lemma exclusive_delete: "exclusive d \<Longrightarrow> exclusive (d\<lparr>pending_op := delete_where P (pending_op d)\<rparr>)"
  by (auto simp: exclusive_def)

lemma queue_inv_update [queue_keeps]:
  "queue_inv d \<Longrightarrow> quiet f \<Longrightarrow> queue_inv (d\<lparr>pending_op := update_where P f (pending_op d)\<rparr>)"
  by (simp add: queue_inv_def exclusive_update wf_queue_update quiet_def)

lemma queue_inv_delete [queue_keeps]:
  "queue_inv d \<Longrightarrow> queue_inv (d\<lparr>pending_op := delete_where P (pending_op d)\<rparr>)"
  by (simp add: queue_inv_def exclusive_delete wf_queue_delete)

text \<open>An insert appends a row with a fresh id; its local ids come from the tree.\<close>

lemma insert_op_pending:
  assumes "\<And>p. p \<in> set (pending_op d) \<Longrightarrow> po_id p \<le> pending_seq d"
    and "\<And>i. po_id (row i) = i"
  shows "insert_op d row = (pending_seq d + 1,
     d\<lparr>pending_op := pending_op d @ [fill_lids d (row (pending_seq d + 1))],
       pending_seq := pending_seq d + 1\<rparr>)"
proof -
  let ?i = "pending_seq d + 1"
  let ?d = "d\<lparr>pending_op := pending_op d @ [row ?i], pending_seq := ?i\<rparr>"
  have fl: "fill_lids ?d = fill_lids d"
    by (simp add: fun_eq_iff fill_lids_def)
  have "update_where (\<lambda>p. po_id p = ?i) (fill_lids d) (pending_op d) = pending_op d"
    using assms(1) by (force simp: update_where_def intro: map_idI)
  then have "update_where (\<lambda>p. po_id p = ?i) (fill_lids d) (pending_op d @ [row ?i]) =
      pending_op d @ [fill_lids d (row ?i)]"
    using assms(2) by (simp add: update_where_def)
  with fl show ?thesis
    by (simp add: insert_op_def fill_op_lids_def Let_def)
qed

lemma same_node_sym: "same_node p q = same_node q p"
  by (metis same_node_def)

lemma same_node_claimed: "same_node (p\<lparr>po_claimed_at := t\<rparr>) q = same_node p q"
  by (simp add: same_node_def)

text \<open>One row more, or one row changed, that shares its node with no claimed row.\<close>

lemma exclusive_extend:
  assumes "exclusive d" and rows: "set (pending_op d') \<subseteq> insert r (set (pending_op d))"
    and free: "\<And>q. q \<in> set (pending_op d) \<Longrightarrow> claimed q \<Longrightarrow> claimed r \<Longrightarrow> \<not> same_node r q"
  shows "exclusive d'"
  unfolding exclusive_def
proof (intro ballI impI)
  fix p q
  assume "p \<in> set (pending_op d')" "q \<in> set (pending_op d')"
    and c: "claimed p" "claimed q" "same_node p q"
  with rows consider "p = r" "q = r" | "p = r" "q \<in> set (pending_op d)" | "p \<in> set (pending_op d)" "q = r"
    | "p \<in> set (pending_op d)" "q \<in> set (pending_op d)"
    by blast
  then show "po_id p = po_id q"
  proof cases
    case 2
    with free c show ?thesis by blast
  next
    case 3
    with free c show ?thesis by (metis same_node_sym)
  next
    case 4
    with assms(1) c show ?thesis unfolding exclusive_def by blast
  qed simp
qed

lemma queue_inv_insert_guarded:
  assumes "queue_inv d" and "\<And>i. po_id (row i) = i"
    and free: "\<And>i q. q \<in> set (pending_op d) \<Longrightarrow> claimed q \<Longrightarrow> claimed (row i) \<Longrightarrow>
      \<not> same_node (fill_lids d (row i)) q"
  shows "queue_inv (snd (insert_op d row))"
proof -
  let ?r = "fill_lids d (row (pending_seq d + 1))"
  have r: "po_id ?r = pending_seq d + 1" "claimed ?r = claimed (row (pending_seq d + 1))"
    using assms(2) by (simp_all add: fill_lids_def claimed_def)
  have ids: "\<And>p. p \<in> set (pending_op d) \<Longrightarrow> po_id p \<le> pending_seq d"
    using assms(1) by (simp add: queue_inv_def wf_queue_def)
  have "sorted_wrt (<) (map po_id (pending_op d @ [?r]))"
    using assms(1) ids r(1) by (auto simp: queue_inv_def wf_queue_def sorted_wrt_append zle_add1_eq_le)
  moreover have "exclusive (d\<lparr>pending_op := pending_op d @ [?r], pending_seq := pending_seq d + 1\<rparr>)"
    using assms(1) free r(2) by - (rule exclusive_extend [of d _ ?r], auto simp: queue_inv_def)
  ultimately show ?thesis
    using ids r(1) by (fastforce simp: insert_op_pending [OF ids assms(2)] queue_inv_def wf_queue_def)
qed

lemma queue_inv_insert [queue_keeps]:
  "queue_inv d \<Longrightarrow> (\<And>i. po_id (row i) = i) \<Longrightarrow> (\<And>i. \<not> claimed (row i)) \<Longrightarrow> queue_inv (snd (insert_op d row))"
  by (rule queue_inv_insert_guarded) auto

lemma new_op_row_simps [simp]:
  "po_id (new_op_row i k u c) = i" "\<not> claimed (new_op_row i k u c)"
  by (simp_all add: new_op_row_def claimed_def)

section \<open>Claiming\<close>

lemma claimable_free:
  "claimable d p \<Longrightarrow> q \<in> set (pending_op d) \<Longrightarrow> claimed q \<Longrightarrow> \<not> same_node p q"
  by (auto simp: claimable_def same_node_def claimed_def)

lemma queue_inv_claim [queue_keeps]:
  assumes "queue_inv d"
  shows "queue_inv (snd (claim_next_due_op d now))"
proof (cases "find (\<lambda>p. due now p \<and> claimable d p) (pending_op d)")
  case None
  with assms show ?thesis by (simp add: claim_next_due_op_def)
next
  case (Some p)
  let ?f = "\<lambda>q. q\<lparr>po_claimed_at := max now 1\<rparr>"
  have p: "p \<in> set (pending_op d)" "claimable d p" using find_SomeD [OF Some] by auto
  have one: "q = p" if "q \<in> set (pending_op d)" "po_id q = po_id p" for q
    using assms that p(1) wf_queue_same [of d q p] by (simp add: queue_inv_def)
  have "set (update_where (\<lambda>q. po_id q = po_id p) ?f (pending_op d)) \<subseteq> insert (?f p) (set (pending_op d))"
    unfolding set_update_where using one by blast
  moreover have "\<not> same_node (?f p) q" if "q \<in> set (pending_op d)" "claimed q" for q
    using claimable_free [OF p(2) that] unfolding same_node_claimed .
  ultimately have "exclusive (d\<lparr>pending_op := update_where (\<lambda>q. po_id q = po_id p) ?f (pending_op d)\<rparr>)"
    using assms unfolding queue_inv_def by - (rule exclusive_extend [of d _ "?f p"], simp_all)
  moreover have "wf_queue (d\<lparr>pending_op := update_where (\<lambda>q. po_id q = po_id p) ?f (pending_op d)\<rparr>)"
    using assms by (simp add: queue_inv_def wf_queue_update)
  ultimately show ?thesis by (simp add: claim_next_due_op_def Some queue_inv_def)
qed

section \<open>Every method keeps the invariant\<close>

lemma quietI:
  "(\<And>p. po_id (f p) = po_id p \<and> po_uid (f p) = po_uid p \<and> po_lid (f p) = po_lid p \<and>
     (po_claimed_at (f p) = po_claimed_at p \<or> po_claimed_at (f p) = 0)) \<Longrightarrow> quiet f"
  by (force simp: quiet_def claimed_def)

lemma queue_inv_doomed [queue_keeps]: "queue_inv d \<Longrightarrow> queue_inv (snd (drop_doomed_ops d u))"
proof -
  assume "queue_inv d"
  moreover have "quiet (withdraw d)"
    by (rule quietI) (simp add: withdraw_def Let_def)
  ultimately have "queue_inv (withdraw_sent d u)"
    unfolding withdraw_sent_def by (rule queue_inv_update)
  then show ?thesis
    unfolding drop_doomed_ops_def delete_doomed_def snd_conv by (rule queue_inv_delete)
qed

lemma queue_inv_replaced [queue_keeps]: "queue_inv d \<Longrightarrow> queue_inv (snd (drop_replaced_rename d i))"
  by (simp add: drop_replaced_rename_def Let_def queue_inv_delete)

lemma queue_inv_release [queue_keeps]: "queue_inv d \<Longrightarrow> queue_inv (release_op_claim d i)"
  using queue_inv_replaced [of d i]
  by (auto simp: release_op_claim_def split: prod.splits intro!: queue_inv_update quietI)

lemma queue_inv_failure [queue_keeps]: "queue_inv d \<Longrightarrow> queue_inv (record_failure d i k e t)"
  using queue_inv_replaced [of d i]
  by (auto simp: record_failure_def split: prod.splits intro!: queue_inv_update quietI)

lemma queue_inv_wake [queue_keeps]: "queue_inv d \<Longrightarrow> queue_inv (wake_ops_waiting_for d name)"
  by (auto simp: wake_ops_waiting_for_def intro!: queue_inv_update quietI)

lemma queue_inv_enqueue [queue_keeps]: "queue_inv d \<Longrightarrow> queue_inv (snd (snd (enqueue_op d op)))"
  by (auto simp: enqueue_op_def Let_def claimed_def new_op_row_def case_prod_beta
      intro!: queue_inv_insert queue_inv_delete)

lemma queue_inv_trash [queue_keeps]: "queue_inv d \<Longrightarrow> queue_inv (snd (snd (replace_ops_with_trash d u n c)))"
  using queue_inv_doomed [of d u]
  by (auto simp: replace_ops_with_trash_def Let_def claimed_def new_op_row_def case_prod_beta
      intro!: queue_inv_insert)

lemma queue_inv_drop_node [queue_keeps]: "queue_inv (drop_node_row d u) = queue_inv d"
  by (rule queue_inv_cong) (simp_all add: drop_node_row_def Let_def)

lemma queue_inv_complete_trash [queue_keeps]: "queue_inv d \<Longrightarrow> queue_inv (snd (complete_trash_op d i u))"
  by (auto simp: complete_trash_op_def Let_def queue_inv_drop_node
      intro!: queue_inv_wake queue_inv_delete split: option.splits)

lemma queue_inv_touch:
  "queue_inv d \<Longrightarrow> (\<And>p. po_id (f p) = po_id p \<and> po_uid (f p) = po_uid p \<and> po_lid (f p) = po_lid p \<and>
     (po_claimed_at (f p) = po_claimed_at p \<or> po_claimed_at (f p) = 0)) \<Longrightarrow>
   queue_inv (d\<lparr>pending_op := update_where P f (pending_op d)\<rparr>)"
  by (rule queue_inv_update, assumption, rule quietI)

lemma queue_inv_small [queue_keeps]:
  assumes "queue_inv d"
  shows "queue_inv (snd (attach_blob_to_create d u blob meta))"
    and "queue_inv (note_create_sent d i sha)"
    and "queue_inv (note_create_target d i parent name at)"
    and "queue_inv (snd (update_op_meta d u k meta))"
    and "queue_inv (snd (update_op_meta_for_blob d i blob meta))"
    and "queue_inv (snd (rewrite_op_target d u parent name))"
    and "queue_inv (snd (set_create_hold d u held))"
    and "queue_inv (snd (delete_ops_for_uid d u))"
    and "queue_inv (snd (discard_ops_on_node d u))"
  using assms
  by (auto simp: attach_blob_to_create_def note_create_sent_def note_create_target_def
      update_op_meta_def update_op_meta_for_blob_def rewrite_op_target_def set_create_hold_def
      delete_ops_for_uid_def discard_ops_on_node_def Let_def split: option.splits
      intro!: queue_inv_touch queue_inv_delete queue_inv_doomed)

lemma queue_inv_drain [queue_keeps]:
  assumes "queue_inv d"
  shows "queue_inv (clear_op_claims d)"
    and "queue_inv (delete_op d i)"
    and "queue_inv (snd (retry_op_now d i now))"
    and "queue_inv (snd (retry_ops_now d now flt))"
    and "queue_inv (set_op_issue d i issue)"
    and "queue_inv (snd (retry_if_retargeted d i po nm bl))"
    and "queue_inv (defer_op_without_attempt d i next)"
    and "queue_inv (snd (defer_op_for_access d i now next))"
    and "queue_inv (clear_op_access_deferral d i)"
  using assms
  by (auto simp: clear_op_claims_def delete_op_def retry_op_now_def retry_ops_now_def set_op_issue_def
      retry_if_retargeted_def defer_op_without_attempt_def defer_op_for_access_def
      clear_op_access_deferral_def Let_def
      intro!: queue_inv_touch queue_inv_delete)

section \<open>A create that lands keeps the invariant\<close>

text \<open>
  The landed node is free when no other op is on the wire for it. Its uid is new on Drive, so a
  worker can only hold an op on it when the node came in by an event first and was changed here
  under its real uid before the create that made it retired.
\<close>

definition landing_free :: "db \<Rightarrow> op_id \<Rightarrow> uid \<Rightarrow> bool" where
  "landing_free d i real = (local_lid real = None \<and>
     (\<forall>q \<in> set (pending_op d). claimed q \<longrightarrow>
        (po_id q \<noteq> i \<longrightarrow> po_uid q \<noteq> real) \<and>
        (po_lid q = None \<or> po_lid q \<noteq> map_option nr_lid (row_by_uid d real))))"

lemma exclusive_update_claims:
  assumes "exclusive d"
    and f: "\<And>p. p \<in> set (pending_op d) \<Longrightarrow> P p \<Longrightarrow> claimed (f p) \<Longrightarrow>
      claimed p \<and> po_id (f p) = po_id p \<and> po_uid (f p) = po_uid p \<and> po_lid (f p) = po_lid p"
  shows "exclusive (d\<lparr>pending_op := update_where P f (pending_op d)\<rparr>)"
proof -
  have "\<exists>p \<in> set (pending_op d). po_id p = po_id p' \<and> po_uid p = po_uid p' \<and> po_lid p = po_lid p' \<and> claimed p"
    if "p' \<in> set (update_where P f (pending_op d))" "claimed p'" for p'
    using that f by (fastforce simp: set_update_where)
  with assms(1) show ?thesis
    unfolding exclusive_def same_node_def by simp (metis (no_types, lifting))
qed

text \<open>The create's own row takes the uid of the landed node.\<close>

lemma queue_inv_rename_uid:
  assumes inv: "queue_inv d" and free: "landing_free d i real"
    and f: "\<And>p. po_id (f p) = po_id p \<and> po_uid (f p) = real \<and> po_lid (f p) = po_lid p \<and>
      po_claimed_at (f p) = po_claimed_at p"
    and P: "\<And>p. P p \<Longrightarrow> po_id p = i"
  shows "queue_inv (d\<lparr>pending_op := update_where P f (pending_op d)\<rparr>)"
proof (cases "\<exists>p \<in> set (pending_op d). P p")
  case False
  then have "update_where P f (pending_op d) = pending_op d"
    by (auto simp: update_where_def intro: map_idI)
  with inv show ?thesis by simp
next
  case True
  then obtain p where p: "p \<in> set (pending_op d)" "P p" by blast
  let ?d = "d\<lparr>pending_op := delete_where (\<lambda>q. po_id q = i) (pending_op d)\<rparr>"
  have wf: "wf_queue d" and ex: "exclusive d" using inv by (simp_all add: queue_inv_def)
  have one: "q = p" if "q \<in> set (pending_op d)" "po_id q = i" for q
    using wf_queue_same [OF wf that(1) p(1)] that(2) P [OF p(2)] by simp
  have "set (update_where P f (pending_op d)) \<subseteq> insert (f p) (set (pending_op ?d))"
  proof
    fix x
    assume "x \<in> set (update_where P f (pending_op d))"
    then consider q where "q \<in> set (pending_op d)" "P q" "x = f q" | "x \<in> set (pending_op d)" "\<not> P x"
      unfolding set_update_where by blast
    then show "x \<in> insert (f p) (set (pending_op ?d))"
    proof cases
      case 1
      with one P have "q = p" by blast
      with 1 show ?thesis by simp
    next
      case 2
      with one p(2) have "po_id x \<noteq> i" by blast
      with 2 show ?thesis by simp
    qed
  qed
  moreover have "\<not> same_node (f p) q"
    if q: "q \<in> set (pending_op ?d)" "claimed q" and c: "claimed (f p)" for q
  proof
    assume "same_node (f p) q"
    moreover have "po_uid q \<noteq> real"
      using free q by (auto simp: landing_free_def)
    ultimately have "same_node p q"
      using f [of p] by (metis same_node_def)
    moreover have "claimed p" using c f [of p] by (simp add: claimed_def)
    ultimately have "po_id p = po_id q"
      using ex p(1) q unfolding exclusive_def by simp
    with P [OF p(2)] q(1) show False by simp
  qed
  ultimately have "exclusive (d\<lparr>pending_op := update_where P f (pending_op d)\<rparr>)"
    by - (rule exclusive_extend [OF exclusive_delete [OF ex], of _ "f p"], simp_all)
  then show ?thesis using wf f by (simp add: queue_inv_def wf_queue_update)
qed

text \<open>No worker holds an op filed under a local id.\<close>

definition lid_free :: "lid option \<Rightarrow> db \<Rightarrow> bool" where
  "lid_free l d = (\<forall>q \<in> set (pending_op d). claimed q \<longrightarrow> po_lid q = None \<or> po_lid q \<noteq> l)"

lemma landing_free_lid: "landing_free d i real \<Longrightarrow> lid_free (map_option nr_lid (row_by_uid d real)) d"
  by (simp add: landing_free_def lid_free_def)

lemma lid_free_retire: "lid_free l d \<Longrightarrow> lid_free l (retire_create_row d i real newer)"
  by (auto simp: lid_free_def retire_create_row_def set_update_where claimed_def split: option.splits)

lemma wf_queue_ids: "queue_inv d \<Longrightarrow> p \<in> set (pending_op d) \<Longrightarrow> po_id p \<le> pending_seq d"
  by (simp add: queue_inv_def wf_queue_def)

lemma lid_free_delete: "lid_free l d \<Longrightarrow> lid_free l (d\<lparr>pending_op := delete_where P (pending_op d)\<rparr>)"
  by (simp add: lid_free_def)

lemma lid_free_insert:
  assumes "queue_inv d" and "lid_free l d" and "\<And>i. po_id (row i) = i" and "\<And>i. \<not> claimed (row i)"
  shows "lid_free l (snd (insert_op d row))"
proof -
  have "\<not> claimed (fill_lids d (row i))" for i
    using assms(4) by (simp add: claimed_def fill_lids_def)
  with assms(2) show ?thesis
    by (auto simp: insert_op_pending [OF wf_queue_ids [OF assms(1)] assms(3)] lid_free_def)
qed

lemma lid_free_move:
  "queue_inv d \<Longrightarrow> lid_free l d \<Longrightarrow> lid_free l (queue_move_of_landed d cl parent name created)"
  by (auto simp: queue_move_of_landed_def Let_def claimed_def new_op_row_def split: option.splits
      intro!: lid_free_insert lid_free_delete queue_inv_delete)

lemma queue_inv_retire:
  "queue_inv d \<Longrightarrow> landing_free d i real \<Longrightarrow> queue_inv (retire_create_row d i real newer)"
  by (auto simp: retire_create_row_def split: option.splits
      intro!: queue_inv_delete queue_inv_rename_uid)

lemma queue_inv_move [queue_keeps]: "queue_inv d \<Longrightarrow> queue_inv (queue_move_of_landed d cl parent name created)"
  by (auto simp: queue_move_of_landed_def Let_def claimed_def new_op_row_def split: option.splits
      intro!: queue_inv_insert queue_inv_delete)

lemma queue_inv_relid:
  assumes "queue_inv d" and "lid_free (Some known) d"
  shows "queue_inv (d\<lparr>pending_op :=
    update_where (\<lambda>p. po_lid p = Some known) (\<lambda>p. p\<lparr>po_lid := Some l\<rparr>) (pending_op d)\<rparr>)"
proof -
  have "exclusive (d\<lparr>pending_op :=
      update_where (\<lambda>p. po_lid p = Some known) (\<lambda>p. p\<lparr>po_lid := Some l\<rparr>) (pending_op d)\<rparr>)"
    using assms by (intro exclusive_update_claims) (auto simp: queue_inv_def lid_free_def claimed_def)
  with assms(1) show ?thesis by (simp add: queue_inv_def wf_queue_update)
qed

lemma queue_inv_adopt:
  assumes inv: "queue_inv d" and free: "lid_free (map_option nr_lid (row_by_uid d real)) d"
    and "adopt_placeholder_row_tx d u real = Some d'"
  shows "queue_inv d'"
proof -
  let ?d = "d\<lparr>pins := adopt_pins (pins d) u real,
      pending_op := update_where (\<lambda>p. po_parent_lid p = None \<and> po_parent_uid p = Some u)
        (\<lambda>p. p\<lparr>po_parent_uid := Some real\<rparr>) (pending_op d)\<rparr>"
  have inv1: "queue_inv (d\<lparr>pending_op := pending_op ?d\<rparr>)"
    using inv by (auto intro!: queue_inv_touch)
  have free1: "lid_free (map_option nr_lid (row_by_uid d real)) (d\<lparr>pending_op := pending_op ?d\<rparr>)"
    using free by (auto simp: lid_free_def set_update_where claimed_def)
  have absorbed: "queue_inv (absorb_known_row ?d (nr_lid k) l)" if "row_by_uid d real = Some k" for k l
  proof -
    let ?m = "update_where (\<lambda>p. po_lid p = Some (nr_lid k)) (\<lambda>p. p\<lparr>po_lid := Some l\<rparr>) (pending_op ?d)"
    have "queue_inv (d\<lparr>pending_op := ?m\<rparr>)"
      using queue_inv_relid [OF inv1, of "nr_lid k" l] free1 that by simp
    then have "queue_inv (d\<lparr>pending_op := update_where (\<lambda>p. po_parent_lid p = Some (nr_lid k))
        (\<lambda>p. p\<lparr>po_parent_lid := Some l\<rparr>) ?m\<rparr>)"
      using queue_inv_touch [of "d\<lparr>pending_op := ?m\<rparr>" "\<lambda>p. p\<lparr>po_parent_lid := Some l\<rparr>"] by simp
    then show ?thesis
      by (rule iffD1 [OF queue_inv_cong, rotated 2]) (simp_all add: absorb_known_row_def)
  qed
  have "queue_inv ?d" using inv1 by (rule iffD1 [OF queue_inv_cong, rotated 2]) simp_all
  then have rows: "queue_inv (case row_by_uid d real of None \<Rightarrow> ?d | Some k \<Rightarrow> absorb_known_row ?d (nr_lid k) l)" for l
    using absorbed by (simp split: option.split)
  have "pending_op d' = pending_op ?d \<and> pending_seq d' = pending_seq ?d \<or>
    (\<exists>l. let e = (case row_by_uid d real of None \<Rightarrow> ?d | Some k \<Rightarrow> absorb_known_row ?d (nr_lid k) l)
         in pending_op d' = pending_op e \<and> pending_seq d' = pending_seq e)"
    (is "_ \<or> ?absorbed")
  proof (cases "row_by_uid d u")
    case None
    with assms(3) show ?thesis by (auto simp: adopt_placeholder_row_tx_def)
  next
    case (Some row)
    let ?e = "case row_by_uid d real of None \<Rightarrow> ?d | Some k \<Rightarrow> absorb_known_row ?d (nr_lid k) (nr_lid row)"
    have "pending_op d' = pending_op ?e \<and> pending_seq d' = pending_seq ?e"
      using assms(3) Some unfolding adopt_placeholder_row_tx_def Let_def
      by (cases "Option.bind (row_by_uid d real) nr_node_json"; cases "nr_node_json row";
          cases "parse_node_uid real") (auto dest!: upsert_node_tx_queue)
    then show ?thesis unfolding Let_def by blast
  qed
  with rows \<open>queue_inv ?d\<close> show ?thesis
    unfolding Let_def by (metis (no_types, lifting) queue_inv_cong)
qed

lemma row_by_uid_insert_op [simp]: "row_by_uid (snd (insert_op d row)) = row_by_uid d"
  by (simp add: insert_op_def Let_def fill_op_lids_def)

lemma row_by_uid_retire_move [simp]:
  "row_by_uid (queue_move_of_landed (retire_create_row d i real newer) cl parent name created) = row_by_uid d"
  by (simp add: queue_move_of_landed_def retire_create_row_def Let_def split: option.splits)

lemma queue_inv_finish_create:
  assumes inv: "queue_inv d" and free: "landing_free d i (cl_real l)"
    and fin: "finish_create d i uploaded l rewrite now = Some (r, d')"
  shows "queue_inv d'"
proof -
  let ?trash = "\<lambda>p. po_id p = i \<and> po_kind p = OP_TRASH"
  let ?row = "find (\<lambda>p. po_id p = i \<and> po_kind p \<noteq> OP_TRASH) (pending_op d)"
  consider (trash) "matches ?trash (pending_op d)"
    | (gone) "\<not> matches ?trash (pending_op d)" "?row = None"
    | (row) p where "\<not> matches ?trash (pending_op d)" "?row = Some p"
    by (cases ?row) auto
  then show ?thesis
  proof cases
    case trash
    with fin have "d' = d\<lparr>pending_op := update_where ?trash
        (\<lambda>p. p\<lparr>po_uid := cl_real l, po_name := Some (snd (cl_landed l))\<rparr>) (pending_op d)\<rparr>"
      by (simp add: finish_create_def Let_def del: matches_iff)
    then show ?thesis by (auto intro!: queue_inv_rename_uid [OF inv free])
  next
    case gone
    let ?new = "\<lambda>t. (new_op_row t OP_TRASH (cl_real l) now)
        \<lparr>po_name := Some (snd (cl_landed l)), po_claimed_at := now\<rparr>"
    have "\<not> same_node (fill_lids d (?new t)) q" if "q \<in> set (pending_op d)" "claimed q" for q t
    proof -
      have "po_id q \<noteq> i" using gone that by (auto simp: find_None_iff)
      with free that show ?thesis
        by (auto simp: landing_free_def same_node_def fill_lids_def new_op_row_def node_lid_def)
    qed
    then have "queue_inv (snd (insert_op d ?new))"
      by (intro queue_inv_insert_guarded [OF inv]) (simp_all add: new_op_row_def)
    with gone fin show ?thesis
      by (simp add: finish_create_def Let_def case_prod_beta del: matches_iff)
  next
    case (row p)
    let ?d1 = "retire_create_row d i (cl_real l) (newer_write p uploaded rewrite)"
    let ?d2 = "queue_move_of_landed ?d1 l (parent_now d p) (po_name p) (po_created_at p)"
    have "queue_inv ?d1" using inv free by (rule queue_inv_retire)
    then have "queue_inv ?d2" "lid_free (map_option nr_lid (row_by_uid ?d2 (cl_real l))) ?d2"
      using lid_free_move [OF _ lid_free_retire [OF landing_free_lid [OF free]]]
      by (simp_all add: queue_inv_move)
    moreover have "adopt_placeholder_row_tx ?d2 (cl_local l) (cl_real l) = Some d'"
      using row fin by (auto simp: finish_create_def Let_def simp del: matches_iff)
    ultimately show ?thesis by (rule queue_inv_adopt)
  qed
qed

section \<open>The queue as a state machine\<close>

text \<open>
  One step is one method of \<open>Db\<close>; the daemon serialises them under the connection's mutex, so
  any interleaving of the filesystem's threads and the drain's workers is a sequence of these.
  Opening the database starts with an empty queue or takes over one a previous run left; that run's
  claims are cleared first (\<open>clear_op_claims\<close>).
\<close>

inductive queue_step :: "db \<Rightarrow> db \<Rightarrow> bool" where
  q_enqueue: "queue_step d (snd (snd (enqueue_op d op)))"
| q_trash: "queue_step d (snd (snd (replace_ops_with_trash d u name created)))"
| q_attach: "queue_step d (snd (attach_blob_to_create d u blob meta))"
| q_finish: "landing_free d i (cl_real l) \<Longrightarrow>
    finish_create d i uploaded l rewrite now = Some (r, d') \<Longrightarrow> queue_step d d'"
| q_note_sent: "queue_step d (note_create_sent d i sha)"
| q_note_target: "queue_step d (note_create_target d i parent name at)"
| q_meta: "queue_step d (snd (update_op_meta d u k meta))"
| q_meta_blob: "queue_step d (snd (update_op_meta_for_blob d i blob meta))"
| q_rewrite: "queue_step d (snd (rewrite_op_target d u parent name))"
| q_hold: "queue_step d (snd (set_create_hold d u held))"
| q_delete_uid: "queue_step d (snd (delete_ops_for_uid d u))"
| q_discard: "queue_step d (snd (discard_ops_on_node d u))"
| q_claim: "queue_step d (snd (claim_next_due_op d now))"
| q_release: "queue_step d (release_op_claim d i)"
| q_clear: "queue_step d (clear_op_claims d)"
| q_delete: "queue_step d (delete_op d i)"
| q_retry: "queue_step d (snd (retry_op_now d i now))"
| q_retry_all: "queue_step d (snd (retry_ops_now d now flt))"
| q_fail: "queue_step d (record_op_failure d i err next)"
| q_attempt_fail: "queue_step d (record_attempt_failure d i k err next)"
| q_issue: "queue_step d (set_op_issue d i issue)"
| q_retarget: "queue_step d (snd (retry_if_retargeted d i po nm bl))"
| q_defer: "queue_step d (defer_op_without_attempt d i next)"
| q_defer_access: "queue_step d (snd (defer_op_for_access d i now next))"
| q_clear_access: "queue_step d (clear_op_access_deferral d i)"
| q_complete_trash: "queue_step d (snd (complete_trash_op d i u))"
| q_upsert: "upsert_nodes d ns = Some d' \<Longrightarrow> queue_step d d'"
| q_sealed: "queue_step d (set_own_sealed_rev d u rv now)"
| q_unsealed: "queue_step d (clear_own_sealed_rev d u)"

lemma upsert_nodes_queue:
  "upsert_nodes d ns = Some d' \<Longrightarrow> pending_op d' = pending_op d \<and> pending_seq d' = pending_seq d"
proof (induction ns arbitrary: d)
  case (Cons n ns)
  then obtain e where "upsert_node_tx d n = Some e" "upsert_nodes e ns = Some d'"
    by (auto simp: bind_eq_Some_conv)
  with Cons.IH upsert_node_tx_queue show ?case by fastforce
qed simp

lemma queue_inv_sealed [queue_keeps]:
  "queue_inv (set_own_sealed_rev d u rv now) = queue_inv d" "queue_inv (clear_own_sealed_rev d u) = queue_inv d"
  by (rule queue_inv_cong; simp add: set_own_sealed_rev_def clear_own_sealed_rev_def Let_def)+

lemma queue_step_inv: "queue_step d d' \<Longrightarrow> queue_inv d \<Longrightarrow> queue_inv d'"
proof (induction rule: queue_step.induct)
  case (q_finish d i l uploaded rewrite now r d')
  then show ?case using queue_inv_finish_create by blast
next
  case (q_upsert d ns d')
  then show ?case using queue_inv_cong upsert_nodes_queue by blast
qed (simp_all add: queue_keeps record_op_failure_def record_attempt_failure_def)

definition queue_init :: "db \<Rightarrow> bool" where
  "queue_init d = (pending_op d = [])"

interpretation queue: inv_system queue_init queue_step queue_inv
proof unfold_locales
  show "queue_inv d" if "queue_init d" for d
    using that by (simp add: queue_init_def queue_inv_def wf_queue_def exclusive_def)
qed (rule queue_step_inv)

section \<open>What removing a folder reaches\<close>

interpretation below: finite_cte "below_step d" "(\<lambda>n. (nr_uid n, Some (nr_lid n))) ` set (nodes d)" for d
  by unfold_locales (auto simp: below_step_def)

interpretation queued: finite_cte "queued_step d" "(\<lambda>p. (po_uid p, po_lid p)) ` set (pending_op d)" for d
  by unfold_locales (auto simp: queued_step_def)

lemma card_image_length: "card (f ` set xs) \<le> Suc (length xs)"
  using card_image_le [of "set xs" f] card_length [of xs] by (simp add: le_SucI)

lemma below_reach: "set (below d u) = (step_rel (below_step d))\<^sup>* `` {(u, node_lid d u)}"
  unfolding below_def by (subst below.cte_union_reaches) (simp_all add: card_image_length)

lemma queued_reach:
  "set (queued d u) = (step_rel (queued_step d))\<^sup>* ``
     insert (u, node_lid d u) ((\<lambda>p. (po_uid p, po_lid p)) ` {p \<in> set (pending_op d). made_below d u p})"
  unfolding queued_def by (subst queued.cte_union_reaches) (simp_all add: card_image_length)

end
