(* ===== verification/Queue_Spec.thy ===== *)
theory Queue_Spec
  imports Queue
begin

text \<open>
  The properties of the mutation queue: exclusivity of claims over every sequence of methods, what
  a claim returns and when it returns nothing, that a later end state replaces an earlier one, that
  staged blobs are accounted for, and that a create that lands loses neither a newer write nor a move.
\<close>

section \<open>Inputs for the witnesses\<close>

definition view_of :: "op_kind \<Rightarrow> uid \<Rightarrow> string option \<Rightarrow> millis \<Rightarrow> pending_op_view" where
  "view_of k u blob t = \<lparr>v_id = 0, v_kind = k, v_uid = u, v_parent_uid = None, v_name = Some ''n'',
     v_blob_path = blob, v_meta_json = Some (OtherMeta ''m''), v_created_at = t, v_attempts = 0,
     v_last_error = None, v_next_attempt_at = 0\<rparr>"

lemma view_of_simps [simp]:
  "v_kind (view_of k u b t) = k" "v_uid (view_of k u b t) = u" "v_blob_path (view_of k u b t) = b"
  "v_name (view_of k u b t) = Some ''n''" "v_parent_uid (view_of k u b t) = None"
  by (simp_all add: view_of_def)

definition one_op :: db where
  "one_op = snd (snd (enqueue_op empty_db (view_of OP_REVISION ''v~a'' (Some ''b1'') 5)))"

lemma pending_one_op: "pending_op one_op = [(new_op_row 1 OP_REVISION ''v~a'' 5)\<lparr>po_name := Some ''n'',
    po_blob_path := Some ''b1'', po_meta_json := Some (OtherMeta ''m'')\<rparr>]"
  and pending_seq_one_op: "pending_seq one_op = 1"
  and nodes_one_op: "nodes one_op = []"
  by (simp_all add: one_op_def enqueue_op_def view_of_def empty_db_def insert_op_def fill_op_lids_def
      fill_lids_def new_op_row_def delete_where_def update_where_def Let_def node_lid_def row_by_uid_def
      row_by_lid_def split: option.splits)

lemma queue_inv_empty: "queue_inv empty_db"
  by (simp add: empty_db_def queue_inv_def wf_queue_def exclusive_def)

lemma queue_inv_one_op: "queue_inv one_op"
  unfolding one_op_def by (rule queue_inv_enqueue [OF queue_inv_empty])

section \<open>One worker per node\<close>


definition two_ops :: db where
  "two_ops = snd (snd (enqueue_op one_op (view_of OP_RENAME ''v~a'' None 6)))"


section \<open>What a claim takes\<close>

text \<open>C2. A claim returns the oldest op that is due and free, marks that row and no other, and
  returns nothing exactly when no op is both due and free.\<close>

theorem claim_takes_oldest_due:
  assumes "queue_inv d"
  shows "case claim_next_due_op d now of
      (None, d') \<Rightarrow> d' = d \<and> (\<forall>p \<in> set (pending_op d). \<not> (po_next_attempt_at p \<le> now \<and> claimable d p))
    | (Some v, d') \<Rightarrow> (\<exists>p \<in> set (pending_op d). v = view_op d p \<and> po_next_attempt_at p \<le> now \<and> claimable d p \<and>
        (\<forall>q \<in> set (pending_op d). po_next_attempt_at q \<le> now \<and> claimable d q \<longrightarrow> po_id p \<le> po_id q) \<and>
        set (pending_op d') = insert (p\<lparr>po_claimed_at := max now 1\<rparr>) (set (pending_op d) - {p}))"
proof (cases "find (\<lambda>p. due now p \<and> claimable d p) (pending_op d)")
  case None
  then have "\<forall>p \<in> set (pending_op d). \<not> (po_next_attempt_at p \<le> now \<and> claimable d p)"
    by (auto simp: find_None_iff due_def)
  with None show ?thesis by (simp add: claim_next_due_op_def)
next
  case (Some p)
  have wf: "wf_queue d" using assms by (simp add: queue_inv_def)
  have p: "p \<in> set (pending_op d)" "due now p" "claimable d p" using find_SomeD [OF Some] by auto
  have least: "\<forall>q \<in> set (pending_op d). due now q \<and> claimable d q \<longrightarrow> po_id p \<le> po_id q"
    using find_min_key [OF _ Some, of po_id] wf by (simp add: wf_queue_def)
  have one: "{q \<in> set (pending_op d). po_id q = po_id p} = {p}"
    "{q \<in> set (pending_op d). po_id q \<noteq> po_id p} = set (pending_op d) - {p}"
    using p(1) wf_queue_same [OF wf _ p(1)] by blast+
  have "set (update_where (\<lambda>q. po_id q = po_id p) (\<lambda>q. q\<lparr>po_claimed_at := max now 1\<rparr>) (pending_op d)) =
      insert (p\<lparr>po_claimed_at := max now 1\<rparr>) (set (pending_op d) - {p})"
    unfolding set_update_where one by simp
  with p least have "\<exists>p' \<in> set (pending_op d). view_op d p = view_op d p' \<and> po_next_attempt_at p' \<le> now \<and>
      claimable d p' \<and>
      (\<forall>q \<in> set (pending_op d). po_next_attempt_at q \<le> now \<and> claimable d q \<longrightarrow> po_id p' \<le> po_id q) \<and>
      set (update_where (\<lambda>q. po_id q = po_id p) (\<lambda>q. q\<lparr>po_claimed_at := max now 1\<rparr>) (pending_op d)) =
      insert (p'\<lparr>po_claimed_at := max now 1\<rparr>) (set (pending_op d) - {p'})"
    unfolding due_def by blast
  then show ?thesis by (simp add: claim_next_due_op_def Some)
qed

theorem claim_takes_oldest_due_witness:
  "case claim_next_due_op one_op 9 of (None, d') \<Rightarrow> False | (Some v, d') \<Rightarrow> v_uid v = ''v~a''"
proof -
  have "claimable one_op (hd (pending_op one_op))" "po_next_attempt_at (hd (pending_op one_op)) \<le> 9"
    by (simp_all add: pending_one_op claimable_def new_op_row_def parent_landed_def)
  with claim_takes_oldest_due [OF queue_inv_one_op, of 9] show ?thesis
    by (auto simp: pending_one_op new_op_row_def view_op_def uid_now_def split: prod.splits option.splits)
qed

text \<open>An op can be claimed at a moment exactly when the earliest due time has come.\<close>

lemma earliest_due_agrees_with_claim:
  "fst (claim_next_due_op d now) \<noteq> None \<longleftrightarrow>
   (case earliest_due_at d of None \<Rightarrow> False | Some t \<Rightarrow> t \<le> now)"
proof (cases "filter (claimable d) (pending_op d) = []")
  case True
  then have "find (\<lambda>p. due now p \<and> claimable d p) (pending_op d) = None"
    by (auto simp: find_None_iff filter_empty_conv)
  with True show ?thesis by (simp add: claim_next_due_op_def earliest_due_at_def)
next
  case False
  let ?ts = "po_next_attempt_at ` {p \<in> set (pending_op d). claimable d p}"
  have "finite ?ts" "?ts \<noteq> {}" using False by (auto simp: filter_empty_conv)
  then have "Min ?ts \<le> now \<longleftrightarrow> (\<exists>p \<in> set (pending_op d). claimable d p \<and> due now p)"
    by (auto simp: Min_le_iff due_def)
  moreover have "fst (claim_next_due_op d now) \<noteq> None \<longleftrightarrow>
      (\<exists>p \<in> set (pending_op d). due now p \<and> claimable d p)"
    by (auto simp: claim_next_due_op_def find_None_iff split: option.split dest: find_SomeD)
  ultimately show ?thesis using False by (auto simp: earliest_due_at_def)
qed

section \<open>A later end state replaces an earlier one\<close>

lemma enqueue_op_rows:
  assumes "queue_inv d" and "enqueue_op d op = (i, blob, d')"
  defines "same \<equiv> superseded_by d (v_uid op) (v_kind op)"
  shows "\<exists>r. po_id r = i \<and> po_kind r = v_kind op \<and> po_uid r = v_uid op \<and> po_claimed_at r = 0 \<and>
      po_blob_path r = v_blob_path op \<and> po_parent_uid r = v_parent_uid op \<and> po_name r = v_name op \<and>
      pending_op d' = (if op_supersedes (v_kind op) then delete_where same (pending_op d) else pending_op d) @ [r]"
    and "blob = (if op_supersedes (v_kind op) then Option.bind (find same (pending_op d)) po_blob_path else None)"
    and "nodes d' = nodes d"
proof -
  let ?d = "if op_supersedes (v_kind op) then d\<lparr>pending_op := delete_where same (pending_op d)\<rparr> else d"
  let ?row = "\<lambda>i. (new_op_row i (v_kind op) (v_uid op) (v_created_at op))
             \<lparr>po_parent_uid := v_parent_uid op, po_name := v_name op, po_blob_path := v_blob_path op,
              po_meta_json := v_meta_json op, po_next_attempt_at := v_next_attempt_at op\<rparr>"
  have ids: "\<And>p. p \<in> set (pending_op ?d) \<Longrightarrow> po_id p \<le> pending_seq ?d"
    using wf_queue_ids [OF assms(1)] by (cases "op_supersedes (v_kind op)") simp_all
  have row: "\<And>i. po_id (?row i) = i" by simp
  have ins: "insert_op ?d ?row = (pending_seq ?d + 1,
     ?d\<lparr>pending_op := pending_op ?d @ [fill_lids ?d (?row (pending_seq ?d + 1))], pending_seq := pending_seq ?d + 1\<rparr>)"
    by (rule insert_op_pending [OF ids row])
  have enq: "enqueue_op d op = (fst (insert_op ?d ?row), (if op_supersedes (v_kind op)
      then Option.bind (find same (pending_op d)) po_blob_path else None), snd (insert_op ?d ?row))"
    by (simp add: enqueue_op_def Let_def same_def case_prod_beta)
  have res: "i = pending_seq ?d + 1" "d' = ?d\<lparr>pending_op := pending_op ?d @ [fill_lids ?d (?row (pending_seq ?d + 1))],
       pending_seq := pending_seq ?d + 1\<rparr>"
    "blob = (if op_supersedes (v_kind op) then Option.bind (find same (pending_op d)) po_blob_path else None)"
    using assms(2) unfolding enq ins by (auto simp only: prod.inject fst_conv snd_conv)
  show "\<exists>r. po_id r = i \<and> po_kind r = v_kind op \<and> po_uid r = v_uid op \<and> po_claimed_at r = 0 \<and>
      po_blob_path r = v_blob_path op \<and> po_parent_uid r = v_parent_uid op \<and> po_name r = v_name op \<and>
      pending_op d' = (if op_supersedes (v_kind op) then delete_where same (pending_op d) else pending_op d) @ [r]"
    unfolding res(1,2)
    by (intro exI [of _ "fill_lids ?d (?row (pending_seq ?d + 1))"]) (simp add: fill_lids_def new_op_row_def)
  show "blob = (if op_supersedes (v_kind op) then Option.bind (find same (pending_op d)) po_blob_path else None)"
    by (rule res(3))
  show "nodes d' = nodes d" unfolding res(2) by simp
qed

lemma node_lid_nodes: "nodes d' = nodes d \<Longrightarrow> node_lid d' = node_lid d"
  unfolding node_lid_def [abs_def] row_by_lid_def row_by_uid_def by (simp only:)

lemma on_node_nodes: "nodes d' = nodes d \<Longrightarrow> on_node d' = on_node d"
  unfolding on_node_def [abs_def] by (simp only: node_lid_nodes [of d' d])

lemma superseded_by_nodes: "nodes d' = nodes d \<Longrightarrow> superseded_by d' = superseded_by d"
  unfolding superseded_by_def [abs_def] by (simp only: on_node_nodes [of d' d])

lemma superseded_by_alt:
  "superseded_by d u k = (\<lambda>p. on_node d u p \<and> po_kind p = k \<and> (po_kind p = OP_RENAME \<longrightarrow> po_claimed_at p = 0))"
  by (auto simp: superseded_by_def fun_eq_iff)



section \<open>Removing a folder accounts for every staged blob\<close>

text \<open>Every op is filed under the row its uid names, and creates are of stand-ins.\<close>

definition filed :: "db \<Rightarrow> bool" where
  "filed d = (wf_nodes d \<and>
     (\<forall>p \<in> set (pending_op d). po_lid p = node_lid d (po_uid p) \<and> (makes_node (po_kind p) \<longrightarrow> like_local (po_uid p))))"

lemma row_by_uid_unique:
  assumes "wf_nodes d" and "r \<in> set (nodes d)"
  shows "row_by_uid d (nr_uid r) = Some r"
proof (cases "row_by_uid d (nr_uid r)")
  case None
  with assms(2) show ?thesis by (auto simp: row_by_uid_def find_None_iff)
next
  case (Some s)
  then have "s \<in> set (nodes d)" "nr_uid s = nr_uid r" by (auto dest: row_by_uid_Some)
  with assms have "s = r" by (auto simp: wf_nodes_def distinct_map inj_on_def)
  with Some show ?thesis by simp
qed

lemma below_pending: "nodes d' = nodes d \<Longrightarrow> below d' u = below d u"
  unfolding below_def below_step_def by (simp only: node_lid_nodes [of d' d])

lemma nodes_withdraw_sent [simp]: "nodes (withdraw_sent d u) = nodes d"
  by (simp add: withdraw_sent_def)

lemma made_below_withdraw_sent: "made_below (withdraw_sent d u) v = made_below d v"
  unfolding made_below_def [abs_def] by (simp only: below_pending [OF nodes_withdraw_sent])

lemma withdraw_sent_rowE:
  assumes "p' \<in> set (pending_op (withdraw_sent d u))"
  obtains (kept) "p' \<in> set (pending_op d)"
    | (withdrawn) p where "p \<in> set (pending_op d)" "doomed d u p" "sent p" "p' = withdraw d p"
  using assms by (auto simp: withdraw_sent_def set_update_where)

lemma withdraw_keeps [simp]:
  "po_uid (withdraw d p) = po_uid p" "po_lid (withdraw d p) = po_lid p" "po_kind (withdraw d p) = OP_TRASH"
  "po_blob_path (withdraw d p) = po_blob_path p" "po_id (withdraw d p) = po_id p"
  by (simp_all add: withdraw_def Let_def)

lemma queued_place:
  assumes "filed d" and "(v, l) \<in> set (queued d u)"
  shows "l = node_lid d v"
proof -
  from assms(2) obtain x where "x \<in> insert (u, node_lid d u)
      ((\<lambda>p. (po_uid p, po_lid p)) ` {p \<in> set (pending_op d). made_below d u p})"
    "(x, v, l) \<in> (step_rel (queued_step d))\<^sup>*"
    unfolding queued_reach by blast
  with assms(1) show ?thesis
    by (auto simp: step_rel_def queued_step_def filed_def elim!: rtranclE)
qed

text \<open>A withdrawn create is reached from a place of the queue only where the create was.\<close>

lemma withdrawn_step:
  assumes d: "filed d" and p: "p \<in> set (pending_op d)" and l: "l = node_lid d v"
    and hit: "(l \<noteq> None \<and> po_parent_lid (withdraw d p) = l) \<or> po_parent_uid (withdraw d p) = Some v"
  shows "(l \<noteq> None \<and> po_parent_lid p = l) \<or> po_parent_uid p = Some v"
  using hit
proof
  assume "l \<noteq> None \<and> po_parent_lid (withdraw d p) = l"
  then show ?thesis by (auto simp: withdraw_def Let_def split: if_splits option.splits)
next
  assume "po_parent_uid (withdraw d p) = Some v"
  then have now: "parent_now d p = Some v" "\<not> like_local v"
    by (auto simp: withdraw_def Let_def split: if_splits option.splits)
  show ?thesis
  proof (cases "Option.bind (po_parent_lid p) (row_by_lid d)")
    case None
    with now(1) show ?thesis by (simp add: parent_now_def)
  next
    case (Some r)
    then obtain m where m: "po_parent_lid p = Some m" "row_by_lid d m = Some r"
      by (auto simp: bind_eq_Some_conv)
    with Some now(1) have "nr_uid r = v" by (simp add: parent_now_def)
    moreover have "local_lid v = None"
      using now(2) has_local_prefix_like local_lid_has_prefix by (cases "local_lid v") auto
    ultimately have "node_lid d v = Some m"
      using m(2) d row_by_uid_unique [of d r] by (auto simp: node_lid_def filed_def dest: row_by_lid_Some)
    with m l show ?thesis by simp
  qed
qed

lemma queued_withdraw_sent:
  assumes "filed d"
  shows "set (queued (withdraw_sent d u) u) \<subseteq> set (queued d u)"
proof -
  let ?e = "withdraw_sent d u"
  have init: "insert (u, node_lid ?e u)
      ((\<lambda>p. (po_uid p, po_lid p)) ` {p \<in> set (pending_op ?e). made_below ?e u p}) \<subseteq> set (queued d u)"
    unfolding queued_reach node_lid_nodes [OF nodes_withdraw_sent] made_below_withdraw_sent
    by (auto simp: made_below_def makes_node_def elim!: withdraw_sent_rowE)
  have step: "y \<in> set (queued d u)" if "x \<in> set (queued d u)" "(x, y) \<in> step_rel (queued_step ?e)" for x y
  proof -
    obtain v l where x: "x = (v, l)" by (cases x)
    from that(2) obtain p' where p': "p' \<in> set (pending_op ?e)" "y = (po_uid p', po_lid p')"
      "(l \<noteq> None \<and> po_parent_lid p' = l) \<or> po_parent_uid p' = Some v"
      by (auto simp: x step_rel_def queued_step_def)
    have "(x, y) \<in> step_rel (queued_step d)"
      using p'(1)
    proof (cases rule: withdraw_sent_rowE)
      case kept
      with p' show ?thesis by (auto simp: x step_rel_def queued_step_def)
    next
      case (withdrawn p)
      with withdrawn_step [OF assms withdrawn(1) queued_place [OF assms]] that(1) p' x
      show ?thesis by (auto simp: step_rel_def queued_step_def)
    qed
    with that(1) show ?thesis unfolding queued_reach by (auto intro: rtrancl_into_rtrancl)
  qed
  show ?thesis
  proof
    fix y
    assume "y \<in> set (queued ?e u)"
    then obtain x where x: "x \<in> set (queued d u)" and r: "(x, y) \<in> (step_rel (queued_step ?e))\<^sup>*"
      using init unfolding queued_reach [of ?e] by blast
    from r show "y \<in> set (queued d u)" by (induction rule: rtrancl_induct) (use x step in auto)
  qed
qed

lemma doomed_withdraw_sent:
  assumes "filed d" and "doomed (withdraw_sent d u) u p"
  shows "doomed d u p"
  using assms(2) queued_withdraw_sent [OF assms(1), of u]
  unfolding doomed_def uid_in_def lid_in_def below_pending [OF nodes_withdraw_sent]
  by blast


text \<open>A folder with two queued creates below it, one of which was attempted, and a file elsewhere.\<close>

definition removal_db :: db where
  "removal_db = empty_db\<lparr>
     nodes := [(fresh_row 1 ''v~f'')\<lparr>nr_is_dir := True\<rparr>,
               (fresh_row 2 ''local~2'')\<lparr>nr_parent_uid := Some ''v~f'', nr_parent_lid := Some 1\<rparr>,
               (fresh_row 3 ''local~3'')\<lparr>nr_parent_uid := Some ''v~f'', nr_parent_lid := Some 1\<rparr>,
               fresh_row 4 ''v~x''],
     nodes_seq := 4,
     pending_op := [(new_op_row 1 OP_CREATE ''local~2'' 7)\<lparr>po_parent_uid := Some ''v~f'', po_parent_lid := Some 1,
                       po_lid := Some 2, po_blob_path := Some ''b1''\<rparr>,
                    (new_op_row 2 OP_CREATE ''local~3'' 8)\<lparr>po_parent_uid := Some ''v~f'', po_parent_lid := Some 1,
                       po_lid := Some 3, po_blob_path := Some ''b2'', po_attempts := 1\<rparr>,
                    (new_op_row 3 OP_REVISION ''v~x'' 9)\<lparr>po_lid := Some 4, po_blob_path := Some ''b3''\<rparr>],
     pending_seq := 3\<rparr>"


section \<open>Where a removal differs from its documentation\<close>

text \<open>
  The comment on \<open>drop_doomed_ops\<close> says a queued rename that moved a node into the folder has to land,
  or the node stays where it was on Drive. Only a rename whose row names no parent is kept;
  one that names the folder, as \<open>queue_rename\<close> writes it, is dropped with the folder's own ops.
\<close>

definition move_into :: "uid option \<Rightarrow> db" where
  "move_into parent = empty_db\<lparr>
     nodes := [(fresh_row 1 ''v~f'')\<lparr>nr_is_dir := True\<rparr>,
               (fresh_row 2 ''v~m'')\<lparr>nr_parent_uid := Some ''v~f'', nr_parent_lid := Some 1\<rparr>],
     nodes_seq := 2,
     pending_op := [fill_lids (empty_db\<lparr>nodes := [fresh_row 1 ''v~f'', fresh_row 2 ''v~m'']\<rparr>)
       ((new_op_row 1 OP_RENAME ''v~m'' 7)\<lparr>po_parent_uid := parent, po_name := Some ''m'',
          po_meta_json := Some (RenameMeta ''v~r'' (Some ''m''))\<rparr>)],
     pending_seq := 1\<rparr>"

lemma move_into_removed_folder_is_dropped:
  "map po_kind (pending_op (snd (drop_doomed_ops (move_into None) ''v~f''))) = [OP_RENAME] \<and>
   pending_op (snd (drop_doomed_ops (move_into (Some ''v~f'')) ''v~f'')) = []"
  by code_simp

text \<open>
  A create that was sent and then removed stays as a trash with its blob, which the drain needs to find
  the node. When the folder it was in is removed after it, the trash stays again, but its blob is among the
  ones handed back to be deleted.
\<close>

definition removed_twice :: "string list \<times> db" where
  "removed_twice = drop_doomed_ops (snd (drop_doomed_ops removal_db ''local~3'')) ''v~f''"

lemma blob_of_a_kept_trash_is_handed_back:
  "fst removed_twice = [''b1'', ''b2''] \<and>
   list_ex (\<lambda>p. po_kind p = OP_TRASH \<and> po_uid p = ''local~3'' \<and> po_blob_path p = Some ''b2'') (pending_op (snd removed_twice))"
  by code_simp

end
