(* ===== verification/Landing_Spec.thy ===== *)
theory Landing_Spec
  imports Queue_Spec
begin

text \<open>
  What becomes of a queued create once Drive has the node: a write, a move or a removal made while
  the upload was on the wire is kept, and the bytes and targets a create has sent are remembered for
  the attempt that has to recognise its own node.
\<close>

section \<open>What adopting a placeholder does to the queue\<close>

text \<open>The columns of an op that repointing a placeholder keeps.\<close>

definition repointed :: "uid \<Rightarrow> uid \<Rightarrow> op_row \<Rightarrow> op_row \<Rightarrow> bool" where
  "repointed u real p q = (po_id q = po_id p \<and> po_kind q = po_kind p \<and> po_uid q = po_uid p \<and>
     po_name q = po_name p \<and> po_blob_path q = po_blob_path p \<and> po_meta_json q = po_meta_json p \<and>
     po_claimed_at q = po_claimed_at p \<and>
     (po_parent_uid q = po_parent_uid p \<or> po_parent_uid p = Some u \<and> po_parent_uid q = Some real))"

lemma repointed_refl: "repointed u real p p"
  by (simp add: repointed_def)

lemma adopt_repoints:
  assumes "adopt_placeholder_row_tx d u real = Some d'"
  shows "\<exists>F. pending_op d' = map F (pending_op d) \<and> (\<forall>p. repointed u real p (F p))"
proof -
  let ?f = "\<lambda>p. if po_parent_lid p = None \<and> po_parent_uid p = Some u then p\<lparr>po_parent_uid := Some real\<rparr> else p"
  let ?g = "\<lambda>k l p. if po_lid p = Some k then p\<lparr>po_lid := Some l\<rparr> else p"
  let ?h = "\<lambda>k l p. if po_parent_lid p = Some k then p\<lparr>po_parent_lid := Some l\<rparr> else p"
  have "pending_op d' = map ?f (pending_op d) \<or>
      (\<exists>k l. pending_op d' = map (\<lambda>p. ?h k l (?g k l (?f p))) (pending_op d))"
  proof (cases "row_by_uid d u")
    case None
    with assms show ?thesis by (auto simp: adopt_placeholder_row_tx_def update_where_def)
  next
    case (Some row)
    let ?d = "d\<lparr>pins := adopt_pins (pins d) u real,
        pending_op := update_where (\<lambda>p. po_parent_lid p = None \<and> po_parent_uid p = Some u)
          (\<lambda>p. p\<lparr>po_parent_uid := Some real\<rparr>) (pending_op d)\<rparr>"
    have "pending_op d' = pending_op (case row_by_uid d real of None \<Rightarrow> ?d | Some k \<Rightarrow> absorb_known_row ?d (nr_lid k) (nr_lid row))"
      using assms Some unfolding adopt_placeholder_row_tx_def Let_def
      by (cases "Option.bind (row_by_uid d real) nr_node_json"; cases "nr_node_json row";
          cases "parse_node_uid real") (auto dest!: upsert_node_tx_queue)
    moreover have "pending_op (absorb_known_row ?d k l) = map (\<lambda>p. ?h k l (?g k l (?f p))) (pending_op d)" for k l
      by (simp add: absorb_known_row_def update_where_def comp_def)
    moreover have "pending_op ?d = map ?f (pending_op d)" by (simp add: update_where_def)
    ultimately show ?thesis
      by (cases "row_by_uid d real") (simp only: option.case, blast)+
  qed
  moreover have "repointed u real p (?f p)" "repointed u real p (?h k l (?g k l (?f p)))" for k l p
    by (auto simp: repointed_def)
  ultimately show ?thesis by (elim disjE exE) (rule exI, rule conjI, assumption, blast)+
qed

lemma adopt_row:
  assumes "adopt_placeholder_row_tx d u real = Some d'" and "p \<in> set (pending_op d)"
  shows "\<exists>q \<in> set (pending_op d'). repointed u real p q"
  using adopt_repoints [OF assms(1)] assms(2) by auto

lemma adopt_id:
  assumes "adopt_placeholder_row_tx d u real = Some d'"
  shows "op_exists d' i = op_exists d i"
proof -
  from adopt_repoints [OF assms] obtain F where "pending_op d' = map F (pending_op d)" "\<forall>p. po_id (F p) = po_id p"
    unfolding repointed_def by blast
  then show ?thesis by (simp add: op_exists_def)
qed

section \<open>Retiring a create\<close>

lemma move_pending:
  assumes "queue_inv d"
  shows "pending_op (queue_move_of_landed d l (Some q) (Some n) created) =
    (if (q, n) = cl_sent l then pending_op d
     else delete_where (\<lambda>p. (po_uid p = cl_real l \<or> (node_lid d (cl_local l) \<noteq> None \<and> po_lid p = node_lid d (cl_local l))) \<and>
            po_kind p = OP_RENAME) (pending_op d) @
          [fill_lids d ((new_op_row (pending_seq d + 1) OP_RENAME (cl_real l) created)
             \<lparr>po_parent_uid := Some q, po_name := Some n,
              po_meta_json := Some (RenameMeta (fst (cl_landed l)) (Some (snd (cl_landed l))))\<rparr>)])"
proof -
  let ?ps = "delete_where (\<lambda>p. (po_uid p = cl_real l \<or> (node_lid d (cl_local l) \<noteq> None \<and> po_lid p = node_lid d (cl_local l))) \<and>
      po_kind p = OP_RENAME) (pending_op d)"
  have "p \<in> set (pending_op (d\<lparr>pending_op := ?ps\<rparr>)) \<Longrightarrow> po_id p \<le> pending_seq (d\<lparr>pending_op := ?ps\<rparr>)" for p
    using wf_queue_ids [OF assms] by simp
  note insert_op_pending [of "d\<lparr>pending_op := ?ps\<rparr>", OF this]
  then show ?thesis
    by (simp add: queue_move_of_landed_def Let_def fill_lids_def)
qed

text \<open>The queue between the retired row and the adopted placeholder.\<close>

lemma finish_create_steps:
  assumes inv: "queue_inv d" and r: "r \<in> set (pending_op d)" "po_id r = i" "po_kind r \<noteq> OP_TRASH"
    and fin: "finish_create d i uploaded l rewrite now = Some (res, d')"
  shows "adopt_placeholder_row_tx (queue_move_of_landed (retire_create_row d i (cl_real l) (newer_write r uploaded rewrite))
      l (parent_now d r) (po_name r) (po_created_at r)) (cl_local l) (cl_real l) = Some d'"
    and "res = (case newer_write r uploaded rewrite of Some (b, m) \<Rightarrow> Newer b m | None \<Rightarrow> Landed)"
proof -
  have one: "p = r" if "p \<in> set (pending_op d)" "po_id p = i" for p
    using wf_queue_same [of d p r] inv that r by (simp add: queue_inv_def)
  have "find (\<lambda>p. po_id p = i \<and> po_kind p \<noteq> OP_TRASH) (pending_op d) = Some r"
  proof (cases "find (\<lambda>p. po_id p = i \<and> po_kind p \<noteq> OP_TRASH) (pending_op d)")
    case None
    with r show ?thesis by (auto simp: find_None_iff)
  next
    case (Some p)
    then show ?thesis using one find_SomeD [OF Some] by blast
  qed
  moreover have "\<not> matches (\<lambda>p. po_id p = i \<and> po_kind p = OP_TRASH) (pending_op d)"
    using one r(3) by auto
  ultimately show "adopt_placeholder_row_tx (queue_move_of_landed (retire_create_row d i (cl_real l) (newer_write r uploaded rewrite))
      l (parent_now d r) (po_name r) (po_created_at r)) (cl_local l) (cl_real l) = Some d'"
    and "res = (case newer_write r uploaded rewrite of Some (b, m) \<Rightarrow> Newer b m | None \<Rightarrow> Landed)"
    using fin by (auto simp: finish_create_def Let_def simp del: matches_iff)
qed

lemma finish_create_returns:
  assumes "local_lid (cl_real l) = None"
  shows "\<exists>res d'. finish_create d i uploaded l rewrite now = Some (res, d')"
proof -
  have "\<exists>d'. adopt_placeholder_row_tx e (cl_local l) (cl_real l) = Some d'" for e
    using assms by (rule adopt_returns)
  then have "adopt_placeholder_row_tx e (cl_local l) (cl_real l) \<noteq> None" for e by fastforce
  then show ?thesis
    by (auto simp: finish_create_def Let_def split_def simp del: matches_iff split: option.split)
qed

lemma move_keeps:
  assumes "queue_inv d" and "p \<in> set (pending_op d)" and "po_kind p \<noteq> OP_RENAME"
  shows "p \<in> set (pending_op (queue_move_of_landed d l parent name created))"
proof (cases "parent = None \<or> name = None")
  case True
  with assms(2) show ?thesis by (auto simp: queue_move_of_landed_def split: option.split)
next
  case False
  then obtain q n where "parent = Some q" "name = Some n" by auto
  with assms(2,3) show ?thesis by (auto simp: move_pending [OF assms(1)])
qed

lemma move_ids:
  assumes "queue_inv d" and "i \<le> pending_seq d"
  shows "op_exists (queue_move_of_landed d l parent name created) i \<Longrightarrow> op_exists d i"
proof (cases "parent = None \<or> name = None")
  case True
  then show "op_exists (queue_move_of_landed d l parent name created) i \<Longrightarrow> op_exists d i"
    by (auto simp: queue_move_of_landed_def split: option.splits)
next
  case False
  then obtain q n where "parent = Some q" "name = Some n" by auto
  then show "op_exists (queue_move_of_landed d l parent name created) i \<Longrightarrow> op_exists d i"
    using assms(2) unfolding op_exists_def matches_iff
    by (auto simp: move_pending [OF assms(1)] fill_lids_def split: if_splits)
qed

lemma move_queued:
  assumes "queue_inv d" and "(q, n) \<noteq> cl_sent l"
  shows "\<exists>p \<in> set (pending_op (queue_move_of_landed d l (Some q) (Some n) created)).
    po_kind p = OP_RENAME \<and> po_uid p = cl_real l \<and> po_name p = Some n \<and> po_parent_uid p = Some q \<and>
    po_meta_json p = Some (RenameMeta (fst (cl_landed l)) (Some (snd (cl_landed l))))"
  unfolding move_pending [OF assms(1)] using assms(2) by (simp add: fill_lids_def new_op_row_def)


definition on_the_wire :: db where
  "on_the_wire = snd (snd (enqueue_op empty_db (view_of OP_CREATE ''local~7'' (Some ''b2'') 5)))"

definition landing :: create_landing where
  "landing = \<lparr>cl_local = ''local~7'', cl_real = ''v~r'', cl_sent = (''v~p'', ''n''), cl_landed = (''v~p'', ''n'')\<rparr>"

lemma queue_inv_on_the_wire: "queue_inv on_the_wire"
  unfolding on_the_wire_def by (rule queue_inv_enqueue [OF queue_inv_empty])


text \<open>C21. A removal made while the create was on the wire is not lost: whatever the removal left of
  the row, the node that landed is queued for the trash under its real uid, and the row is still
  claimed by the worker that goes on to trash it.\<close>

theorem withdrawn_create_is_trashed:
  assumes inv: "queue_inv d" and gone: "\<forall>p \<in> set (pending_op d). po_id p = i \<longrightarrow> po_kind p = OP_TRASH \<and> po_claimed_at p \<noteq> 0"
    and "0 < now"
  shows "\<exists>t d'. finish_create d i uploaded l rewrite now = Some (Withdrawn t, d') \<and>
    (\<exists>p \<in> set (pending_op d'). po_id p = t \<and> po_kind p = OP_TRASH \<and> po_uid p = cl_real l \<and>
       po_name p = Some (snd (cl_landed l)) \<and> po_claimed_at p \<noteq> 0)"
proof (cases "\<exists>p \<in> set (pending_op d). po_id p = i")
  case True
  then obtain p where p: "p \<in> set (pending_op d)" "po_id p = i" by blast
  with gone have k: "po_kind p = OP_TRASH" "po_claimed_at p \<noteq> 0" by auto
  let ?trash = "\<lambda>p. po_id p = i \<and> po_kind p = OP_TRASH"
  let ?f = "\<lambda>p. p\<lparr>po_uid := cl_real l, po_name := Some (snd (cl_landed l))\<rparr>"
  have "finish_create d i uploaded l rewrite now = Some (Withdrawn i, d\<lparr>pending_op := update_where ?trash ?f (pending_op d)\<rparr>)"
    using p k by (auto simp: finish_create_def Let_def)
  moreover have "?f p \<in> set (update_where ?trash ?f (pending_op d))"
    using p k by (auto simp: set_update_where)
  ultimately show ?thesis
    using p(2) k by (intro exI [of _ i] exI [of _ "d\<lparr>pending_op := update_where ?trash ?f (pending_op d)\<rparr>"])
      (simp, intro bexI [of _ "?f p"], simp_all)
next
  case False
  then have "\<not> matches (\<lambda>p. po_id p = i \<and> po_kind p = OP_TRASH) (pending_op d)"
    "find (\<lambda>p. po_id p = i \<and> po_kind p \<noteq> OP_TRASH) (pending_op d) = None"
    by (auto simp: find_None_iff)
  then show ?thesis using assms(3) insert_op_pending [of d, OF wf_queue_ids [OF inv]]
    by (simp add: finish_create_def Let_def fill_lids_def new_op_row_def del: matches_iff)
qed

theorem withdrawn_create_is_trashed_witness:
  "\<exists>t d'. finish_create (snd (delete_ops_for_uid (snd (claim_next_due_op on_the_wire 6)) ''local~7'')) 1 (Some ''b2'')
      landing Some 9 = Some (Withdrawn t, d') \<and> (\<exists>p \<in> set (pending_op d'). po_id p = t \<and> po_uid p = ''v~r'')"
proof -
  let ?d = "snd (delete_ops_for_uid (snd (claim_next_due_op on_the_wire 6)) ''local~7'')"
  have "queue_inv ?d"
    by (simp add: delete_ops_for_uid_def queue_inv_doomed queue_inv_claim queue_inv_on_the_wire)
  moreover have "\<forall>p \<in> set (pending_op ?d). po_id p = 1 \<longrightarrow> po_kind p = OP_TRASH \<and> po_claimed_at p \<noteq> 0"
    by code_simp
  ultimately show ?thesis
    using withdrawn_create_is_trashed [of ?d 1 9 "Some ''b2''" landing Some] by (auto simp: landing_def)
qed

section \<open>What a create has sent\<close>

lemma split_on_Cons: "\<exists>y ys. split_on c xs = y # ys"
  by (induction xs) (auto split: list.splits)

lemma split_on_id: "c \<notin> set s \<Longrightarrow> split_on c s = [s]"
  by (induction s) auto

lemma split_on_append: "c \<notin> set s \<Longrightarrow> split_on c (xs @ c # s) = split_on c xs @ [s]"
proof (induction xs)
  case (Cons x xs)
  then show ?case using split_on_Cons [of c xs] by auto
qed (simp add: split_on_id)

lemma prefix_split_on: "c \<notin> set s \<Longrightarrow> prefix (s @ [c]) (xs @ [c]) \<longleftrightarrow> s = hd (split_on c xs)"
proof (induction xs arbitrary: s)
  case Nil
  then show ?case by (cases s) auto
next
  case (Cons x xs)
  then show ?case using split_on_Cons [of c xs] by (cases s) auto
qed

lemma sublist_split_on: "c \<notin> set s \<Longrightarrow> sublist (c # s @ [c]) (xs @ [c]) \<longleftrightarrow> s \<in> set (tl (split_on c xs))"
proof (induction xs)
  case Nil
  then show ?case by (simp add: sublist_Cons_right)
next
  case (Cons x xs)
  obtain y ys where y: "split_on c xs = y # ys" using split_on_Cons by blast
  show ?case
  proof (cases "x = c")
    case True
    with y Cons prefix_split_on [OF Cons.prems, of xs] show ?thesis
      by (simp add: sublist_Cons_right [of "c # s @ [c]"])
  next
    case False
    with y Cons show ?thesis by (simp add: sublist_Cons_right [of "c # s @ [c]"])
  qed
qed

lemma instr_split_on:
  assumes "c \<notin> set s"
  shows "instr ([c] @ xs @ [c]) ([c] @ s @ [c]) \<longleftrightarrow> s \<in> set (split_on c xs)"
  using sublist_split_on [OF assms, of "c # xs"] by (simp add: instr_def)

lemma find_update_where:
  assumes "\<And>p. po_id (f p) = po_id p"
  shows "find (\<lambda>p. po_id p = i) (update_where (\<lambda>p. po_id p = i) f ps) = map_option f (find (\<lambda>p. po_id p = i) ps)"
  by (induction ps) (auto simp: update_where_def assms)

text \<open>What a create has sent is remembered, once each and in order: after the digest of a blob is
  noted for a queued create, the digests read back are the earlier ones followed by the new one, or the
  earlier ones if it was among them.\<close>

theorem sent_digests_round_trip:
  assumes "op_exists d i" and "CHR '' '' \<notin> set sha"
  shows "create_sent (note_create_sent d i sha) i =
    (if sha \<in> set (create_sent d i) then create_sent d i else create_sent d i @ [sha])"
proof -
  obtain p where p: "op_by_id d i = Some p"
    using assms(1) by (cases "op_by_id d i") (auto simp: op_by_id_def op_exists_def find_None_iff)
  then have q: "op_by_id (note_create_sent d i sha) i = Some (p\<lparr>po_sent_sha1 := note_sha sha (po_sent_sha1 p)\<rparr>)"
    by (simp add: op_by_id_def note_create_sent_def find_update_where)
  show ?thesis
    using split_on_id [OF assms(2)] instr_split_on [OF assms(2)] split_on_append [OF assms(2)]
    by (cases "po_sent_sha1 p") (simp_all add: create_sent_def p q note_sha_def)
qed

theorem sent_digests_round_trip_witness:
  "create_sent (note_create_sent (note_create_sent on_the_wire 1 ''ab'') 1 ''cd'') 1 = [''ab'', ''cd'']"
proof -
  have "op_exists on_the_wire 1" "create_sent on_the_wire 1 = []" by code_simp+
  moreover have "op_exists (note_create_sent on_the_wire 1 ''ab'') 1" by code_simp
  ultimately show ?thesis
    using sent_digests_round_trip [of on_the_wire 1 "''ab''"]
      sent_digests_round_trip [of "note_create_sent on_the_wire 1 ''ab''" 1 "''cd''"] by simp
qed

end
