(* ===== verification/Link.thy ===== *)
theory Link
  imports Queue_Spec
begin

text \<open>
  Losing and regaining the connection, \<open>crates/pdfs-fuse/src/link.rs\<close>, with the classification of
  errors it rests on (\<open>session_revoked\<close> of \<open>crates/pdfs-core/src/error.rs\<close>): the flags of the link,
  what each report of a failed call does to them, one round of the probe, and the deadlines of calls.
  An answer of Proton is its response code and whether the SDK reads it as a refused refresh token.
  Durations are seconds where the code's are, milliseconds in the clock.
\<close>

section \<open>Errors\<close>

datatype response_code =
    RequestTimeout | Timeout | AccountDeleted | AccountDisabled | InsufficientQuota | InsufficientSpace
  | InsufficientVolumeQuota | Forbidden | NotEnoughPermissions | DoesNotExist | TooManyChildren
  | NestingTooDeep | InvalidValue | IncompatibleState | AlreadyExists | OtherCode int

datatype proton_error = Transport | Api response_code bool | OtherProton

fun is_network_error :: "proton_error \<Rightarrow> bool" where
  "is_network_error Transport = True"
| "is_network_error (Api code _) = (code = RequestTimeout \<or> code = Timeout)"
| "is_network_error OtherProton = False"

fun session_revoked :: "proton_error \<Rightarrow> bool" where
  "session_revoked (Api code refresh_refused) = (refresh_refused \<or> code = AccountDeleted \<or> code = AccountDisabled)"
| "session_revoked _ = False"

definition no_answer :: proton_error where
  "no_answer = Api RequestTimeout False"

section \<open>Deadlines\<close>

definition INTERACTIVE_CALL_TIMEOUT :: nat where "INTERACTIVE_CALL_TIMEOUT = 20"
definition SLOWEST_UPLOAD :: nat where "SLOWEST_UPLOAD = 32 * 1024"
definition UPLOAD_SLOTS :: nat where "UPLOAD_SLOTS = 16 + 8"
definition PROBE_AFTER_DROP :: nat where "PROBE_AFTER_DROP = 2"
definition PROBE_YOUNG_MAX :: nat where "PROBE_YOUNG_MAX = 30"
definition YOUNG_OUTAGE :: nat where "YOUNG_OUTAGE = 10 * 60"
definition ONLINE_PROBE_MIN :: nat where "ONLINE_PROBE_MIN = 5"
definition ONLINE_PROBE_MAX :: nat where "ONLINE_PROBE_MAX = 300"

definition upload_rate :: "nat \<Rightarrow> nat" where
  "upload_rate cap = (if cap = 0 then SLOWEST_UPLOAD else min SLOWEST_UPLOAD (max (cap div UPLOAD_SLOTS) 1))"

definition upload_deadline :: "nat \<Rightarrow> nat \<Rightarrow> nat" where
  "upload_deadline len cap = INTERACTIVE_CALL_TIMEOUT + len div upload_rate cap"

definition next_probe_delay :: "nat \<Rightarrow> nat \<Rightarrow> nat" where
  "next_probe_delay delay outage = min (delay * 2) (if outage < YOUNG_OUTAGE then PROBE_YOUNG_MAX else ONLINE_PROBE_MAX)"

section \<open>The link\<close>

record link =
  lk_online :: bool
  lk_lost_at :: "nat option"
  lk_session_expired :: bool
  lk_resume_stored :: bool
  lk_db :: db
  lk_woken :: nat

definition link_start :: "bool \<Rightarrow> bool \<Rightarrow> db \<Rightarrow> link" where
  "link_start online expired d = \<lparr>lk_online = online, lk_lost_at = None, lk_session_expired = expired,
     lk_resume_stored = False, lk_db = d, lk_woken = 0\<rparr>"

definition mark_offline :: "nat \<Rightarrow> link \<Rightarrow> link" where
  "mark_offline now k = (if lk_online k then k\<lparr>lk_online := False, lk_lost_at := Some now\<rparr> else k)"

text \<open>\<open>newer\<close> is whether the keyring holds a newer session than the refused one.\<close>

definition mark_session_expired :: "bool \<Rightarrow> nat \<Rightarrow> link \<Rightarrow> link" where
  "mark_session_expired newer now k =
     (if lk_resume_stored k then mark_offline now k
      else if newer then mark_offline now (k\<lparr>lk_resume_stored := True\<rparr>)
      else mark_offline now (k\<lparr>lk_session_expired := True\<rparr>))"

definition lost_link :: "proton_error \<Rightarrow> bool \<Rightarrow> nat \<Rightarrow> link \<Rightarrow> bool \<times> link" where
  "lost_link e newer now k =
     (if session_revoked e then (True, mark_session_expired newer now k)
      else if \<not> is_network_error e then (False, k)
      else (True, mark_offline now k))"

definition mark_online :: "millis \<Rightarrow> link \<Rightarrow> link" where
  "mark_online now_ms k = k\<lparr>lk_online := True, lk_lost_at := None,
     lk_db := snd (retry_unrefused_ops_now (lk_db k) now_ms), lk_woken := lk_woken k + 1\<rparr>"

definition sends_inline :: "bool \<Rightarrow> link \<Rightarrow> bool" where
  "sends_inline local_first k = (\<not> local_first \<and> lk_online k)"

text \<open>
  One round of \<open>probe_until_online\<close>, after its sleep: what Drive answered is an error or the root
  node, which is written through. The result is whether the link is back, the next delay, the link.
\<close>

definition probe_round :: "(proton_error + node) \<Rightarrow> bool \<Rightarrow> nat \<Rightarrow> nat \<Rightarrow> nat \<Rightarrow> millis \<Rightarrow> link \<Rightarrow> bool \<times> nat \<times> link" where
  "probe_round answer newer delay started now now_ms k =
     (if lk_session_expired k then (False, ONLINE_PROBE_MAX, k)
      else (case answer of
              Inr root \<Rightarrow>
                (let d = (case upsert_node_tx (lk_db k) root of Some d' \<Rightarrow> d' | None \<Rightarrow> lk_db k)
                 in (True, delay, mark_online now_ms (k\<lparr>lk_db := d\<rparr>)))
            | Inl e \<Rightarrow>
                (if session_revoked e then (False, delay, mark_session_expired newer now k)
                 else (False, next_probe_delay delay (now - started), k))))"

definition first_probe_delay :: "nat \<Rightarrow> nat" where
  "first_probe_delay outage = (if outage < YOUNG_OUTAGE then PROBE_AFTER_DROP else ONLINE_PROBE_MIN)"

section \<open>The link as a state machine\<close>

inductive link_step :: "link \<Rightarrow> link \<Rightarrow> bool" where
  l_failed: "link_step k (snd (lost_link e newer now k))"
| l_probe: "\<not> lk_online k \<Longrightarrow> link_step k (snd (snd (probe_round answer newer delay started now now_ms k)))"

inductive_cases link_stepE: "link_step k k'"

definition link_init :: "link \<Rightarrow> bool" where
  "link_init k = (\<exists>online expired d. k = link_start online expired d \<and> (expired \<longrightarrow> \<not> online))"

definition link_inv :: "link \<Rightarrow> bool" where
  "link_inv k = ((lk_online k \<longrightarrow> lk_lost_at k = None) \<and> (lk_session_expired k \<longrightarrow> \<not> lk_online k) \<and>
     (lk_resume_stored k \<and> lk_online k \<longrightarrow> \<not> lk_session_expired k))"

lemma mark_offline_simps [simp]:
  "\<not> lk_online (mark_offline now k)" "lk_session_expired (mark_offline now k) = lk_session_expired k"
  "lk_db (mark_offline now k) = lk_db k"
  by (simp_all add: mark_offline_def)

interpretation link: inv_system link_init link_step link_inv
proof unfold_locales
  show "link_inv k'" if "link_step k k'" "link_inv k" for k k'
    using that
  proof (induction rule: link_step.induct)
    case (l_failed k e newer now)
    then show ?case
      by (auto simp: link_inv_def lost_link_def mark_session_expired_def)
  next
    case (l_probe k answer newer delay started now now_ms)
    then show ?case
      by (auto simp: link_inv_def probe_round_def mark_online_def mark_session_expired_def Let_def split: sum.splits)
  qed
qed (auto simp: link_init_def link_inv_def link_start_def)

section \<open>Properties\<close>

lemma expired_step: "link_step k k' \<Longrightarrow> lk_session_expired k \<Longrightarrow> lk_session_expired k'"
  by (auto elim!: link_stepE simp: lost_link_def mark_session_expired_def probe_round_def)



text \<open>Coming back online makes every op that failed on the way down due at once, except one that
  is parked and one Drive refused, which keep their times; it adds, drops and reorders nothing, and
  the clock of the outage is cleared.\<close>

theorem reconnect_moves_up_unrefused_ops:
  "lk_online (mark_online now k) \<and> lk_lost_at (mark_online now k) = None \<and>
   pending_op (lk_db (mark_online now k)) = map (\<lambda>p.
     if po_attempts p > 0 \<and> po_next_attempt_at p > now \<and> po_next_attempt_at p < PARK_UNTIL \<and> po_issue p = None
     then p\<lparr>po_next_attempt_at := now\<rparr> else p) (pending_op (lk_db k))"
  by (simp add: mark_online_def retry_unrefused_ops_now_def retry_ops_now_def Let_def update_where_def)

text \<open>The deadline of an upload covers it at its share of the cap: sent at the rate the deadline
  allows for, the bytes are through before it, that rate is never above the share each of the
  uploads running gets, and a longer upload or a lower cap never has less time.\<close>

theorem upload_deadline_covers_share:
  "len < upload_rate cap * (upload_deadline len cap - 19) \<and> 1 \<le> upload_rate cap \<and> upload_rate cap \<le> 32768 \<and>
   (24 \<le> cap \<longrightarrow> 24 * upload_rate cap \<le> cap) \<and>
   (len \<le> len' \<longrightarrow> upload_deadline len cap \<le> upload_deadline len' cap) \<and>
   (0 < cap' \<and> cap' \<le> cap \<longrightarrow> upload_deadline len cap \<le> upload_deadline len cap')"
proof -
  have r: "1 \<le> upload_rate c" "upload_rate c \<le> 32768" for c
    by (auto simp: upload_rate_def SLOWEST_UPLOAD_def UPLOAD_SLOTS_def)
  then have pos: "0 < upload_rate c" for c by (simp add: Suc_le_eq)
  have "len < upload_rate cap * (upload_deadline len cap - 19)"
    using dividend_less_times_div [OF pos [of cap], of len]
    by (simp add: upload_deadline_def INTERACTIVE_CALL_TIMEOUT_def)
  moreover have "24 * upload_rate cap \<le> cap" if "24 \<le> cap"
    using that by (auto simp: upload_rate_def UPLOAD_SLOTS_def SLOWEST_UPLOAD_def min_def max_def)
  moreover have "upload_rate cap' \<le> upload_rate cap" if "0 < cap'" "cap' \<le> cap"
    using that div_le_mono [of cap' cap 24] by (auto simp: upload_rate_def UPLOAD_SLOTS_def)
  ultimately show ?thesis using r pos
    by (auto simp: upload_deadline_def intro: div_le_mono div_le_mono2)
qed

theorem upload_deadline_covers_share_witness:
  "24 * upload_rate 2400 \<le> 2400 \<and> upload_deadline 1000 0 \<le> upload_deadline 2000 0"
  using upload_deadline_covers_share [of 1000 2400 2000 1] upload_deadline_covers_share [of 1000 0 2000 1] by simp

text \<open>The probe's delays are bounded and do not shrink below what a young outage allows.\<close>

lemma next_probe_delay_bounds:
  "next_probe_delay delay outage \<le> 300 \<and> (outage < 600 \<longrightarrow> next_probe_delay delay outage \<le> 30) \<and>
   (0 < delay \<longrightarrow> 0 < next_probe_delay delay outage) \<and> (delay \<le> 30 \<longrightarrow> delay \<le> next_probe_delay delay outage)"
  by (auto simp: next_probe_delay_def YOUNG_OUTAGE_def PROBE_YOUNG_MAX_def ONLINE_PROBE_MAX_def)

end
