(* ===== verification/Access.thy ===== *)
theory Access
  imports Nodes "HOL-Library.Word"
begin

unbundle bit_operations_syntax

text \<open>
  Effective access, \<open>crates/pdfs-core/src/access.rs\<close> and \<open>db/share_access.rs\<close>: the role table, the
  permission bits of a mounted node, the persisted access of shared roots, and the walk up the tree
  to the nearest recorded root. Shared trees fail closed, owned trees fail open.
\<close>

section \<open>Roles and permissions\<close>

datatype access = Owner | Editor | Viewer | Unknown

definition writable :: "access \<Rightarrow> bool" where
  "writable a = (a = Owner \<or> a = Editor)"

fun as_db_str :: "access \<Rightarrow> string" where
  "as_db_str Owner = ''owner''"
| "as_db_str Editor = ''editor''"
| "as_db_str Viewer = ''viewer''"
| "as_db_str Unknown = ''unknown''"

definition from_db_str :: "string \<Rightarrow> access option" where
  "from_db_str v = (if v = ''owner'' then Some Owner else if v = ''editor'' then Some Editor
     else if v = ''viewer'' then Some Viewer else if v = ''unknown'' then Some Unknown else None)"

fun access_for :: "member_role option \<Rightarrow> access \<Rightarrow> bool \<Rightarrow> access" where
  "access_for (Some RoleViewer) parent under_share = Viewer"
| "access_for (Some RoleEditor) parent under_share = Editor"
| "access_for (Some RoleAdmin) parent under_share = Editor"
| "access_for (Some RoleInherited) parent under_share = parent"
| "access_for None parent under_share = (if under_share then Viewer else Owner)"

text \<open>The octal modes 755, 644, 555 and 444, as \<open>u16\<close>.\<close>

definition perm_bits :: "bool \<Rightarrow> access \<Rightarrow> 16 word" where
  "perm_bits is_dir a = (if writable a then (if is_dir then 493 else 420) else (if is_dir then 365 else 292))"

section \<open>Persisted access of shared roots\<close>

definition set_share_access :: "db \<Rightarrow> uid \<Rightarrow> access \<Rightarrow> db" where
  "set_share_access d u a =
     d\<lparr>share_access_tbl := (if matches (\<lambda>r. fst r = u) (share_access_tbl d)
         then update_where (\<lambda>r. fst r = u) (\<lambda>r. (fst r, as_db_str a)) (share_access_tbl d)
         else share_access_tbl d @ [(u, as_db_str a)])\<rparr>"

definition delete_share_access :: "db \<Rightarrow> uid \<Rightarrow> db" where
  "delete_share_access d u = d\<lparr>share_access_tbl := delete_where (\<lambda>r. fst r = u) (share_access_tbl d)\<rparr>"

definition downgrade_all_share_access :: "db \<Rightarrow> nat \<times> db" where
  "downgrade_all_share_access d =
     (length (filter (\<lambda>r. snd r \<noteq> ''viewer'') (share_access_tbl d)),
      d\<lparr>share_access_tbl := update_where (\<lambda>r. snd r \<noteq> ''viewer'') (\<lambda>r. (fst r, ''viewer'')) (share_access_tbl d)\<rparr>)"

definition decode_access :: "string option \<Rightarrow> string + access option" where
  "decode_access v = (case v of
      None \<Rightarrow> Inr None
    | Some s \<Rightarrow> (case from_db_str s of Some a \<Rightarrow> Inr (Some a) | None \<Rightarrow> Inl (''invalid share access '' @ s)))"

definition share_access :: "db \<Rightarrow> uid \<Rightarrow> string + access option" where
  "share_access d u = decode_access (map_of (share_access_tbl d) u)"

fun collect_access :: "(uid \<times> string) list \<Rightarrow> string + (uid \<times> access) list" where
  "collect_access [] = Inr []"
| "collect_access ((u, v) # rows) =
     (if CHR ''~'' \<notin> set u then Inl (''invalid shared-root uid '' @ u @ '' stored in database'')
      else (case from_db_str v of
              None \<Rightarrow> Inl (''invalid share access '' @ v @ '' stored for '' @ u)
            | Some a \<Rightarrow> (case collect_access rows of Inl e \<Rightarrow> Inl e | Inr m \<Rightarrow> Inr ((u, a) # m))))"

definition all_share_access :: "db \<Rightarrow> string + (uid \<times> access) list" where
  "all_share_access d = collect_access (share_access_tbl d)"

section \<open>The nearest recorded root\<close>

text \<open>
  The recursive query's \<open>path\<close> column is the list of uids seen. A parent row is found by local id;
  where there is none, the parent is the uid the row names, and the walk ends there.
\<close>

function anc_uids :: "db \<Rightarrow> uid list \<Rightarrow> node_row \<Rightarrow> uid list" where
  "anc_uids d seen r = nr_uid r # (case nr_parent_uid r of
      None \<Rightarrow> []
    | Some p \<Rightarrow> (case parent_row d r of
          Some q \<Rightarrow> (if nr_uid q \<in> set seen then [] else anc_uids d (nr_uid q # seen) q)
        | None \<Rightarrow> (if p \<in> set seen then [] else [p])))"
  by pat_completeness auto
termination
proof (relation "measure (\<lambda>(d, seen, r). card (nr_uid ` set (nodes d) - set seen))", goal_cases)
  case (2 d seen r p q)
  then have "q \<in> set (nodes d)"
    by (auto simp: parent_row_def row_by_lid_def split: option.splits dest: find_SomeD)
  then have "nr_uid ` set (nodes d) - set (nr_uid q # seen) \<subset> nr_uid ` set (nodes d) - set seen"
    using 2 by auto
  then show ?case by (simp add: psubset_card_mono)
qed simp

declare anc_uids.simps [simp del]

definition access_key :: "db \<Rightarrow> uid \<Rightarrow> uid" where
  "access_key d u = (case local_lid u of
      Some l \<Rightarrow> (case row_by_lid d l of Some r \<Rightarrow> nr_uid r | None \<Rightarrow> u)
    | None \<Rightarrow> u)"

definition nearest_access :: "(uid \<times> string) list \<Rightarrow> uid list \<Rightarrow> string option" where
  "nearest_access t us = Option.bind (find (\<lambda>u. map_of t u \<noteq> None) us) (map_of t)"

definition effective_node_access :: "db \<Rightarrow> uid \<Rightarrow> string + access option" where
  "effective_node_access d u =
     (let key = access_key d u
      in if \<not> matches (\<lambda>r. nr_uid r = key \<and> nr_node_json r \<noteq> None) (nodes d) then Inr None
         else (case row_by_uid d key of
                 None \<Rightarrow> Inr None
               | Some r \<Rightarrow> (case decode_access (nearest_access (share_access_tbl d) (anc_uids d [key] r)) of
                     Inl e \<Rightarrow> Inl e
                   | Inr a \<Rightarrow> Inr (Some (case a of Some v \<Rightarrow> v | None \<Rightarrow> Owner)))))"

section \<open>Properties\<close>

lemma from_as_db_str [simp]: "from_db_str (as_db_str a) = Some a"
  by (cases a) (simp_all add: from_db_str_def)

lemma map_of_set_share_access:
  "map_of (share_access_tbl (set_share_access d u a)) = (map_of (share_access_tbl d))(u \<mapsto> as_db_str a)"
  by (simp add: set_share_access_def map_of_upsert del: matches_iff)

text \<open>Writing a shared root's access and reading it back gives it, leaves every other root as it
  was, and forgetting a root leaves no row for it.\<close>

theorem share_access_round_trip:
  "share_access (set_share_access d u a) u = Inr (Some a) \<and>
   (v \<noteq> u \<longrightarrow> share_access (set_share_access d u a) v = share_access d v) \<and>
   share_access (delete_share_access d u) u = Inr None"
  by (simp add: share_access_def map_of_set_share_access decode_access_def delete_share_access_def map_of_delete_key)

theorem share_access_round_trip_witness:
  "share_access (set_share_access empty_db ''v~s'' Editor) ''v~t'' = Inr None"
  using share_access_round_trip [of empty_db "''v~s''" Editor "''v~t''"]
  by (simp add: share_access_def empty_db_def decode_access_def)

text \<open>The permission bits say exactly who may write: the owner's write bit is set if and only if
  the access is writable, no mode ever grants write to group or others, everything is readable, and
  a folder is searchable while a file is not executable.\<close>

theorem perm_bits_follow_access:
  "(perm_bits is_dir a AND 128 \<noteq> 0 \<longleftrightarrow> writable a) \<and> perm_bits is_dir a AND 18 = 0 \<and>
   perm_bits is_dir a AND 292 = 292 \<and> (perm_bits is_dir a AND 73 = (if is_dir then 73 else 0))"
  by (cases is_dir; cases "writable a") (simp_all add: perm_bits_def)

lemma nearest_downgraded:
  "nearest_access (update_where (\<lambda>r. snd r \<noteq> ''viewer'') (\<lambda>r. (fst r, ''viewer'')) t) us =
     map_option (\<lambda>_. ''viewer'') (nearest_access t us)"
proof -
  have m: "map_of (update_where (\<lambda>r. snd r \<noteq> ''viewer'') (\<lambda>r. (fst r, ''viewer'')) t) u =
      map_option (\<lambda>_. ''viewer'') (map_of t u)" for u
    by (induction t) (auto simp: update_where_def)
  show ?thesis
    unfolding nearest_access_def m
    by (cases "find (\<lambda>u. map_of t u \<noteq> None) us") (auto simp: m dest: find_SomeD)
qed

lemma anc_uids_share_access: "anc_uids (d\<lparr>share_access_tbl := t\<rparr>) seen r = anc_uids d seen r"
proof (induction d seen r rule: anc_uids.induct)
  case (1 d seen r)
  have "parent_row (d\<lparr>share_access_tbl := t\<rparr>) = parent_row d"
    by (simp add: fun_eq_iff parent_row_def row_by_lid_def split: option.split)
  with 1 show ?case
    unfolding anc_uids.simps [of "d\<lparr>share_access_tbl := t\<rparr>" seen r] anc_uids.simps [of d seen r]
    by (auto split: option.split)
qed

text \<open>Failing closed: after every shared authority is downgraded, a node that resolved through a
  recorded shared root, whatever its access was and however the row was spelled, is a viewer's, and
  a node of an owned tree keeps its access.\<close>

theorem downgrade_fails_closed:
  assumes "effective_node_access d u \<noteq> Inr None"
  shows "effective_node_access (snd (downgrade_all_share_access d)) u =
    Inr (Some (if \<exists>r. row_by_uid d (access_key d u) = Some r \<and>
                  nearest_access (share_access_tbl d) (anc_uids d [access_key d u] r) \<noteq> None
               then Viewer else Owner))"
proof -
  let ?t = "update_where (\<lambda>r. snd r \<noteq> ''viewer'') (\<lambda>r. (fst r, ''viewer'')) (share_access_tbl d)"
  have d': "snd (downgrade_all_share_access d) = d\<lparr>share_access_tbl := ?t\<rparr>"
    by (simp add: downgrade_all_share_access_def)
  have key: "access_key (d\<lparr>share_access_tbl := ?t\<rparr>) u = access_key d u"
    by (simp add: access_key_def row_by_lid_def split: option.split)
  have uid: "row_by_uid (d\<lparr>share_access_tbl := ?t\<rparr>) = row_by_uid d"
    by (simp add: fun_eq_iff row_by_uid_def)
  from assms obtain r where r: "row_by_uid d (access_key d u) = Some r"
    "matches (\<lambda>r. nr_uid r = access_key d u \<and> nr_node_json r \<noteq> None) (nodes d)"
    by (auto simp: effective_node_access_def Let_def split: if_splits option.splits)
  then show ?thesis
    unfolding d' effective_node_access_def Let_def key uid anc_uids_share_access
    by (auto simp: nearest_downgraded decode_access_def from_db_str_def split: option.split)
qed

text \<open>A shared folder with a file in it.\<close>

definition shared_tree :: db where
  "shared_tree = empty_db\<lparr>
     nodes := [(fresh_row 1 ''v~s'')\<lparr>nr_is_dir := True\<rparr>,
               (fresh_row 2 ''v~f'')\<lparr>nr_parent_uid := Some ''v~s'', nr_parent_lid := Some 1,
                  nr_node_json := Some \<lparr>node_uid = ''v~f'', parent_uid = Some ''v~s'', node_name = ''f'',
                     node_kind = Folder, creation_time = 0, modification_time = 0, trashed = False, membership = None\<rparr>\<rparr>],
     share_access_tbl := [(''v~s'', ''editor'')]\<rparr>"

theorem downgrade_fails_closed_witness:
  "effective_node_access shared_tree ''v~f'' = Inr (Some Editor) \<and>
   effective_node_access (snd (downgrade_all_share_access shared_tree)) ''v~f'' = Inr (Some Viewer)"
proof -
  have before: "effective_node_access shared_tree ''v~f'' = Inr (Some Editor)" by code_simp
  have "\<exists>r. row_by_uid shared_tree (access_key shared_tree ''v~f'') = Some r \<and>
      nearest_access (share_access_tbl shared_tree) (anc_uids shared_tree [access_key shared_tree ''v~f''] r) \<noteq> None"
    by (cases "row_by_uid shared_tree (access_key shared_tree ''v~f'')")
      (use before in \<open>auto simp: effective_node_access_def Let_def decode_access_def split: if_splits option.splits\<close>)
  with downgrade_fails_closed [of shared_tree "''v~f''"] before show ?thesis by simp
qed

text \<open>A stand-in whose create has landed has the access of the row it became: the local id finds
  the row under its real uid.\<close>

theorem landed_stand_in_keeps_access:
  assumes "local_lid u = Some l" and "row_by_lid d l = Some r" and "local_lid (nr_uid r) = None"
  shows "effective_node_access d u = effective_node_access d (nr_uid r)"
proof -
  have "access_key d u = nr_uid r" "access_key d (nr_uid r) = nr_uid r"
    using assms by (simp_all add: access_key_def)
  then show ?thesis by (simp add: effective_node_access_def)
qed

theorem landed_stand_in_keeps_access_witness:
  "effective_node_access shared_tree ''local~2'' = effective_node_access shared_tree ''v~f''"
proof -
  let ?r = "nodes shared_tree ! 1"
  have "local_lid ''local~2'' = Some 2" by code_simp
  moreover have "row_by_lid shared_tree 2 = Some ?r" by code_simp
  moreover have "local_lid (nr_uid ?r) = None" by code_simp
  ultimately have "effective_node_access shared_tree ''local~2'' = effective_node_access shared_tree (nr_uid ?r)"
    by (rule landed_stand_in_keeps_access)
  then show ?thesis by (simp add: shared_tree_def fresh_row_def)
qed

end
