(* ===== verification/Drain.thy ===== *)
theory Drain
  imports Link Access
begin

text \<open>
  The write-back drain, \<open>crates/pdfs-fuse/src/drain.rs\<close>: who has to allow an op, what a deferral and a
  failure record, how long a worker waits, what becomes of a parked create, when a queued revision may
  be sent, which remote node is taken for a lost create, and one turn of a drain worker.
  What Drive answers is an argument. Times are milliseconds since the epoch.
\<close>

section \<open>Constants\<close>

definition DRAIN_BACKOFF_MIN :: nat where "DRAIN_BACKOFF_MIN = 2000"
definition DRAIN_BACKOFF_MAX :: nat where "DRAIN_BACKOFF_MAX = 300000"
definition DRAIN_IDLE_POLL :: nat where "DRAIN_IDLE_POLL = 30000"
definition DRAIN_REVISION_DEBOUNCE :: nat where "DRAIN_REVISION_DEBOUNCE = 2000"
definition DRAIN_REVISION_DEBOUNCE_MAX :: nat where "DRAIN_REVISION_DEBOUNCE_MAX = 60000"
definition UPLOAD_TIME_MEMORY :: nat where "UPLOAD_TIME_MEMORY = 512"
definition DRAIN_ACCESS_RECHECK :: int where "DRAIN_ACCESS_RECHECK = 5000"
definition DRAIN_ACCESS_DEFER_LIMIT :: int where "DRAIN_ACCESS_DEFER_LIMIT = 300000"
definition NAME_HOLD_ATTEMPTS :: int where "NAME_HOLD_ATTEMPTS = 4"
definition ADOPT_WINDOW_MS :: int where "ADOPT_WINDOW_MS = 2 * 60 * 1000"
definition PARK_UNLISTED_GRACE_MS :: int where "PARK_UNLISTED_GRACE_MS = 60 * 1000"
definition LANDED_KEEP_SHARE :: nat where "LANDED_KEEP_SHARE = 16"

section \<open>Waiting\<close>

definition adaptive_debounce :: "nat option \<Rightarrow> nat" where
  "adaptive_debounce measured =
     max DRAIN_REVISION_DEBOUNCE (min DRAIN_REVISION_DEBOUNCE_MAX
       (case measured of Some m \<Rightarrow> m | None \<Rightarrow> DRAIN_REVISION_DEBOUNCE))"

text \<open>The measured upload times: uid, how long, when; the oldest goes when the memory is full.\<close>

type_synonym upload_times = "(uid \<times> nat \<times> millis) list"

definition oldest_upload :: "upload_times \<Rightarrow> uid option" where
  "oldest_upload ts = map_option fst (find (\<lambda>t. list_all (\<lambda>s. snd (snd t) \<le> snd (snd s)) ts) ts)"

definition record_upload_time :: "upload_times \<Rightarrow> uid \<Rightarrow> nat \<Rightarrow> millis \<Rightarrow> upload_times" where
  "record_upload_time ts u took now =
     (let ts1 = (if length ts \<ge> UPLOAD_TIME_MEMORY \<and> map_of ts u = None
                 then (case oldest_upload ts of Some old \<Rightarrow> filter (\<lambda>t. fst t \<noteq> old) ts | None \<Rightarrow> ts) else ts)
      in (u, took, now) # filter (\<lambda>t. fst t \<noteq> u) ts1)"

definition revision_debounce :: "upload_times \<Rightarrow> uid \<Rightarrow> nat" where
  "revision_debounce ts u = adaptive_debounce (map_option fst (map_of ts u))"

definition backoff_base :: "int \<Rightarrow> nat" where
  "backoff_base attempts = min (DRAIN_BACKOFF_MIN * 2 ^ nat (min 8 (max 0 attempts))) DRAIN_BACKOFF_MAX"

text \<open>The spread is computed in wrapping \<open>i64\<close> arithmetic and read as \<open>u64\<close>.\<close>

definition backoff_spread :: "int \<Rightarrow> int \<Rightarrow> nat" where
  "backoff_spread attempts seed = unat (((of_int seed :: 64 word) * 0x9E3779B9 + of_int attempts) mod 21)"

definition drain_backoff :: "int \<Rightarrow> bool \<Rightarrow> int \<Rightarrow> nat" where
  "drain_backoff attempts held seed =
     (if held then DRAIN_BACKOFF_MIN
      else backoff_base attempts + backoff_base attempts * backoff_spread attempts seed div 100)"

text \<open>The backoff of an access deferral, which keeps the older bound on the doubling.\<close>

definition access_backoff :: "int \<Rightarrow> nat" where
  "access_backoff attempts = min (DRAIN_BACKOFF_MIN * 2 ^ nat (min 6 attempts)) DRAIN_BACKOFF_MAX"

definition idle_wait :: "bool \<Rightarrow> millis option \<Rightarrow> millis \<Rightarrow> nat" where
  "idle_wait claiming earliest now = (case earliest of
      Some ts \<Rightarrow> (if claiming then min (nat (max (ts - now) 0)) DRAIN_IDLE_POLL else DRAIN_IDLE_POLL)
    | None \<Rightarrow> DRAIN_IDLE_POLL)"

definition wait_for_drain_work_or_due :: "db \<Rightarrow> bool \<Rightarrow> millis \<Rightarrow> nat" where
  "wait_for_drain_work_or_due d claiming now =
     idle_wait claiming (if claiming then earliest_due_at d else None) now"

section \<open>Who has to allow an op\<close>

datatype write_authority = Writable | Denied | AuthUnknown

definition uid_write_authority :: "db \<Rightarrow> uid \<Rightarrow> access list \<Rightarrow> write_authority" where
  "uid_write_authority d u live = (case effective_node_access d u of
      Inl _ \<Rightarrow> Denied
    | Inr None \<Rightarrow> AuthUnknown
    | Inr (Some a) \<Rightarrow> (if writable a \<and> list_all writable live then Writable else Denied))"

text \<open>\<open>split_once('~')\<close> with the local volume in front.\<close>

definition is_local_uid_str :: "string \<Rightarrow> bool" where
  "is_local_uid_str s = (CHR ''~'' \<in> set s \<and> takeWhile (\<lambda>c. c \<noteq> CHR ''~'') s = LOCAL_VOLUME)"

definition op_uid :: "pending_op_view \<Rightarrow> string + uid" where
  "op_uid v = (case parse_node_uid (v_uid v) of Some u \<Rightarrow> Inr u | None \<Rightarrow> Inl ''pending op has an unparseable uid'')"

definition op_parent :: "pending_op_view \<Rightarrow> string + uid" where
  "op_parent v = (case v_parent_uid v of
      None \<Rightarrow> Inl ''pending op has no parent authority''
    | Some p \<Rightarrow> (case parse_node_uid p of Some u \<Rightarrow> Inr u | None \<Rightarrow> Inl ''pending op has an unparseable parent''))"

fun dedup :: "'a list \<Rightarrow> 'a list" where
  "dedup (x # y # xs) = (if x = y then dedup (y # xs) else x # dedup (y # xs))"
| "dedup xs = xs"

definition only :: "string + uid \<Rightarrow> string + uid list" where
  "only r = (case r of Inl e \<Rightarrow> Inl e | Inr u \<Rightarrow> Inr [u])"

definition rename_source :: "pending_op_view \<Rightarrow> string + uid list" where
  "rename_source v = (case v_meta_json v of
      None \<Rightarrow> Inr []
    | Some (RenameMeta p _) \<Rightarrow> (case parse_node_uid p of
          Some u \<Rightarrow> Inr [u] | None \<Rightarrow> Inl ''rename op has an unparseable original parent'')
    | Some (OtherMeta _) \<Rightarrow> Inl ''invalid rename metadata'')"

definition pending_op_authorities :: "pending_op_view \<Rightarrow> string + uid list" where
  "pending_op_authorities v = (case v_kind v of
      OP_TRASH \<Rightarrow>
        (if is_local_uid_str (v_uid v) then
           (case v_parent_uid v of
              Some folder \<Rightarrow> (if \<not> is_local_uid_str folder then only (op_parent v) else Inr [])
            | None \<Rightarrow> Inr [])
         else only (op_uid v))
    | OP_REVISION \<Rightarrow> only (op_uid v)
    | OP_CREATE \<Rightarrow> only (op_parent v)
    | OP_MKDIR \<Rightarrow> only (op_parent v)
    | OP_RENAME \<Rightarrow>
        (case op_uid v of Inl e \<Rightarrow> Inl e | Inr u \<Rightarrow>
        (case rename_source v of Inl e \<Rightarrow> Inl e | Inr src \<Rightarrow>
        (case op_parent v of Inl e \<Rightarrow> Inl e | Inr p \<Rightarrow> Inr (dedup (u # src @ [p])))))
    | OP_OTHER k \<Rightarrow> Inl (''unknown pending op kind '' @ k))"

datatype drain_error = NameHeld string | ProtonFailed proton_error string | OtherFailed string

datatype disposition = Applied | AccessDeferred | AuthorityUnknown uid

fun admit :: "(uid \<Rightarrow> write_authority) \<Rightarrow> uid list \<Rightarrow> disposition" where
  "admit authority_of [] = Applied"
| "admit authority_of (a # as) = (case authority_of a of
      Writable \<Rightarrow> admit authority_of as
    | Denied \<Rightarrow> AccessDeferred
    | AuthUnknown \<Rightarrow> AuthorityUnknown a)"

text \<open>\<open>run\<close> performs the op on the database; it is called only when every authority allows it.\<close>

definition run_authorized_drain ::
  "pending_op_view \<Rightarrow> (uid \<Rightarrow> write_authority) \<Rightarrow> (db \<Rightarrow> (drain_error + unit) \<times> db) \<Rightarrow> db \<Rightarrow>
   (drain_error + disposition) \<times> db" where
  "run_authorized_drain v authority_of run d = (case pending_op_authorities v of
      Inl e \<Rightarrow> (Inl (OtherFailed e), d)
    | Inr as \<Rightarrow> (case admit authority_of as of
          Applied \<Rightarrow> (case run d of (Inl e, d') \<Rightarrow> (Inl e, d') | (Inr _, d') \<Rightarrow> (Inr Applied, d'))
        | x \<Rightarrow> (Inr x, d)))"

section \<open>What a failure says\<close>

datatype sync_issue = Quota | IssueAccess | Missing | Limit | Rejected | IssueUnknown

fun issue_str :: "sync_issue \<Rightarrow> string" where
  "issue_str Quota = ''quota''"
| "issue_str IssueAccess = ''access''"
| "issue_str Missing = ''missing''"
| "issue_str Limit = ''limit''"
| "issue_str Rejected = ''rejected''"
| "issue_str IssueUnknown = ''unknown''"

definition parse_issue :: "string \<Rightarrow> sync_issue" where
  "parse_issue s = (if s = ''quota'' then Quota else if s = ''access'' then IssueAccess
     else if s = ''missing'' then Missing else if s = ''limit'' then Limit
     else if s = ''rejected'' then Rejected else IssueUnknown)"

definition issue_of_code :: "response_code \<Rightarrow> sync_issue option" where
  "issue_of_code c = (if c \<in> {InsufficientQuota, InsufficientSpace, InsufficientVolumeQuota} then Some Quota
     else if c \<in> {Forbidden, NotEnoughPermissions} then Some IssueAccess
     else if c = DoesNotExist then Some Missing
     else if c \<in> {TooManyChildren, NestingTooDeep} then Some Limit
     else if c \<in> {InvalidValue, IncompatibleState} then Some Rejected
     else None)"

fun refusal :: "drain_error \<Rightarrow> sync_issue option option" where
  "refusal (ProtonFailed e _) =
     (if is_network_error e \<or> session_revoked e then None
      else (case e of Api code _ \<Rightarrow> Some (issue_of_code code) | _ \<Rightarrow> Some None))"
| "refusal _ = None"

fun waits_for_name :: "drain_error \<Rightarrow> bool" where
  "waits_for_name (NameHeld _) = True"
| "waits_for_name _ = False"

fun error_text :: "drain_error \<Rightarrow> string" where
  "error_text (NameHeld n) = n @ '' is still held by a node whose trash or rename is queued''"
| "error_text (ProtonFailed _ t) = t"
| "error_text (OtherFailed t) = t"

definition record_issue :: "db \<Rightarrow> pending_op_view \<Rightarrow> sync_issue option \<Rightarrow> db" where
  "record_issue d v issue = set_op_issue d (v_id v) (map_option issue_str issue)"

text \<open>The branch of \<open>run_pending_drain\<close> for a failed attempt; \<open>creating\<close> is \<open>creating_named\<close>.\<close>

definition attempt_failed :: "db \<Rightarrow> pending_op_view \<Rightarrow> drain_error \<Rightarrow> millis \<Rightarrow> bool \<Rightarrow> db" where
  "attempt_failed d v e now creating =
     (let backoff = drain_backoff (v_attempts v + 1) (waits_for_name e) (v_id v);
          d1 = record_attempt_failure d (v_id v) (v_kind v) (error_text e) (now + int backoff);
          d2 = (case v_name v of
                  Some name \<Rightarrow> (if waits_for_name e \<and> \<not> creating then wake_ops_waiting_for d1 name else d1)
                | None \<Rightarrow> d1);
          d3 = (case refusal e of Some issue \<Rightarrow> record_issue d2 v issue | None \<Rightarrow> d2);
          d4 = snd (retry_if_retargeted d3 (v_id v) (v_parent_uid v) (v_name v) (v_blob_path v))
      in release_op_claim d4 (v_id v))"

section \<open>Deferrals\<close>

datatype access_deferral = NotWritable | AuthorityRefetched | RemoteUnreachable

fun failure_reason :: "access_deferral \<Rightarrow> string" where
  "failure_reason NotWritable = ''the share has not been writable''"
| "failure_reason AuthorityRefetched =
     ''the node has been missing from the local tree, and re-reading it from the remote has not restored it''"
| "failure_reason RemoteUnreachable =
     ''the node has been missing from the local tree and the remote has been unreachable''"

text \<open>\<open>now2\<close> is the clock when the failure is recorded.\<close>

definition defer_for_access :: "db \<Rightarrow> pending_op_view \<Rightarrow> access_deferral \<Rightarrow> millis \<Rightarrow> millis \<Rightarrow> db" where
  "defer_for_access d v reason now now2 =
     (let (since, d1) = defer_op_for_access d (v_id v) now (now + DRAIN_ACCESS_RECHECK);
          blocked = max (now - since) 0;
          d2 = (if blocked \<ge> DRAIN_ACCESS_DEFER_LIMIT then
                  (let d3 = record_op_failure d1 (v_id v)
                         (failure_reason reason @ '' for '' @ show_int (blocked div 1000) @ ''s. The staged bytes are kept.'')
                         (now2 + int (access_backoff (v_attempts v + 1)))
                   in if reason \<noteq> RemoteUnreachable then record_issue d3 v (Some IssueAccess) else d3)
                else d1)
      in release_op_claim d2 (v_id v))"

definition resolve_unknown_authority ::
  "db \<Rightarrow> pending_op_view \<Rightarrow> uid \<Rightarrow> (proton_error + node option) \<Rightarrow> millis \<Rightarrow> millis \<Rightarrow> db" where
  "resolve_unknown_authority d v authority fetched now now2 =
     (let folder_gone = (case fetched of Inr None \<Rightarrow> True | Inr (Some n) \<Rightarrow> trashed n | Inl _ \<Rightarrow> False)
      in if v_kind v = OP_TRASH \<and> is_local_uid_str (v_uid v) \<and> folder_gone \<and> parse_node_uid (v_uid v) \<noteq> None
         then snd (complete_trash_op d (v_id v) (v_uid v))
         else (case fetched of
             Inr (Some n) \<Rightarrow>
               defer_for_access (case upsert_node_tx d n of Some d' \<Rightarrow> d' | None \<Rightarrow> d) v AuthorityRefetched now now2
           | Inr None \<Rightarrow>
               (let d1 = record_op_failure d (v_id v)
                      (authority @ '' no longer exists remotely, so this operation has nothing to apply to. The staged bytes are kept.'')
                      (now2 + int (access_backoff (v_attempts v + 1)))
                in release_op_claim (record_issue d1 v (Some Missing)) (v_id v))
           | Inl _ \<Rightarrow> defer_for_access d v RemoteUnreachable now now2))"

section \<open>One turn of a worker\<close>

record turn =
  tn_paused :: bool
  tn_now :: millis
  tn_later :: millis
  tn_live :: "uid \<Rightarrow> access list"
  tn_fetch :: "uid \<Rightarrow> proton_error + node option"
  tn_creating :: bool
  tn_newer :: bool
  tn_clock :: nat
  tn_run :: "pending_op_view \<Rightarrow> db \<Rightarrow> (drain_error + unit) \<times> db"

text \<open>
  \<open>run_pending_drain\<close> between two looks at the stop flag: claim, check, apply, and record what came of
  it. The second component is whether a worker claimed an op. A worker without one sleeps
  (\<open>wait_for_drain_work_or_due\<close>); its idle chores are left out. A failure that Proton answered is
  reported to the link as well; \<open>tn_newer\<close> and \<open>tn_clock\<close> are what \<open>lost_link\<close> reads.
\<close>

definition report_failure :: "drain_error \<Rightarrow> bool \<Rightarrow> nat \<Rightarrow> link \<Rightarrow> link" where
  "report_failure e newer now k = (case e of ProtonFailed p _ \<Rightarrow> snd (lost_link p newer now k) | _ \<Rightarrow> k)"

definition drain_turn :: "turn \<Rightarrow> link \<Rightarrow> link \<times> bool" where
  "drain_turn tn k =
     (if \<not> (lk_online k \<and> \<not> tn_paused tn) then (k, False)
      else (case claim_next_due_op (lk_db k) (tn_now tn) of
              (None, d1) \<Rightarrow> (k\<lparr>lk_db := d1\<rparr>, False)
            | (Some v, d1) \<Rightarrow>
                (case run_authorized_drain v (\<lambda>u. uid_write_authority d1 u (tn_live tn u)) (tn_run tn v) d1 of
                   (Inl e, d2) \<Rightarrow>
                     (report_failure e (tn_newer tn) (tn_clock tn)
                        (k\<lparr>lk_db := attempt_failed d2 v e (tn_later tn) (tn_creating tn)\<rparr>), True)
                 | (Inr AccessDeferred, d2) \<Rightarrow>
                     (k\<lparr>lk_db := defer_for_access d2 v NotWritable (tn_later tn) (tn_later tn)\<rparr>, True)
                 | (Inr (AuthorityUnknown a), d2) \<Rightarrow>
                     (k\<lparr>lk_db := resolve_unknown_authority d2 v a (tn_fetch tn a) (tn_later tn) (tn_later tn)\<rparr>, True)
                 | (Inr Applied, d2) \<Rightarrow>
                     (k\<lparr>lk_db := release_op_claim (clear_op_access_deferral d2 (v_id v)) (v_id v)\<rparr>, True))))"

section \<open>Parked creates\<close>

datatype park_verdict = ParkKeep | ParkRelease | ParkDrop

definition park_verdict :: "millis \<Rightarrow> millis \<Rightarrow> bool \<Rightarrow> bool \<Rightarrow> park_verdict" where
  "park_verdict created_at now is_open listed =
     (let age = now - created_at
      in if is_open then ParkKeep
         else if \<not> listed then (if age < PARK_UNLISTED_GRACE_MS then ParkKeep else ParkDrop)
         else if age < PARK_EXPIRY_MS then ParkKeep else ParkRelease)"

definition node_by_uid :: "db \<Rightarrow> uid \<Rightarrow> node option" where
  "node_by_uid d u = Option.bind (find (\<lambda>r. nr_uid r = u \<and> nr_node_json r \<noteq> None) (nodes d)) (node_now d)"

definition sweep_one :: "millis \<Rightarrow> (uid \<Rightarrow> bool) \<Rightarrow> pending_op_view \<Rightarrow> db \<Rightarrow> db" where
  "sweep_one now is_open v d =
     (if parse_node_uid (v_uid v) = None then d
      else (case park_verdict (v_created_at v) now (is_open (v_uid v)) (node_by_uid d (v_uid v) \<noteq> None) of
              ParkKeep \<Rightarrow> d
            | ParkDrop \<Rightarrow> snd (delete_ops_for_uid d (v_uid v))
            | ParkRelease \<Rightarrow> snd (set_create_hold d (v_uid v) False)))"

definition sweep_parked_creates :: "db \<Rightarrow> millis \<Rightarrow> (uid \<Rightarrow> bool) \<Rightarrow> db" where
  "sweep_parked_creates d now is_open = fold (sweep_one now is_open) (parked_create_ops d) d"

section \<open>Sending a queued change\<close>

record baseline =
  bl_mtime :: int
  bl_size :: int
  bl_hash :: "string option"
  bl_revision_id :: "string option"

definition revision_changed :: "baseline \<Rightarrow> node \<Rightarrow> bool" where
  "revision_changed base n = (case (bl_revision_id base, node_revision_id n) of
      (Some b, Some r) \<Rightarrow> b \<noteq> r
    | _ \<Rightarrow> modification_time n \<noteq> bl_mtime base \<or> node_size n \<noteq> bl_size base)"

definition is_own_self_supersede :: "bool \<Rightarrow> string option \<Rightarrow> string option \<Rightarrow> bool" where
  "is_own_self_supersede complete remote_rev own_rev = (complete \<and> remote_rev \<noteq> None \<and> remote_rev = own_rev)"

definition moved_elsewhere :: "uid \<Rightarrow> string option \<Rightarrow> node \<Rightarrow> uid \<Rightarrow> string \<Rightarrow> bool" where
  "moved_elsewhere original_parent original n parent name = (case original of
      None \<Rightarrow> False
    | Some on \<Rightarrow> \<not> (parent_uid n = Some original_parent \<and> node_name n = on) \<and>
        \<not> (parent_uid n = Some parent \<and> node_name n = name))"

definition eq_ignore_ascii_case :: "string \<Rightarrow> string \<Rightarrow> bool" where
  "eq_ignore_ascii_case a b = (map ascii_lower a = map ascii_lower b)"

definition holds_bytes :: "node \<Rightarrow> string \<Rightarrow> bool" where
  "holds_bytes n sha = (case node_kind n of File _ _ _ (Some h) \<Rightarrow> eq_ignore_ascii_case h sha | _ \<Rightarrow> False)"

definition adoptable :: "bool \<Rightarrow> node \<Rightarrow> millis \<Rightarrow> string list \<Rightarrow> bool" where
  "adoptable is_dir twin first_sent shas =
     (if min I64_MAX (max I64_MIN (creation_time twin * 1000)) < first_sent - ADOPT_WINDOW_MS then False
      else (case node_kind twin of
              Folder \<Rightarrow> is_dir
            | File _ sz _ _ \<Rightarrow> \<not> is_dir \<and> (sz = Some 0 \<or> list_ex (holds_bytes twin) shas)))"

definition first_sent :: "db \<Rightarrow> pending_op_view \<Rightarrow> millis" where
  "first_sent d v = (case create_first_sent d (v_id v) of Some at \<Rightarrow> max at (v_created_at v) | None \<Rightarrow> v_created_at v)"

definition create_sent_digests :: "db \<Rightarrow> op_id \<Rightarrow> string option \<Rightarrow> string list" where
  "create_sent_digests d i current = create_sent d i @ (case current of Some s \<Rightarrow> [s] | None \<Rightarrow> [])"

definition keeps_landed_upload :: "bool \<Rightarrow> nat \<Rightarrow> nat \<Rightarrow> bool" where
  "keeps_landed_upload pinned len budget = (pinned \<or> budget = 0 \<or> len \<le> budget div LANDED_KEEP_SHARE)"

text \<open>\<open>creating\<close> are the creates on the wire: op, folder and name.\<close>

definition name_is_held :: "db \<Rightarrow> (op_id \<times> uid \<times> string) list \<Rightarrow> pending_op_view \<Rightarrow> uid option \<Rightarrow> string \<Rightarrow> bool" where
  "name_is_held d creating v parent name =
     (if has_pending_trash_named d name then True
      else if v_attempts v \<ge> NAME_HOLD_ATTEMPTS then False
      else list_ex (\<lambda>(i, p, n). i \<noteq> v_id v \<and> Some p = parent \<and> n = name) creating \<or> has_pending_move_from d name)"

definition creating_named :: "(op_id \<times> uid \<times> string) list \<Rightarrow> pending_op_view \<Rightarrow> string \<Rightarrow> bool" where
  "creating_named creating v name = list_ex (\<lambda>(i, _, n). i \<noteq> v_id v \<and> n = name) creating"

end
