(* ===== verification/Drain_Spec.thy ===== *)
theory Drain_Spec
  imports Drain
begin

text \<open>
  The properties of the drain: a failed attempt keeps the write it was for, nothing is sent that an
  authority has not allowed, the waits are bounded and agree with the claims, and a queued revision
  overwrites only what it was based on.
\<close>

section \<open>A failed attempt\<close>

text \<open>What identifies a queued write, and a step of the failure path as a map over the rows.\<close>

definition same_write :: "op_row \<Rightarrow> op_row \<Rightarrow> bool" where
  "same_write p q = (po_id q = po_id p \<and> po_kind q = po_kind p \<and> po_uid q = po_uid p \<and> po_lid q = po_lid p \<and>
     po_parent_uid q = po_parent_uid p \<and> po_parent_lid q = po_parent_lid p \<and> po_name q = po_name p \<and>
     po_blob_path q = po_blob_path p \<and> po_meta_json q = po_meta_json p \<and> po_sent_sha1 q = po_sent_sha1 p \<and>
     po_sent_to q = po_sent_to p)"

definition gentle :: "op_id \<Rightarrow> int \<Rightarrow> op_row \<Rightarrow> op_row \<Rightarrow> bool" where
  "gentle i n p q = (same_write p q \<and> po_attempts q = po_attempts p + (if po_id p = i then n else 0) \<and>
     (po_id p \<noteq> i \<longrightarrow> (\<exists>t. q = p\<lparr>po_next_attempt_at := t\<rparr>)))"

definition gently :: "op_id \<Rightarrow> int \<Rightarrow> db \<Rightarrow> db \<Rightarrow> bool" where
  "gently i n d d' = (\<exists>F. (\<forall>p \<in> set (pending_op d). gentle i n p (F p)) \<and> pending_op d' = map F (pending_op d))"

lemma same_write_trans: "same_write p q \<Longrightarrow> same_write q r \<Longrightarrow> same_write p r"
  by (simp add: same_write_def)

lemma gentle_trans:
  assumes "gentle i n p q" and "gentle i m q r"
  shows "gentle i (n + m) p r"
proof -
  have pq: "same_write p q" and qr: "same_write q r" using assms by (simp_all add: gentle_def)
  then have id: "po_id q = po_id p" by (simp add: same_write_def)
  have "\<exists>t. r = p\<lparr>po_next_attempt_at := t\<rparr>" if ne: "po_id p \<noteq> i"
  proof -
    obtain s where "q = p\<lparr>po_next_attempt_at := s\<rparr>" using assms(1) ne unfolding gentle_def by blast
    moreover have "po_id q \<noteq> i" using ne id by simp
    then obtain t where "r = q\<lparr>po_next_attempt_at := t\<rparr>" using assms(2) unfolding gentle_def by blast
    ultimately show ?thesis by (intro exI [of _ t]) simp
  qed
  with assms id same_write_trans [OF pq qr] show ?thesis by (simp add: gentle_def)
qed

lemma gently_trans: "gently i n d e \<Longrightarrow> gently i m e f \<Longrightarrow> gently i (n + m) d f"
  unfolding gently_def
proof (elim exE conjE)
  fix F G
  assume F: "\<forall>p \<in> set (pending_op d). gentle i n p (F p)" and e: "pending_op e = map F (pending_op d)"
    and G: "\<forall>p \<in> set (pending_op e). gentle i m p (G p)" and f: "pending_op f = map G (pending_op e)"
  have "gentle i (n + m) p (G (F p))" if "p \<in> set (pending_op d)" for p
    using that F G e gentle_trans [of i n p "F p" m "G (F p)"] by simp
  then show "\<exists>H. (\<forall>p \<in> set (pending_op d). gentle i (n + m) p (H p)) \<and> pending_op f = map H (pending_op d)"
    using e f by (intro exI [of _ "\<lambda>p. G (F p)"]) simp
qed

lemma gently_update:
  assumes "\<And>p. p \<in> set (pending_op d) \<Longrightarrow> P p \<Longrightarrow> gentle i n p (f p)"
    and "\<And>p. p \<in> set (pending_op d) \<Longrightarrow> \<not> P p \<Longrightarrow> gentle i n p p"
  shows "gently i n d (d\<lparr>pending_op := update_where P f (pending_op d)\<rparr>)"
  unfolding gently_def update_where_def
  by (rule exI [of _ "\<lambda>p. if P p then f p else p"]) (use assms in simp)

lemma gentle_keep: "po_id p \<noteq> i \<Longrightarrow> gentle i n p p"
  by (auto simp: gentle_def same_write_def intro: exI [of _ "po_next_attempt_at p"])

lemma gentle_refl: "gentle i 0 p p"
  by (cases "po_id p = i") (simp add: gentle_def same_write_def, rule gentle_keep)

lemma gentle_delay: "gentle i 0 p (p\<lparr>po_next_attempt_at := t\<rparr>)"
  by (auto simp: gentle_def same_write_def)

lemma gently_refl: "gently i 0 d d"
  unfolding gently_def by (rule exI [of _ "\<lambda>p. p"]) (simp add: gentle_refl)

lemma gently_wake: "gently i 0 d (wake_ops_waiting_for d name)"
  unfolding wake_ops_waiting_for_def by (rule gently_update) (rule gentle_delay, rule gentle_refl)

lemma gently_issue: "gently i 0 d (set_op_issue d i issue)"
  unfolding set_op_issue_def
  by (rule gently_update) (simp add: gentle_def same_write_def, rule gentle_refl)

lemma gently_retarget: "gently i 0 d (snd (retry_if_retargeted d i po nm bl))"
  unfolding retry_if_retargeted_def Let_def snd_conv by (rule gently_update) (rule gentle_delay, rule gentle_refl)

text \<open>Whether a rename on the wire has been replaced by a newer one, from a row's identity alone.\<close>

definition replaced_by :: "op_row list \<Rightarrow> op_row \<Rightarrow> op_row \<Rightarrow> bool" where
  "replaced_by ps p q = (q \<in> set ps \<and> (po_uid q = po_uid p \<or> (po_lid q \<noteq> None \<and> po_lid q = po_lid p)) \<and>
     po_kind q = OP_RENAME \<and> po_id q > po_id p)"

definition replaced_in :: "op_row list \<Rightarrow> op_id \<Rightarrow> bool" where
  "replaced_in ps i = (\<exists>p \<in> set ps. po_id p = i \<and> po_kind p = OP_RENAME \<and> (\<exists>q. replaced_by ps p q))"

lemma replaced_in_gently:
  assumes "gently i n d d'"
  shows "replaced_in (pending_op d') j = replaced_in (pending_op d) j"
proof -
  from assms obtain F where F: "\<forall>p \<in> set (pending_op d). same_write p (F p)" "pending_op d' = map F (pending_op d)"
    unfolding gently_def gentle_def by blast
  then have "po_id (F p) = po_id p \<and> po_kind (F p) = po_kind p \<and> po_uid (F p) = po_uid p \<and> po_lid (F p) = po_lid p"
    if "p \<in> set (pending_op d)" for p
    using that by (simp add: same_write_def)
  then show ?thesis
    unfolding replaced_in_def replaced_by_def F(2) by (auto simp del: not_None_eq)
qed

lemma drop_replaced_fst: "fst (drop_replaced_rename d i) = replaced_in (pending_op d) i"
  by (auto simp: drop_replaced_rename_def Let_def replaced_in_def replaced_by_def)

lemma drop_replaced_none:
  assumes "\<not> replaced_in (pending_op d) i"
  shows "drop_replaced_rename d i = (False, d)"
proof -
  have "\<not> fst (drop_replaced_rename d i)" using assms by (simp add: drop_replaced_fst)
  then show ?thesis
    by (auto simp: drop_replaced_rename_def Let_def delete_where_def filter_id_conv)
qed

lemma gently_record:
  assumes "\<not> replaced_in (pending_op d) i" and "\<And>p. p \<in> set (pending_op d) \<Longrightarrow> po_id p = i \<Longrightarrow> po_kind p = k"
  shows "gently i 1 d (record_attempt_failure d i k err next)"
proof -
  have "record_attempt_failure d i k err next = d\<lparr>pending_op := update_where (\<lambda>p. po_id p = i \<and> po_kind p = k)
      (\<lambda>p. p\<lparr>po_attempts := po_attempts p + 1, po_last_error := Some err, po_next_attempt_at := next,
             po_access_deferred_since := 0\<rparr>) (pending_op d)\<rparr>"
    by (simp add: record_attempt_failure_def record_failure_def drop_replaced_none [OF assms(1)])
  moreover have "gently i 1 d \<dots>"
    by (rule gently_update) (simp add: gentle_def same_write_def, rule gentle_keep, use assms(2) in blast)
  ultimately show ?thesis by simp
qed

lemma gently_release:
  assumes "\<not> replaced_in (pending_op d) i"
  shows "gently i 0 d (release_op_claim d i)"
    and "p' \<in> set (pending_op (release_op_claim d i)) \<Longrightarrow> po_id p' = i \<Longrightarrow> po_claimed_at p' = 0"
proof -
  have rel: "release_op_claim d i = d\<lparr>pending_op := update_where (\<lambda>p. po_id p = i) (\<lambda>p. p\<lparr>po_claimed_at := 0\<rparr>) (pending_op d)\<rparr>"
    by (simp add: release_op_claim_def drop_replaced_none [OF assms])
  show "gently i 0 d (release_op_claim d i)"
    unfolding rel by (rule gently_update) (simp add: gentle_def same_write_def, rule gentle_refl)
  show "p' \<in> set (pending_op (release_op_claim d i)) \<Longrightarrow> po_id p' = i \<Longrightarrow> po_claimed_at p' = 0"
  proof -
    assume "p' \<in> set (pending_op (release_op_claim d i))" and id: "po_id p' = i"
    then have "p' \<in> (\<lambda>p. p\<lparr>po_claimed_at := 0\<rparr>) ` {p \<in> set (pending_op d). po_id p = i} \<union> {p \<in> set (pending_op d). po_id p \<noteq> i}"
      unfolding rel by (simp add: set_update_where)
    then show "po_claimed_at p' = 0" using id by (elim UnE imageE) simp_all
  qed
qed

text \<open>The failure path after the attempt is recorded.\<close>

lemma gently_after_record:
  assumes "\<not> replaced_in (pending_op e) (v_id v)"
    and "d' = attempt_failed d v err now creating"
    and "e = record_attempt_failure d (v_id v) (v_kind v) (error_text err)
           (now + int (drain_backoff (v_attempts v + 1) (waits_for_name err) (v_id v)))"
  shows "gently (v_id v) 0 e d'"
    and "p' \<in> set (pending_op d') \<Longrightarrow> po_id p' = v_id v \<Longrightarrow> po_claimed_at p' = 0"
proof -
  let ?i = "v_id v"
  let ?d2 = "case v_name v of Some name \<Rightarrow> (if waits_for_name err \<and> \<not> creating then wake_ops_waiting_for e name else e) | None \<Rightarrow> e"
  let ?d3 = "case refusal err of Some issue \<Rightarrow> record_issue ?d2 v issue | None \<Rightarrow> ?d2"
  let ?d4 = "snd (retry_if_retargeted ?d3 ?i (v_parent_uid v) (v_name v) (v_blob_path v))"
  have d': "d' = release_op_claim ?d4 ?i" unfolding assms(2,3) attempt_failed_def Let_def by simp
  have g2: "gently ?i 0 e ?d2" using gently_wake gently_refl by (simp split: option.split)
  have g3: "gently ?i 0 ?d2 ?d3"
    by (cases "refusal err") (simp_all add: record_issue_def gently_issue gently_refl)
  have g: "gently ?i 0 e ?d4"
    using gently_trans [OF gently_trans [OF g2 g3] gently_retarget] by simp
  then have live: "\<not> replaced_in (pending_op ?d4) ?i" using assms(1) replaced_in_gently by blast
  show "gently ?i 0 e d'"
    unfolding d' using gently_trans [OF g gently_release(1) [OF live]] by simp
  show "p' \<in> set (pending_op d') \<Longrightarrow> po_id p' = ?i \<Longrightarrow> po_claimed_at p' = 0"
    unfolding d' by (rule gently_release(2) [OF live])
qed

lemma gently_row: "gently i n d d' \<Longrightarrow> p \<in> set (pending_op d) \<Longrightarrow> \<exists>p' \<in> set (pending_op d'). gentle i n p p'"
  unfolding gently_def by auto



section \<open>Nothing is sent without authority\<close>

lemma admit_Applied: "admit f as = Applied \<longleftrightarrow> (\<forall>a \<in> set as. f a = Writable)"
  by (induction as) (auto split: write_authority.split)

lemma admit_stops: "admit f as \<noteq> Applied \<Longrightarrow> \<exists>a \<in> set as. f a \<noteq> Writable \<and>
    admit f as = (case f a of Denied \<Rightarrow> AccessDeferred | _ \<Rightarrow> AuthorityUnknown a)"
  by (induction as) (auto split: write_authority.splits)

lemma set_dedup: "set (dedup xs) = set xs"
  by (induction xs rule: dedup.induct) auto

text \<open>The folders and nodes an op's kind makes it answer to.\<close>

lemma rename_authorities:
  assumes "v_kind v = OP_RENAME" and "pending_op_authorities v = Inr as"
  shows "\<exists>u p. parse_node_uid (v_uid v) = Some u \<and> Option.bind (v_parent_uid v) parse_node_uid = Some p \<and>
    {u, p} \<subseteq> set as \<and> (\<forall>from name. v_meta_json v = Some (RenameMeta from name) \<longrightarrow>
      (\<exists>s \<in> set as. parse_node_uid from = Some s))"
  using assms by (auto simp: pending_op_authorities_def op_uid_def op_parent_def rename_source_def set_dedup
      split: option.splits sum.splits meta_json.splits)



section \<open>A turn gives back what it took\<close>

definition claims :: "db \<Rightarrow> op_id set" where
  "claims d = po_id ` {p \<in> set (pending_op d). claimed p}"

lemma claims_update:
  assumes "\<And>p. P p \<Longrightarrow> po_id (f p) = po_id p \<and> (claimed (f p) \<longrightarrow> claimed p)"
  shows "claims (d\<lparr>pending_op := update_where P f (pending_op d)\<rparr>) \<subseteq> claims d"
  using assms by (auto simp: claims_def set_update_where)

lemma claims_delete: "claims (d\<lparr>pending_op := delete_where P (pending_op d)\<rparr>) \<subseteq> claims d"
  by (auto simp: claims_def)

lemma claims_replaced: "claims (snd (drop_replaced_rename d i)) \<subseteq> claims d"
  unfolding drop_replaced_rename_def Let_def snd_conv by (rule claims_delete)

lemma claims_failure: "claims (record_failure d i k e t) \<subseteq> claims d"
proof -
  have "claims (d1\<lparr>pending_op := update_where P (\<lambda>p. p\<lparr>po_attempts := po_attempts p + 1, po_last_error := Some e,
      po_next_attempt_at := t, po_access_deferred_since := 0\<rparr>) (pending_op d1)\<rparr>) \<subseteq> claims d1" for P d1
    by (rule claims_update) (simp add: claimed_def)
  then show ?thesis
    using claims_replaced [of d i] unfolding record_failure_def
    by (cases "drop_replaced_rename d i") (auto simp del: subsetI dest: subset_trans)
qed

lemma claims_release:
  assumes "queue_inv d"
  shows "claims (release_op_claim d i) \<subseteq> claims d - {i}"
proof (cases "replaced_in (pending_op d) i")
  case False
  then have "claims (release_op_claim d i) \<subseteq> claims d"
    by (auto simp: release_op_claim_def drop_replaced_none claims_def set_update_where claimed_def)
  moreover have "i \<notin> claims (release_op_claim d i)"
    using gently_release(2) [OF False] by (auto simp: claims_def claimed_def)
  ultimately show ?thesis by blast
next
  case True
  then have d': "release_op_claim d i = snd (drop_replaced_rename d i)"
    using drop_replaced_fst [of d i] by (cases "drop_replaced_rename d i") (simp add: release_op_claim_def)
  have "\<not> op_exists (snd (drop_replaced_rename d i)) i"
  proof
    assume "op_exists (snd (drop_replaced_rename d i)) i"
    then obtain p where p: "p \<in> set (pending_op d)" "po_id p = i" "\<not> (po_kind p = OP_RENAME \<and> (\<exists>q. replaced_by (pending_op d) p q))"
      unfolding op_exists_def drop_replaced_rename_def replaced_by_def by (auto simp: Let_def)
    from True obtain p' where "p' \<in> set (pending_op d)" "po_id p' = i" "po_kind p' = OP_RENAME \<and> (\<exists>q. replaced_by (pending_op d) p' q)"
      unfolding replaced_in_def by blast
    moreover from this p have "p' = p" using wf_queue_same [of d p' p] assms by (simp add: queue_inv_def)
    ultimately show False using p(3) by blast
  qed
  then have "i \<notin> claims (snd (drop_replaced_rename d i))" by (auto simp: claims_def op_exists_def)
  with claims_replaced [of d i] show ?thesis unfolding d' by blast
qed

text \<open>What a step of the drain's bookkeeping keeps: the invariant, and no claim is added.\<close>

definition tidy :: "db \<Rightarrow> db \<Rightarrow> bool" where
  "tidy d d' = (queue_inv d \<longrightarrow> queue_inv d' \<and> claims d' \<subseteq> claims d)"

lemma tidy_refl: "tidy d d"
  by (simp add: tidy_def)

lemma tidy_trans [trans]: "tidy d e \<Longrightarrow> tidy e f \<Longrightarrow> tidy d f"
  by (auto simp: tidy_def)

lemma tidy_update:
  assumes "\<And>p. po_id (f p) = po_id p \<and> po_uid (f p) = po_uid p \<and> po_lid (f p) = po_lid p \<and>
     (po_claimed_at (f p) = po_claimed_at p \<or> po_claimed_at (f p) = 0)"
  shows "tidy d (d\<lparr>pending_op := update_where P f (pending_op d)\<rparr>)"
  using queue_inv_touch [of d f P] claims_update [of P f d] assms unfolding tidy_def claimed_def by metis

lemma tidy_steps:
  "tidy d (record_failure d i k err t)" "tidy d (wake_ops_waiting_for d name)" "tidy d (set_op_issue d i issue)"
  "tidy d (snd (retry_if_retargeted d i po nm bl))" "tidy d (snd (defer_op_for_access d i now next))"
  "tidy d (clear_op_access_deferral d i)"
proof -
  show "tidy d (record_failure d i k err t)"
    by (simp add: tidy_def queue_inv_failure claims_failure)
qed (auto simp: wake_ops_waiting_for_def set_op_issue_def retry_if_retargeted_def defer_op_for_access_def
    clear_op_access_deferral_def Let_def intro!: tidy_update)

lemma tidy_same_queue:
  assumes "pending_op d' = pending_op d" and "pending_seq d' = pending_seq d"
  shows "tidy d d'"
  using assms queue_inv_cong [of d' d] by (simp add: tidy_def claims_def)

lemma tidy_complete_trash: "tidy d (snd (complete_trash_op d i u))"
proof -
  let ?e = "(drop_node_row d u)\<lparr>pending_op := delete_where (\<lambda>p. po_id p = i) (pending_op (drop_node_row d u))\<rparr>"
  have "tidy d (drop_node_row d u)" by (rule tidy_same_queue) (simp_all add: drop_node_row_def Let_def)
  also have "tidy (drop_node_row d u) ?e"
    by (simp add: tidy_def queue_inv_delete claims_delete)
  finally have "tidy d ?e" .
  then show ?thesis
    using tidy_trans [OF _ tidy_steps(2)] by (auto simp: complete_trash_op_def Let_def split: option.split)
qed

lemma complete_trash_gone: "i \<notin> claims (snd (complete_trash_op d i u))"
  by (auto simp: complete_trash_op_def Let_def claims_def wake_ops_waiting_for_def set_update_where split: option.splits)

text \<open>The three endings of a turn that did not apply the op.\<close>

definition settled :: "op_id \<Rightarrow> db \<Rightarrow> db \<Rightarrow> bool" where
  "settled i d d' = (queue_inv d \<longrightarrow> queue_inv d' \<and> claims d' \<subseteq> claims d - {i})"

lemma settled_release: "tidy d e \<Longrightarrow> settled i d (release_op_claim e i)"
  using claims_release [of e i] queue_inv_release [of e i] by (auto simp: tidy_def settled_def)

lemma tidy_issue: "tidy d (record_issue d v issue)"
  unfolding record_issue_def by (rule tidy_steps)

lemma settled_failed: "settled (v_id v) d (attempt_failed d v err now creating)"
proof -
  let ?d1 = "record_attempt_failure d (v_id v) (v_kind v) (error_text err)
      (now + int (drain_backoff (v_attempts v + 1) (waits_for_name err) (v_id v)))"
  let ?d2 = "case v_name v of Some name \<Rightarrow> (if waits_for_name err \<and> \<not> creating then wake_ops_waiting_for ?d1 name else ?d1) | None \<Rightarrow> ?d1"
  let ?d3 = "case refusal err of Some issue \<Rightarrow> record_issue ?d2 v issue | None \<Rightarrow> ?d2"
  have "tidy d ?d1" unfolding record_attempt_failure_def by (rule tidy_steps)
  also have "tidy ?d1 ?d2" using tidy_steps(2) tidy_refl by (simp split: option.split)
  also have "tidy ?d2 ?d3" by (cases "refusal err") (simp_all add: tidy_refl tidy_issue)
  also have "tidy ?d3 (snd (retry_if_retargeted ?d3 (v_id v) (v_parent_uid v) (v_name v) (v_blob_path v)))"
    by (rule tidy_steps)
  finally show ?thesis unfolding attempt_failed_def Let_def by (rule settled_release)
qed

lemma settled_deferred: "settled (v_id v) d (defer_for_access d v reason now now2)"
proof -
  obtain since d1 where d1: "defer_op_for_access d (v_id v) now (now + DRAIN_ACCESS_RECHECK) = (since, d1)" by fastforce
  then have t1: "tidy d d1" using tidy_steps(5) [of d "v_id v" now "now + DRAIN_ACCESS_RECHECK"] by simp
  have "tidy d1 (record_op_failure d1 i err t)" for i err t unfolding record_op_failure_def by (rule tidy_steps)
  note t2 = tidy_trans [OF t1 this]
  show ?thesis
    unfolding defer_for_access_def d1 Let_def prod.case
    by (rule settled_release) (use t1 t2 tidy_trans [OF t2 tidy_issue] in simp)
qed

lemma settled_trans: "tidy d e \<Longrightarrow> settled i e f \<Longrightarrow> settled i d f"
  by (auto simp: tidy_def settled_def)

lemma tidy_upsert: "tidy d (case upsert_node_tx d n of Some d' \<Rightarrow> d' | None \<Rightarrow> d)"
  using upsert_node_tx_queue [of d n] by (auto intro: tidy_same_queue tidy_refl split: option.split)

lemma settled_unknown: "settled (v_id v) d (resolve_unknown_authority d v a fetched now now2)"
proof -
  have gone: "settled (v_id v) d (snd (complete_trash_op d (v_id v) (v_uid v)))"
    using tidy_complete_trash [of d "v_id v" "v_uid v"] complete_trash_gone [of "v_id v" d "v_uid v"]
    by (auto simp: tidy_def settled_def)
  have missing: "settled (v_id v) d (release_op_claim (record_issue (record_op_failure d (v_id v) err t) v issue) (v_id v))"
    for err t issue
    unfolding record_op_failure_def by (rule settled_release, rule tidy_trans [OF tidy_steps(1) tidy_issue])
  show ?thesis
    using gone missing settled_deferred settled_trans [OF tidy_upsert settled_deferred]
    by (auto simp: resolve_unknown_authority_def Let_def split: sum.split option.split)
qed

lemma report_failure_db [simp]: "lk_db (report_failure e newer now k) = lk_db k"
  by (cases e) (simp_all add: report_failure_def lost_link_def mark_session_expired_def)



section \<open>Waiting\<close>

lemma backoff_base_bounds: "2000 \<le> backoff_base a \<and> backoff_base a \<le> 300000"
  by (simp add: backoff_base_def DRAIN_BACKOFF_MIN_def DRAIN_BACKOFF_MAX_def)

lemma backoff_base_ceiling: "backoff_base a = 300000 \<longleftrightarrow> 8 \<le> a"
proof -
  have "2 ^ n \<le> (2 :: nat) ^ 7" if "n \<le> 7" for n using that by (intro power_increasing) auto
  moreover have "a < 8 \<Longrightarrow> nat a \<le> 7" by linarith
  ultimately have "a < 8 \<Longrightarrow> 2 ^ nat a < (150 :: nat)" by fastforce
  then show ?thesis
    by (cases "8 \<le> a"; cases "0 \<le> a") (auto simp: min_def backoff_base_def DRAIN_BACKOFF_MIN_def DRAIN_BACKOFF_MAX_def)
qed

lemma backoff_spread_bound: "backoff_spread a s \<le> 20"
proof -
  have "w mod 21 < (21 :: 64 word)" for w by (rule word_mod_less_divisor) (simp add: word_gt_0)
  from this [of "of_int s * 0x9E3779B9 + of_int a"] show ?thesis
    by (simp add: backoff_spread_def word_less_nat_alt)
qed

lemma drain_backoff_bounds:
  "2000 \<le> drain_backoff a held s \<and> drain_backoff a held s \<le> 360000"
proof -
  have "backoff_base a * backoff_spread a s div 100 \<le> 300000 * 20 div 100"
    using backoff_base_bounds [of a] backoff_spread_bound [of a s] by (intro div_le_mono mult_le_mono) auto
  with backoff_base_bounds [of a] show ?thesis
    by (simp add: drain_backoff_def DRAIN_BACKOFF_MIN_def)
qed

text \<open>C12. The drain neither spins nor oversleeps. A worker that may claim does not sleep at all exactly
  when there is an op to claim; it never sleeps past a moment at which an op of the queue as it stands
  could be claimed; a sleep shorter than the idle poll ends when one can be; and no sleep is longer
  than the idle poll, which is how long a worker that may not claim sleeps.\<close>

theorem drain_neither_spins_nor_oversleeps:
  "(wait_for_drain_work_or_due d True now = 0 \<longleftrightarrow> fst (claim_next_due_op d now) \<noteq> None) \<and>
   (\<forall>t. now \<le> t \<and> t < now + int (wait_for_drain_work_or_due d True now) \<longrightarrow> fst (claim_next_due_op d t) = None) \<and>
   (wait_for_drain_work_or_due d True now < 30000 \<longrightarrow>
      fst (claim_next_due_op d (now + int (wait_for_drain_work_or_due d True now))) \<noteq> None) \<and>
   wait_for_drain_work_or_due d claiming now \<le> 30000 \<and> wait_for_drain_work_or_due d False now = 30000"
proof (cases "earliest_due_at d")
  case None
  then show ?thesis using earliest_due_agrees_with_claim [of d]
    by (auto simp: wait_for_drain_work_or_due_def idle_wait_def DRAIN_IDLE_POLL_def)
next
  case (Some t)
  let ?w = "wait_for_drain_work_or_due d True now"
  have claim: "fst (claim_next_due_op d s) = None \<longleftrightarrow> s < t" for s
    using earliest_due_agrees_with_claim [of d s] Some by auto
  have w: "?w = min (nat (max (t - now) 0)) 30000" "wait_for_drain_work_or_due d False now = 30000"
    using Some by (simp_all add: wait_for_drain_work_or_due_def idle_wait_def DRAIN_IDLE_POLL_def)
  then have "?w = 0 \<longleftrightarrow> t \<le> now" "\<And>s. now \<le> s \<Longrightarrow> s < now + int ?w \<Longrightarrow> s < t"
    "?w < 30000 \<Longrightarrow> t \<le> now + int ?w" "?w \<le> 30000" by linarith+
  with w(2) show ?thesis unfolding claim by (cases claiming) (auto simp: not_less)
qed

theorem drain_neither_spins_nor_oversleeps_witness:
  "wait_for_drain_work_or_due one_op True 9 = 0 \<and> fst (claim_next_due_op one_op 9) \<noteq> None"
proof -
  have "wait_for_drain_work_or_due one_op True 9 = 0"
    by (simp add: wait_for_drain_work_or_due_def idle_wait_def earliest_due_at_def pending_one_op claimable_def
        parent_landed_def new_op_row_def)
  then show ?thesis using drain_neither_spins_nor_oversleeps [of one_op 9 True] by simp
qed

text \<open>A failing op is tried again soon enough and not too often: its wait is between two seconds and
  six minutes, reaches the five-minute ceiling exactly from the eighth attempt on, and is the shortest
  there is for an op that only waits for a name. The spread over the ops is at most a fifth of the base, and
  the wait before a revision is sent stays between two and sixty seconds.\<close>

theorem drain_backoff_is_bounded:
  "2000 \<le> drain_backoff a held s \<and> drain_backoff a held s \<le> 360000 \<and> drain_backoff a True s = 2000 \<and>
   (backoff_base a = 300000 \<longleftrightarrow> 8 \<le> a) \<and>
   backoff_base a \<le> drain_backoff a False s \<and> 5 * drain_backoff a False s \<le> 6 * backoff_base a \<and>
   2000 \<le> revision_debounce ts u \<and> revision_debounce ts u \<le> 60000"
proof -
  have "5 * (b * k div 100) \<le> b" if "k \<le> 20" for b k :: nat
  proof -
    have "100 * (b * k div 100) \<le> b * k" by simp
    also have "b * k \<le> b * 20" using that by simp
    finally show ?thesis by simp
  qed
  from this [OF backoff_spread_bound] show ?thesis
    using drain_backoff_bounds [of a held s] backoff_base_ceiling [of a]
    by (simp add: drain_backoff_def DRAIN_BACKOFF_MIN_def revision_debounce_def adaptive_debounce_def
        DRAIN_REVISION_DEBOUNCE_def DRAIN_REVISION_DEBOUNCE_MAX_def)
qed

end
