(* ===== verification/Planner.thy ===== *)
theory Planner
  imports Prelude
begin

text \<open>
  The pure part of folder sync, \<open>crates/pdfs-fuse/src/sync/model.rs\<close> and \<open>sync/planner.rs\<close>: what a
  pass saw of a path on each side, the three-way decision on a file, the guards that stop a pass
  whose one side has vanished, the paths left out of a pass, and the order it classifies paths in.
  Sizes and times are \<open>i64\<close>, held as \<open>int\<close>. Node uids are text.
\<close>

section \<open>Relative paths\<close>

definition slash :: char where
  "slash = CHR ''/''"

definition depth :: "string \<Rightarrow> nat" where
  "depth rel = length (filter (\<lambda>c. c = slash) rel)"

definition parent_rel :: "string \<Rightarrow> string" where
  "parent_rel rel = (if slash \<in> set rel then rev (tl (dropWhile (\<lambda>c. c \<noteq> slash) (rev rel))) else [])"

definition base_name :: "string \<Rightarrow> string" where
  "base_name rel = rev (takeWhile (\<lambda>c. c \<noteq> slash) (rev rel))"

definition join_rel :: "string \<Rightarrow> string \<Rightarrow> string" where
  "join_rel pre name = (if pre = [] then name else pre @ slash # name)"

definition starts_with :: "string \<Rightarrow> string \<Rightarrow> bool" where
  "starts_with s p = prefix p s"

section \<open>What a pass saw\<close>

record local_sig =
  ls_mtime :: int
  ls_mtime_ns :: "int option"
  ls_size :: int

definition same_content :: "local_sig \<Rightarrow> local_sig \<Rightarrow> bool" where
  "same_content a b =
     (if ls_size a \<noteq> ls_size b then False
      else (case (ls_mtime_ns a, ls_mtime_ns b) of
              (Some x, Some y) \<Rightarrow> x = y
            | _ \<Rightarrow> ls_mtime a = ls_mtime b))"

record local_item =
  li_is_dir :: bool
  li_mtime :: int
  li_mtime_ns :: "int option"
  li_size :: int
  li_open_for_write :: bool

record remote_item =
  ri_uid :: uid
  ri_is_dir :: bool
  ri_mtime :: int
  ri_size :: int
  ri_revision :: "string option"
  ri_sha1 :: "string option"

record remote_seen =
  rs_mtime :: int
  rs_size :: int
  rs_revision :: "string option"

text \<open>A row of \<open>sync_entry\<close>: both sides of a path as they were when they were last in step.\<close>

record stored_sync_entry =
  se_rel_path :: string
  se_remote_uid :: "uid option"
  se_local_mtime :: int
  se_local_size :: int
  se_local_mtime_ns :: "int option"
  se_remote_rev :: "string option"
  se_remote_hash :: "string option"
  se_remote_revision_id :: "string option"

definition sig_of_item :: "local_item \<Rightarrow> local_sig" where
  "sig_of_item i = \<lparr>ls_mtime = li_mtime i, ls_mtime_ns = li_mtime_ns i, ls_size = li_size i\<rparr>"

definition sig_of_entry :: "stored_sync_entry \<Rightarrow> local_sig" where
  "sig_of_entry e = \<lparr>ls_mtime = se_local_mtime e, ls_mtime_ns = se_local_mtime_ns e, ls_size = se_local_size e\<rparr>"

definition seen_of_item :: "remote_item \<Rightarrow> remote_seen" where
  "seen_of_item i = \<lparr>rs_mtime = ri_mtime i, rs_size = ri_size i, rs_revision = ri_revision i\<rparr>"

definition remote_sig :: "stored_sync_entry \<Rightarrow> (int \<times> int) option" where
  "remote_sig e = (case (se_remote_rev e, se_remote_hash e) of
      (Some m, Some s) \<Rightarrow> (case (parse_i64 m, parse_i64 s) of (Some mt, Some sz) \<Rightarrow> Some (mt, sz) | _ \<Rightarrow> None)
    | _ \<Rightarrow> None)"

definition revision_moved :: "stored_sync_entry option \<Rightarrow> string option \<Rightarrow> bool" where
  "revision_moved base now = (case (Option.bind base se_remote_revision_id, now) of
      (Some recorded, Some n) \<Rightarrow> recorded \<noteq> n | _ \<Rightarrow> False)"

section \<open>The decision on one file\<close>

datatype file_plan = Unchanged | Deferred | UploadNew | UploadRevision | Download | Conflict
  | DeleteLocal | DeleteRemote | ForgetBaseline | AdoptBaseline

definition local_changed :: "local_item option \<Rightarrow> stored_sync_entry option \<Rightarrow> bool" where
  "local_changed l b = (case l of None \<Rightarrow> False | Some item \<Rightarrow>
     (case b of None \<Rightarrow> True | Some base \<Rightarrow> \<not> same_content (sig_of_item item) (sig_of_entry base)))"

definition remote_changed :: "remote_item option \<Rightarrow> stored_sync_entry option \<Rightarrow> bool" where
  "remote_changed r b = (case r of None \<Rightarrow> False | Some item \<Rightarrow>
     (case b of None \<Rightarrow> True | Some base \<Rightarrow>
        remote_sig base \<noteq> Some (ri_mtime item, ri_size item) \<or> revision_moved (Some base) (ri_revision item)))"

definition plan_file :: "local_item option \<Rightarrow> remote_item option \<Rightarrow> stored_sync_entry option \<Rightarrow> file_plan" where
  "plan_file l r b =
     (if (case l of Some item \<Rightarrow> li_open_for_write item | None \<Rightarrow> False) then Deferred
      else (case (l, r) of
        (Some li, Some ri) \<Rightarrow> (case (local_changed l b, remote_changed r b) of
            (False, False) \<Rightarrow> Unchanged
          | (True, False) \<Rightarrow> UploadRevision
          | (False, True) \<Rightarrow> Download
          | (True, True) \<Rightarrow> (if b = None \<and> li_size li = ri_size ri \<and> ri_sha1 ri \<noteq> None
                            then AdoptBaseline else Conflict))
      | (Some _, None) \<Rightarrow> (if b = None \<or> local_changed l b then UploadNew else DeleteLocal)
      | (None, Some _) \<Rightarrow> (if b = None \<or> remote_changed r b then Download else DeleteRemote)
      | (None, None) \<Rightarrow> ForgetBaseline))"

section \<open>Paths a pass leaves out\<close>

record ignore_rules =
  ir_is_empty :: bool
  ir_is_ignored :: "string \<Rightarrow> bool \<Rightarrow> bool"

definition filter_baseline :: "'b table \<Rightarrow> ignore_rules \<Rightarrow> 'b table" where
  "filter_baseline baseline rules =
     filter (\<lambda>(rel, _). \<not> ir_is_ignored rules rel False \<and> \<not> ir_is_ignored rules rel True) baseline"

definition classified :: "('l \<Rightarrow> bool) \<Rightarrow> ('r \<Rightarrow> bool) \<Rightarrow> 'l table \<Rightarrow> 'r table \<Rightarrow> ignore_rules \<Rightarrow> string \<Rightarrow> bool" where
  "classified l_is_dir r_is_dir local remote rules rel =
     (case (case map_of local rel of Some l \<Rightarrow> Some (l_is_dir l) | None \<Rightarrow> map_option r_is_dir (map_of remote rel)) of
        Some d \<Rightarrow> \<not> ir_is_ignored rules rel d
      | None \<Rightarrow> \<not> ir_is_ignored rules rel False \<and> \<not> ir_is_ignored rules rel True)"

definition classification_order ::
  "('l \<Rightarrow> bool) \<Rightarrow> ('r \<Rightarrow> bool) \<Rightarrow> 'l table \<Rightarrow> 'r table \<Rightarrow> 'b table \<Rightarrow> ignore_rules \<Rightarrow> string list" where
  "classification_order l_is_dir r_is_dir local remote baseline rules =
     (let paths = remdups (keys local @ keys remote @ keys baseline);
          order = (if ir_is_empty rules then paths
                   else filter (classified l_is_dir r_is_dir local remote rules) paths)
      in sort_key depth order)"

record unscanned =
  us_covered :: "string list"
  us_unreadable :: "string list"

definition vanished :: "unscanned \<Rightarrow> string \<Rightarrow> unscanned" where
  "vanished u rel = u\<lparr>us_covered := List.insert rel (us_covered u)\<rparr>"

definition unreadable :: "unscanned \<Rightarrow> string \<Rightarrow> string \<Rightarrow> unscanned" where
  "unreadable u rel reason = u\<lparr>us_unreadable := us_unreadable u @ [rel @ '' ('' @ reason @ '')''],
     us_covered := List.insert rel (us_covered u)\<rparr>"

lemma length_parent_rel: "slash \<in> set rel \<Longrightarrow> length (parent_rel rel) < length rel"
proof -
  assume s: "slash \<in> set rel"
  have "length (dropWhile (\<lambda>c. c \<noteq> slash) (rev rel)) \<le> length (rev rel)"
    by (rule length_dropWhile_le)
  moreover have "rel \<noteq> []" using s by auto
  ultimately show ?thesis using s
    by (cases "dropWhile (\<lambda>c. c \<noteq> slash) (rev rel)") (auto simp: parent_rel_def)
qed

function covers_from :: "string list \<Rightarrow> string \<Rightarrow> bool" where
  "covers_from covered at =
     (if at \<in> set covered then True
      else if slash \<in> set at then covers_from covered (parent_rel at) else False)"
  by pat_completeness auto
termination
  by (relation "measure (\<lambda>(_, at). length at)") (simp_all add: length_parent_rel)

declare covers_from.simps [simp del]

definition covers :: "unscanned \<Rightarrow> string \<Rightarrow> bool" where
  "covers u rel = (if us_covered u = [] then False else covers_from (us_covered u) rel)"

definition tracked_baseline :: "'b table \<Rightarrow> ignore_rules \<Rightarrow> unscanned \<Rightarrow> 'b table" where
  "tracked_baseline baseline rules u = filter (\<lambda>(rel, _). \<not> covers u rel) (filter_baseline baseline rules)"

definition local_deletions :: "'b table \<Rightarrow> 'l table \<Rightarrow> string list" where
  "local_deletions tracked local = sort_key depth (filter (\<lambda>rel. \<not> has_key local rel) (keys tracked))"

section \<open>The wipe guards\<close>

definition MASS_LOSS_MIN_PATHS :: nat where
  "MASS_LOSS_MIN_PATHS = 20"

definition MASS_LOSS_TENTHS :: nat where
  "MASS_LOSS_TENTHS = 9"

definition looks_like_a_wipe :: "nat \<Rightarrow> nat \<Rightarrow> bool" where
  "looks_like_a_wipe missing tot = (tot > 0 \<and>
     (missing = tot \<or> (tot \<ge> MASS_LOSS_MIN_PATHS \<and> missing * 10 \<ge> tot * MASS_LOSS_TENTHS)))"

definition missing_from :: "'v table \<Rightarrow> 'b table \<Rightarrow> nat" where
  "missing_from side baseline = length (filter (\<lambda>rel. \<not> has_key side rel) (keys baseline))"

definition guard_local_wipe :: "'b table \<Rightarrow> 'l table \<Rightarrow> string + unit" where
  "guard_local_wipe baseline local =
     (if looks_like_a_wipe (missing_from local baseline) (length baseline)
      then Inl (show_nat (missing_from local baseline) @ '' of the '' @ show_nat (length baseline) @
        '' synced paths are missing locally; refusing to trash them on Drive. Check that the folder is mounted and readable; to download them again, sync the folder from scratch.'')
      else Inr ())"

definition guard_remote_wipe :: "'b table \<Rightarrow> 'r table \<Rightarrow> string + unit" where
  "guard_remote_wipe baseline remote =
     (if looks_like_a_wipe (missing_from remote baseline) (length baseline)
      then Inl (show_nat (missing_from remote baseline) @ '' of the '' @ show_nat (length baseline) @
        '' synced paths are missing on Proton Drive; refusing to delete them here. If they were deleted on purpose, remove the folder from sync; to upload them again, sync the folder from scratch.'')
      else Inr ())"

section \<open>What a remote walk could not read\<close>

record remote_gaps =
  rg_short :: "string list"
  rg_unread :: "string list"
  rg_unlisted :: "string list"

definition short_listing :: "remote_gaps \<Rightarrow> string \<Rightarrow> remote_gaps" where
  "short_listing g folder = g\<lparr>rg_short := List.insert folder (rg_short g)\<rparr>"

definition note_unread :: "remote_gaps \<Rightarrow> string \<Rightarrow> remote_gaps" where
  "note_unread g rel = g\<lparr>rg_unread := List.insert rel (rg_unread g)\<rparr>"

definition note_unlisted :: "remote_gaps \<Rightarrow> string \<Rightarrow> remote_gaps" where
  "note_unlisted g folder = g\<lparr>rg_unlisted := List.insert folder (rg_unlisted g)\<rparr>"

definition no_gaps :: "remote_gaps \<Rightarrow> bool" where
  "no_gaps g = (rg_short g = [] \<and> rg_unread g = [] \<and> rg_unlisted g = [])"

lemma length_parent_rel_less: "at \<noteq> [] \<Longrightarrow> length (parent_rel at) < length at"
  using length_parent_rel [of at] by (cases "slash \<in> set at") (simp_all add: parent_rel_def)

text \<open>The deepest folder the walk listed, at or above a path, decides.\<close>

function hides_from :: "remote_gaps \<Rightarrow> uid table \<Rightarrow> string \<Rightarrow> bool" where
  "hides_from g remote_dirs at =
     (if has_key remote_dirs at then at \<in> set (rg_short g) \<or> at \<in> set (rg_unlisted g)
      else if at = [] then False
      else hides_from g remote_dirs (parent_rel at))"
  by pat_completeness auto
termination
  by (relation "measure (\<lambda>(_, _, at). length at)") (simp_all add: length_parent_rel_less)

declare hides_from.simps [simp del]

definition hides :: "remote_gaps \<Rightarrow> string \<Rightarrow> 'r table \<Rightarrow> uid table \<Rightarrow> bool" where
  "hides g rel remote remote_dirs =
     (if no_gaps g \<or> has_key remote rel then False
      else if rel \<in> set (rg_unread g) then True
      else hides_from g remote_dirs (parent_rel rel))"

section \<open>Whether Drive still holds what the baseline recorded\<close>

definition item_changed :: "stored_sync_entry table \<Rightarrow> string \<times> remote_item \<Rightarrow> bool" where
  "item_changed baseline = (\<lambda>(path, item). case map_of baseline path of
      None \<Rightarrow> True
    | Some base \<Rightarrow> (if ri_is_dir item then False
        else remote_sig base \<noteq> Some (ri_mtime item, ri_size item) \<or> revision_moved (Some base) (ri_revision item)))"

text \<open>\<open>sort_unstable().first()\<close> on strings is the least of them in byte order.\<close>

fun str_less :: "string \<Rightarrow> string \<Rightarrow> bool" where
  "str_less _ [] = False"
| "str_less [] (_ # _) = True"
| "str_less (a # as) (b # bs) =
     ((of_char a :: nat) < of_char b \<or> (a = b \<and> str_less as bs))"

fun least_str :: "string list \<Rightarrow> string option" where
  "least_str [] = None"
| "least_str (s # ss) = (case least_str ss of None \<Rightarrow> Some s | Some t \<Rightarrow> Some (if str_less t s then t else s))"

definition remote_subtree_changed :: "string \<Rightarrow> remote_item table \<Rightarrow> stored_sync_entry table \<Rightarrow> string option" where
  "remote_subtree_changed rel remote baseline =
     map_option (\<lambda>path. path @ '' is new or changed on Proton Drive'')
       (least_str (map fst (filter (\<lambda>e. starts_with (fst e) (rel @ ''/'') \<and> item_changed baseline e) remote)))"

definition unchanged_remote_size ::
  "stored_sync_entry table \<Rightarrow> string \<Rightarrow> int \<Rightarrow> string option \<Rightarrow> int option" where
  "unchanged_remote_size baseline rel mtime revision = (case map_of baseline rel of
      None \<Rightarrow> None
    | Some base \<Rightarrow>
        (if revision_moved (Some base) revision \<or> (se_remote_revision_id base = None \<and> revision \<noteq> None) then None
         else (case remote_sig base of
                 Some (recorded, sz) \<Rightarrow> (if recorded = mtime then Some sz else None)
               | None \<Rightarrow> None)))"

text \<open>\<open>sort_unstable\<close> on strings, and the lines a pass reports of what it could not read.\<close>

fun str_insert :: "string \<Rightarrow> string list \<Rightarrow> string list" where
  "str_insert s [] = [s]"
| "str_insert s (t # ts) = (if str_less t s then t # str_insert s ts else s # t # ts)"

definition str_sort :: "string list \<Rightarrow> string list" where
  "str_sort ss = foldr str_insert ss []"

definition unscanned_report :: "unscanned \<Rightarrow> string list" where
  "unscanned_report u = str_sort (us_unreadable u)"

definition gaps_report :: "remote_gaps \<Rightarrow> string list" where
  "gaps_report g = str_sort (
     map (\<lambda>rel. (if rel = [] then ''the folder'' else rel) @ '' (items on Proton Drive that cannot be read)'') (rg_short g) @
     map (\<lambda>rel. rel @ '' (cannot be read on Proton Drive)'') (rg_unread g) @
     map (\<lambda>rel. rel @ '' (could not be listed on Proton Drive; tried again next pass)'') (rg_unlisted g))"

section \<open>Recording a path as in step\<close>

definition baseline_dir_row :: "string \<Rightarrow> uid \<Rightarrow> stored_sync_entry" where
  "baseline_dir_row rel u = \<lparr>se_rel_path = rel, se_remote_uid = Some u, se_local_mtime = 0, se_local_size = 0,
     se_local_mtime_ns = None, se_remote_rev = None, se_remote_hash = None, se_remote_revision_id = None\<rparr>"

definition record_file_baseline :: "string \<Rightarrow> local_sig option \<Rightarrow> uid \<Rightarrow> remote_seen \<Rightarrow> string + stored_sync_entry" where
  "record_file_baseline rel local u remote = (case local of
      None \<Rightarrow> Inl (''stat '' @ rel @ '': no local identity to baseline'')
    | Some l \<Rightarrow> Inr \<lparr>se_rel_path = rel, se_remote_uid = Some u, se_local_mtime = ls_mtime l,
        se_local_size = ls_size l, se_local_mtime_ns = ls_mtime_ns l,
        se_remote_rev = Some (show_int (rs_mtime remote)), se_remote_hash = Some (show_int (rs_size remote)),
        se_remote_revision_id = rs_revision remote\<rparr>)"

section \<open>Queued work and the outcome of a pass\<close>

datatype pending =
    CreateDir string uid
  | PUploadNew string uid
  | PUploadRevision string uid remote_seen
  | PDownload string uid remote_seen "local_sig option"
  | PAdopt string uid remote_seen string local_sig
  | PConflict string uid remote_seen
  | PushConflict string uid

fun pending_rel :: "pending \<Rightarrow> string" where
  "pending_rel (CreateDir rel _) = rel"
| "pending_rel (PUploadNew rel _) = rel"
| "pending_rel (PUploadRevision rel _ _) = rel"
| "pending_rel (PDownload rel _ _ _) = rel"
| "pending_rel (PAdopt rel _ _ _ _) = rel"
| "pending_rel (PConflict rel _ _) = rel"
| "pending_rel (PushConflict rel _) = rel"

datatype activity_kind = CreateFolder | Upload | DownloadActivity

fun pending_kind :: "pending \<Rightarrow> activity_kind" where
  "pending_kind (CreateDir _ _) = CreateFolder"
| "pending_kind (PUploadNew _ _) = Upload"
| "pending_kind (PUploadRevision _ _ _) = Upload"
| "pending_kind (PushConflict _ _) = Upload"
| "pending_kind (PDownload _ _ _ _) = DownloadActivity"
| "pending_kind (PAdopt _ _ _ _ _) = DownloadActivity"
| "pending_kind (PConflict _ _ _) = DownloadActivity"

fun pending_detail :: "pending \<Rightarrow> string" where
  "pending_detail (CreateDir _ _) = ''on Drive''"
| "pending_detail (PUploadNew _ _) = ''new file''"
| "pending_detail (PUploadRevision _ _ _) = ''new version''"
| "pending_detail (PDownload _ _ _ _) = ''from Drive''"
| "pending_detail (PAdopt _ _ _ _ _) = ''already the same on Drive''"
| "pending_detail (PConflict _ _ _) = ''local changes kept as a conflict copy''"
| "pending_detail (PushConflict _ _) = ''local changes uploaded as a conflict copy''"

datatype applied = ADir string uid | AUploaded | ADownloaded | AConflict | AVanished | AAdopted

record outcome =
  oc_uploaded :: nat
  oc_downloaded :: nat
  oc_created :: nat
  oc_deleted :: nat
  oc_conflicts :: nat
  oc_errors :: nat
  oc_deferred :: nat
  oc_unscanned :: "string list"

definition outcome_default :: outcome where
  "outcome_default = \<lparr>oc_uploaded = 0, oc_downloaded = 0, oc_created = 0, oc_deleted = 0, oc_conflicts = 0,
     oc_errors = 0, oc_deferred = 0, oc_unscanned = []\<rparr>"

definition record_applied :: "applied \<Rightarrow> outcome \<Rightarrow> outcome" where
  "record_applied a oc = (case a of
      ADir _ _ \<Rightarrow> oc\<lparr>oc_created := oc_created oc + 1\<rparr>
    | AUploaded \<Rightarrow> oc\<lparr>oc_uploaded := oc_uploaded oc + 1\<rparr>
    | ADownloaded \<Rightarrow> oc\<lparr>oc_downloaded := oc_downloaded oc + 1\<rparr>
    | AConflict \<Rightarrow> oc\<lparr>oc_conflicts := oc_conflicts oc + 1\<rparr>
    | AVanished \<Rightarrow> oc
    | AAdopted \<Rightarrow> oc)"

definition outcome_is_empty :: "outcome \<Rightarrow> bool" where
  "outcome_is_empty oc = (oc_uploaded oc = 0 \<and> oc_downloaded oc = 0 \<and> oc_created oc = 0 \<and>
     oc_deleted oc = 0 \<and> oc_conflicts oc = 0 \<and> oc_errors oc = 0 \<and> oc_deferred oc = 0)"

definition outcome_parts :: "outcome \<Rightarrow> string list" where
  "outcome_parts oc = map (\<lambda>(n, label). show_nat n @ '' '' @ label) (filter (\<lambda>(n, _). n > 0)
     [(oc_uploaded oc, ''uploaded''), (oc_downloaded oc, ''downloaded''),
      (oc_created oc, ''folder(s) created''), (oc_deleted oc, ''deleted''),
      (oc_conflicts oc, ''conflicted''), (oc_deferred oc, ''deferred (open for write)''),
      (oc_errors oc, ''failed'')])"

definition outcome_summary :: "outcome \<Rightarrow> string" where
  "outcome_summary oc = (case outcome_parts oc of [] \<Rightarrow> [] | p # ps \<Rightarrow> foldl (\<lambda>s t. s @ '', '' @ t) p ps)"

definition keep_racing_local_edit :: "local_sig option \<Rightarrow> local_sig option \<Rightarrow> bool" where
  "keep_racing_local_edit actual expected = (case (actual, expected) of
      (Some a, Some e) \<Rightarrow> \<not> same_content a e
    | (None, _) \<Rightarrow> False
    | (Some _, None) \<Rightarrow> True)"

definition changed_since_scan :: "local_sig option \<Rightarrow> local_item \<Rightarrow> bool" where
  "changed_since_scan now planned =
     (case now of Some n \<Rightarrow> \<not> same_content n (sig_of_item planned) | None \<Rightarrow> False)"

end
