(* ===== verification/Planner_Spec.thy ===== *)
theory Planner_Spec
  imports Planner
begin

text \<open>
  The properties of the sync planner: no plan overwrites or deletes a version the baseline does not
  vouch for, a path recorded as in step plans nothing, the wipe guards bound what one pass may
  delete, and the paths a pass leaves out are exactly the ones it could not read.
\<close>

section \<open>The three-way decision\<close>

text \<open>C7. A plan destroys only what the last sync recorded. A local file is deleted or overwritten
  by a download only if it is the content the baseline recorded; a remote file is trashed or
  superseded by a revision only if Drive still holds the recorded one; a file another process is
  writing is left alone; and when both sides moved, both are kept.\<close>

theorem plan_never_destroys_an_edit:
  "(plan_file l r b = DeleteLocal \<longrightarrow> (\<exists>li base. l = Some li \<and> b = Some base \<and> r = None \<and>
       same_content (sig_of_item li) (sig_of_entry base))) \<and>
   (plan_file l r b = Download \<longrightarrow> (\<forall>li. l = Some li \<longrightarrow> (\<exists>base. b = Some base \<and>
       same_content (sig_of_item li) (sig_of_entry base)))) \<and>
   (plan_file l r b \<in> {DeleteRemote, UploadRevision} \<longrightarrow> (\<exists>ri base. r = Some ri \<and> b = Some base \<and>
       remote_sig base = Some (ri_mtime ri, ri_size ri) \<and> \<not> revision_moved b (ri_revision ri))) \<and>
   (plan_file l r b = UploadNew \<longrightarrow> r = None) \<and>
   ((\<exists>li. l = Some li \<and> li_open_for_write li) \<longrightarrow> plan_file l r b = Deferred) \<and>
   (\<forall>li ri. l = Some li \<and> r = Some ri \<and> \<not> li_open_for_write li \<and> local_changed l b \<and> remote_changed r b \<longrightarrow>
       plan_file l r b \<in> {Conflict, AdoptBaseline})"
  by (auto simp: plan_file_def local_changed_def remote_changed_def split: option.splits if_splits bool.splits)

theorem plan_never_destroys_an_edit_witness:
  "same_content \<lparr>ls_mtime = 7, ls_mtime_ns = None, ls_size = 3\<rparr> \<lparr>ls_mtime = 7, ls_mtime_ns = Some 5, ls_size = 3\<rparr>"
proof -
  let ?l = "\<lparr>li_is_dir = False, li_mtime = 7, li_mtime_ns = None, li_size = 3, li_open_for_write = False\<rparr>"
  let ?b = "\<lparr>se_rel_path = ''a'', se_remote_uid = None, se_local_mtime = 7, se_local_size = 3,
    se_local_mtime_ns = Some 5, se_remote_rev = None, se_remote_hash = None, se_remote_revision_id = None\<rparr>"
  have "plan_file (Some ?l) None (Some ?b) = DeleteLocal" by code_simp
  with plan_never_destroys_an_edit [of "Some ?l" None "Some ?b"] show ?thesis
    by (simp add: sig_of_item_def sig_of_entry_def)
qed

text \<open>C34. Recording a path brings it in step: the row written after a transfer, read back from its
  text columns by the next pass, makes a file that has not moved on either side plan to nothing,
  and the walk may then trust the recorded size.\<close>

theorem recorded_path_is_in_step:
  assumes rec: "record_file_baseline rel (Some (sig_of_item li)) u (seen_of_item ri) = Inr row"
    and range: "I64_MIN \<le> ri_mtime ri" "ri_mtime ri \<le> I64_MAX" "I64_MIN \<le> ri_size ri" "ri_size ri \<le> I64_MAX"
    and closed: "\<not> li_open_for_write li"
  shows "plan_file (Some li) (Some ri) (Some row) = Unchanged \<and>
    unchanged_remote_size [(rel, row)] rel (ri_mtime ri) (ri_revision ri) = Some (ri_size ri)"
proof -
  have "remote_sig row = Some (ri_mtime ri, ri_size ri)" "sig_of_entry row = sig_of_item li"
    "se_remote_revision_id row = ri_revision ri"
    using rec range by (auto simp: record_file_baseline_def remote_sig_def seen_of_item_def sig_of_entry_def sig_of_item_def)
  moreover have "same_content s s" for s by (simp add: same_content_def split: option.split)
  ultimately show ?thesis
    using closed by (simp add: plan_file_def local_changed_def remote_changed_def revision_moved_def
        unchanged_remote_size_def split: option.split)
qed

definition ex_item :: local_item where
  "ex_item = \<lparr>li_is_dir = False, li_mtime = 7, li_mtime_ns = Some 7000000001, li_size = 3, li_open_for_write = False\<rparr>"

definition ex_remote :: remote_item where
  "ex_remote = \<lparr>ri_uid = ''v~a'', ri_is_dir = False, ri_mtime = 7, ri_size = 3, ri_revision = Some ''r1'', ri_sha1 = None\<rparr>"

theorem recorded_path_is_in_step_witness:
  "plan_file (Some ex_item) (Some ex_remote)
     (Some (projr (record_file_baseline ''a'' (Some (sig_of_item ex_item)) ''v~a'' (seen_of_item ex_remote)))) = Unchanged"
proof -
  let ?row = "projr (record_file_baseline ''a'' (Some (sig_of_item ex_item)) ''v~a'' (seen_of_item ex_remote))"
  have "record_file_baseline ''a'' (Some (sig_of_item ex_item)) ''v~a'' (seen_of_item ex_remote) = Inr ?row"
    by (simp add: record_file_baseline_def)
  from recorded_path_is_in_step [OF this] show ?thesis
    by (simp add: ex_item_def ex_remote_def I64_MIN_def I64_MAX_def)
qed

section \<open>The wipe guards\<close>

text \<open>What both guards promise, and what a pass may rely on once one has let it through.\<close>

locale wipe_guard =
  fixes guard :: "'b table \<Rightarrow> 'v table \<Rightarrow> string + unit"
  assumes refuses: "isl (guard baseline side) \<longleftrightarrow> looks_like_a_wipe (missing_from side baseline) (length baseline)"
begin

lemma refuses_total_loss:
  assumes "baseline \<noteq> []" and "\<And>rel. rel \<in> set (keys baseline) \<Longrightarrow> \<not> has_key side rel"
  shows "isl (guard baseline side)"
proof -
  have "filter (\<lambda>rel. \<not> has_key side rel) (keys baseline) = keys baseline"
    using assms(2) by (simp add: filter_id_conv)
  then have "missing_from side baseline = length baseline"
    by (simp add: missing_from_def keys_def)
  with assms(1) show ?thesis by (simp add: refuses looks_like_a_wipe_def)
qed

lemma passed_bounds_loss:
  assumes "guard baseline side = Inr ()" and "baseline \<noteq> []"
  shows "missing_from side baseline < length baseline"
    and "20 \<le> length baseline \<Longrightarrow> 10 * missing_from side baseline < 9 * length baseline"
proof -
  have le: "missing_from side baseline \<le> length baseline"
    by (simp add: missing_from_def keys_def length_filter_le [THEN order_trans])
  have "\<not> looks_like_a_wipe (missing_from side baseline) (length baseline)"
    using refuses [of baseline side] assms(1) by simp
  with assms(2) le show "missing_from side baseline < length baseline"
    and "20 \<le> length baseline \<Longrightarrow> 10 * missing_from side baseline < 9 * length baseline"
    by (auto simp: looks_like_a_wipe_def MASS_LOSS_MIN_PATHS_def MASS_LOSS_TENTHS_def)
qed

end

interpretation local_wipe: wipe_guard guard_local_wipe
  by unfold_locales (simp add: guard_local_wipe_def)

interpretation remote_wipe: wipe_guard guard_remote_wipe
  by unfold_locales (simp add: guard_remote_wipe_def)

lemma length_local_deletions: "length (local_deletions tracked local) = missing_from local tracked"
  by (simp add: local_deletions_def missing_from_def)

text \<open>A pass the local guard lets through never trashes the whole of what it tracks on Drive,
  and of twenty tracked paths or more it trashes less than nine tenths; a local side that has
  vanished altogether is always refused.\<close>

theorem local_guard_bounds_trashing:
  assumes "tracked = tracked_baseline baseline rules u" and "tracked \<noteq> []"
  shows "(guard_local_wipe tracked local = Inr () \<longrightarrow>
       length (local_deletions tracked local) < length tracked \<and>
       (20 \<le> length tracked \<longrightarrow> 10 * length (local_deletions tracked local) < 9 * length tracked)) \<and>
     ((\<forall>rel \<in> set (keys tracked). \<not> has_key local rel) \<longrightarrow> isl (guard_local_wipe tracked local))"
  using local_wipe.passed_bounds_loss [of tracked local] local_wipe.refuses_total_loss [of tracked local] assms(2)
  by (auto simp: length_local_deletions)

definition no_rules :: ignore_rules where
  "no_rules = \<lparr>ir_is_empty = True, ir_is_ignored = (\<lambda>_ _. False)\<rparr>"

definition nothing_unscanned :: unscanned where
  "nothing_unscanned = \<lparr>us_covered = [], us_unreadable = []\<rparr>"

theorem local_guard_bounds_trashing_witness:
  "isl (guard_local_wipe (tracked_baseline [(''a'', ()), (''b'', ())] no_rules nothing_unscanned) ([] :: unit table)) \<and>
   length (local_deletions (tracked_baseline [(''a'', ()), (''b'', ())] no_rules nothing_unscanned) [(''a'', ())]) < 2"
proof -
  let ?t = "tracked_baseline [(''a'', ()), (''b'', ())] no_rules nothing_unscanned"
  have t: "?t = [(''a'', ()), (''b'', ())]"
    by (simp add: tracked_baseline_def filter_baseline_def no_rules_def nothing_unscanned_def covers_def)
  have "guard_local_wipe ?t [(''a'', ())] = Inr ()"
    unfolding t by (simp add: guard_local_wipe_def missing_from_def keys_def has_key_def looks_like_a_wipe_def
        MASS_LOSS_MIN_PATHS_def)
  moreover have "?t \<noteq> []" unfolding t by simp
  ultimately show ?thesis
    using local_guard_bounds_trashing [OF refl, of "[(''a'', ()), (''b'', ())]" no_rules nothing_unscanned "[(''a'', ())]"]
      local_guard_bounds_trashing [OF refl, of "[(''a'', ()), (''b'', ())]" no_rules nothing_unscanned "[] :: unit table"]
    unfolding t by (simp add: has_key_def)
qed

section \<open>Relative paths\<close>

lemma rel_split:
  assumes "slash \<in> set rel"
  shows "rel = parent_rel rel @ slash # base_name rel" and "slash \<notin> set (base_name rel)"
proof -
  let ?P = "\<lambda>c. c \<noteq> slash"
  have "dropWhile ?P (rev rel) \<noteq> []" using assms by (simp add: dropWhile_eq_Nil_conv)
  then have hd: "dropWhile ?P (rev rel) = slash # tl (dropWhile ?P (rev rel))"
    using hd_dropWhile [of ?P "rev rel"] by (metis list.collapse)
  have parent: "rev (dropWhile ?P (rev rel)) = parent_rel rel @ [slash]"
    by (subst hd) (simp add: parent_rel_def assms)
  have "rev rel = takeWhile ?P (rev rel) @ dropWhile ?P (rev rel)" by (simp only: takeWhile_dropWhile_id)
  then have "rev (rev rel) = rev (dropWhile ?P (rev rel)) @ rev (takeWhile ?P (rev rel))"
    by (metis rev_append)
  then show "rel = parent_rel rel @ slash # base_name rel"
    unfolding parent base_name_def by simp
  show "slash \<notin> set (base_name rel)"
    unfolding base_name_def by (auto dest: set_takeWhileD)
qed

lemma last_split_unique:
  assumes "xs @ a # ys = us @ a # vs" and "a \<notin> set ys" and "a \<notin> set vs"
  shows "xs = us \<and> ys = vs"
proof -
  have tw: "takeWhile (\<lambda>c. c \<noteq> a) (rev (zs @ a # ws)) = rev ws" if "a \<notin> set ws" for zs ws
  proof -
    have "\<forall>c \<in> set (rev ws). c \<noteq> a" using that by auto
    then show ?thesis by (simp only: rev_append rev.simps append.assoc) (subst takeWhile_append2, auto)
  qed
  from tw [OF assms(2), of xs] tw [OF assms(3), of us] have "ys = vs"
    unfolding assms(1) by simp
  with assms(1) show ?thesis by simp
qed

text \<open>A path under a folder is under it by way of its parent.\<close>

lemma under_parent:
  assumes "slash \<in> set rel"
  shows "prefix (c @ [slash]) rel \<longleftrightarrow> c = parent_rel rel \<or> prefix (c @ [slash]) (parent_rel rel)"
proof
  assume "prefix (c @ [slash]) rel"
  then obtain t where t: "rel = c @ slash # t" by (auto simp: prefix_def)
  show "c = parent_rel rel \<or> prefix (c @ [slash]) (parent_rel rel)"
  proof (cases "slash \<in> set t")
    case False
    with t rel_split [OF assms] last_split_unique [of c slash t "parent_rel rel" "base_name rel"]
    show ?thesis by simp
  next
    case True
    then obtain t1 t2 where t2: "t = t1 @ slash # t2" "slash \<notin> set t2" by (auto dest: split_list_last)
    with t rel_split [OF assms] last_split_unique [of "c @ slash # t1" slash t2 "parent_rel rel" "base_name rel"]
    have "parent_rel rel = c @ slash # t1" by simp
    then show ?thesis by simp
  qed
next
  assume "c = parent_rel rel \<or> prefix (c @ [slash]) (parent_rel rel)"
  with rel_split(1) [OF assms] show "prefix (c @ [slash]) rel"
    by (metis append.assoc append_Cons append_Nil prefixI prefix_prefix)
qed

lemma no_slash_not_under: "slash \<notin> set rel \<Longrightarrow> \<not> prefix (c @ [slash]) rel"
  by (auto simp: prefix_def)

text \<open>A path and its parent: splitting a relative path and joining it again gives the path, and
  joining a name onto a folder and splitting gives them back.\<close>

theorem rel_paths_round_trip:
  assumes "slash \<notin> set name"
  shows "(slash \<in> set rel \<and> parent_rel rel \<noteq> [] \<longrightarrow> join_rel (parent_rel rel) (base_name rel) = rel) \<and>
    (slash \<notin> set rel \<longrightarrow> parent_rel rel = [] \<and> base_name rel = rel) \<and>
    parent_rel (join_rel folder name) = folder \<and> base_name (join_rel folder name) = name"
proof -
  have "parent_rel rel = [] \<and> base_name rel = rel" if "slash \<notin> set rel" for rel
  proof -
    from that have "\<forall>c \<in> set (rev rel). c \<noteq> slash" by auto
    then have "takeWhile (\<lambda>c. c \<noteq> slash) (rev rel) = rev rel"
      by (rule iffD2 [OF takeWhile_eq_all_conv])
    then have "base_name rel = rel" unfolding base_name_def by (simp only: rev_rev_ident)
    with that show ?thesis by (simp add: parent_rel_def)
  qed
  moreover have "join_rel (parent_rel rel) (base_name rel) = rel" if "slash \<in> set rel" "parent_rel rel \<noteq> []"
    using rel_split(1) [OF that(1)] that(2) by (simp add: join_rel_def)
  moreover have "parent_rel (folder @ slash # name) = folder" "base_name (folder @ slash # name) = name"
    using rel_split [of "folder @ slash # name"] assms
      last_split_unique [of folder slash name "parent_rel (folder @ slash # name)" "base_name (folder @ slash # name)"]
    by simp_all
  ultimately show ?thesis using assms by (auto simp: join_rel_def)
qed

theorem rel_paths_round_trip_witness:
  "parent_rel (join_rel ''a/b'' ''c'') = ''a/b'' \<and> base_name (join_rel ''a/b'' ''c'') = ''c''"
  using rel_paths_round_trip [of "''c''" "[]" "''a/b''"] by (simp add: slash_def)

section \<open>Paths left out of a pass\<close>

lemma covers_from_iff: "covers_from cs rel \<longleftrightarrow> (\<exists>c \<in> set cs. c = rel \<or> prefix (c @ [slash]) rel)"
proof (induction cs rel rule: covers_from.induct)
  case (1 cs rel)
  show ?case
  proof (cases "slash \<in> set rel")
    case True
    show ?thesis
      using 1 True unfolding covers_from.simps [of cs rel] under_parent [OF True] by auto
  next
    case False
    then show ?thesis
      using no_slash_not_under [OF False] unfolding covers_from.simps [of cs rel] by auto
  qed
qed

text \<open>What the local scan could not read covers itself and everything below it, and nothing
  else: not a sibling whose name merely starts with the same letters.\<close>

theorem covers_iff_at_or_below:
  "covers u rel \<longleftrightarrow> (\<exists>c \<in> set (us_covered u). rel = c \<or> (\<exists>rest. rel = c @ ''/'' @ rest))"
  by (auto simp: covers_def covers_from_iff prefix_def slash_def)

text \<open>A path is classified exactly when some side knows it and no rule excludes it, once, and
  a folder comes before what is inside it: the order is by depth.\<close>

theorem classification_order_spec:
  "set (classification_order ld rd local remote baseline rules) =
     {rel. (has_key local rel \<or> has_key remote rel \<or> has_key baseline rel) \<and>
           (ir_is_empty rules \<or> classified ld rd local remote rules rel)} \<and>
   distinct (classification_order ld rd local remote baseline rules) \<and>
   sorted (map depth (classification_order ld rd local remote baseline rules))"
  by (auto simp: classification_order_def Let_def has_key_iff)

text \<open>Nothing a rule excludes is read as deleted: an ignored path, or one below what the scan
  could not read, is neither classified nor among the deletions a push pass sends to Drive.\<close>

theorem left_out_is_never_deleted:
  assumes "\<not> ir_is_empty rules" and "ir_is_ignored rules rel False" and "ir_is_ignored rules rel True"
  shows "rel \<notin> set (classification_order ld rd local remote baseline rules) \<and>
    rel \<notin> set (local_deletions (tracked_baseline baseline rules u) local) \<and>
    (covers u rel' \<longrightarrow> rel' \<notin> set (local_deletions (tracked_baseline baseline rules u) local))"
proof -
  have "ir_is_ignored rules rel d" for d using assms by (cases d) simp_all
  then have "\<not> classified ld rd local remote rules rel"
    by (simp add: classified_def split: option.split)
  with assms show ?thesis
    by (auto simp: classification_order_def Let_def local_deletions_def tracked_baseline_def
        filter_baseline_def keys_def)
qed

theorem left_out_is_never_deleted_witness:
  "''x'' \<notin> set (local_deletions (tracked_baseline [(''x'', ())]
      \<lparr>ir_is_empty = False, ir_is_ignored = (\<lambda>rel _. rel = ''x'')\<rparr> nothing_unscanned) ([] :: unit table))"
proof -
  let ?r = "\<lparr>ir_is_empty = False, ir_is_ignored = (\<lambda>rel _. rel = ''x'')\<rparr>"
  have "\<not> ir_is_empty ?r" "ir_is_ignored ?r ''x'' False" "ir_is_ignored ?r ''x'' True" by simp_all
  from left_out_is_never_deleted [OF this] show ?thesis by blast
qed

text \<open>The folder that decides for a path: the deepest one at or above it that the walk listed.\<close>

lemma hides_from_listed:
  "hides_from g dirs at \<Longrightarrow> \<exists>f. has_key dirs f \<and> (f \<in> set (rg_short g) \<or> f \<in> set (rg_unlisted g)) \<and>
     (f = at \<or> f = [] \<or> prefix (f @ [slash]) at)"
proof (induction g dirs at rule: hides_from.induct)
  case (1 g dirs at)
  show ?case
  proof (cases "has_key dirs at")
    case True
    with "1.prems" show ?thesis by (auto simp: hides_from.simps [of g dirs at])
  next
    case False
    with "1.prems" have ne: "at \<noteq> []" and "hides_from g dirs (parent_rel at)"
      by (auto simp: hides_from.simps [of g dirs at] split: if_splits)
    with "1.IH" [OF False ne] obtain f where
      f: "has_key dirs f" "f \<in> set (rg_short g) \<or> f \<in> set (rg_unlisted g)"
        "f = parent_rel at \<or> f = [] \<or> prefix (f @ [slash]) (parent_rel at)" by blast
    have "f = [] \<or> prefix (f @ [slash]) at"
      using f(3) under_parent [of at f] by (cases "slash \<in> set at") (auto simp: parent_rel_def)
    with f show ?thesis by blast
  qed
qed

text \<open>The remote walk hides a path only for a reason it saw: never one it returned, and only
  one it could not read or one below a folder whose listing came back short or failed. Below a
  folder that was listed short or not at all, a path whose parent is that folder is always hidden.\<close>

theorem hides_only_what_was_unread:
  "(hides g rel remote dirs \<longrightarrow> \<not> has_key remote rel \<and>
      (rel \<in> set (rg_unread g) \<or>
       (\<exists>f. has_key dirs f \<and> (f \<in> set (rg_short g) \<or> f \<in> set (rg_unlisted g)) \<and>
            (f = [] \<or> f = parent_rel rel \<or> (\<exists>rest. parent_rel rel = f @ ''/'' @ rest))))) \<and>
   (\<not> has_key remote rel \<and> has_key dirs (parent_rel rel) \<and>
    (parent_rel rel \<in> set (rg_short g) \<or> parent_rel rel \<in> set (rg_unlisted g)) \<longrightarrow> hides g rel remote dirs)"
proof (intro conjI impI)
  assume "hides g rel remote dirs"
  then show "\<not> has_key remote rel"
    and "rel \<in> set (rg_unread g) \<or>
       (\<exists>f. has_key dirs f \<and> (f \<in> set (rg_short g) \<or> f \<in> set (rg_unlisted g)) \<and>
            (f = [] \<or> f = parent_rel rel \<or> (\<exists>rest. parent_rel rel = f @ ''/'' @ rest)))"
    using hides_from_listed [of g dirs "parent_rel rel"]
    by (auto simp: hides_def prefix_def slash_def split: if_splits)
next
  assume "\<not> has_key remote rel \<and> has_key dirs (parent_rel rel) \<and>
    (parent_rel rel \<in> set (rg_short g) \<or> parent_rel rel \<in> set (rg_unlisted g))"
  then show "hides g rel remote dirs"
    by (auto simp: hides_def no_gaps_def hides_from.simps [of g dirs "parent_rel rel"])
qed

theorem hides_only_what_was_unread_witness:
  "hides \<lparr>rg_short = [''a''], rg_unread = [], rg_unlisted = []\<rparr> ''a/x'' ([] :: unit table) [(''a'', ''v~1'')]"
  using hides_only_what_was_unread [of "\<lparr>rg_short = [''a''], rg_unread = [], rg_unlisted = []\<rparr>" "''a/x''"
      "[] :: unit table" "[(''a'', ''v~1'')]"]
  by (simp add: has_key_def parent_rel_def slash_def)

section \<open>A folder deleted here, changed on Drive\<close>

lemma least_str_None: "least_str ss = None \<longleftrightarrow> ss = []"
  by (cases ss) (auto split: option.splits)

text \<open>A remote folder is cleared for trashing exactly when everything the walk returned below
  it is what the last sync recorded: a file with the recorded time, size and revision, or a folder
  with a row.\<close>

theorem remote_subtree_unchanged_iff:
  "remote_subtree_changed rel remote baseline = None \<longleftrightarrow>
   (\<forall>(path, item) \<in> set remote. (\<exists>rest. path = rel @ ''/'' @ rest) \<longrightarrow>
      (\<exists>base. map_of baseline path = Some base \<and>
         (ri_is_dir item \<or> \<not> remote_changed (Some item) (Some base))))"
  by (force simp: remote_subtree_changed_def least_str_None filter_empty_conv starts_with_def prefix_def
      item_changed_def remote_changed_def split: option.splits if_splits)

theorem remote_subtree_unchanged_iff_witness:
  "remote_subtree_changed ''d'' [(''d/x'', ex_remote)] ([] :: stored_sync_entry table) \<noteq> None"
  using remote_subtree_unchanged_iff [of "''d''" "[(''d/x'', ex_remote)]" "[]"] by simp

end
