(* ===== verification/Reconcile.thy ===== *)
theory Reconcile
  imports Planner_Spec
begin

text \<open>
  One reconcile pass over a mirror folder, \<open>Core::do_reconcile\<close> and \<open>Core::flush_batch\<close> of
  \<open>crates/pdfs-fuse/src/sync.rs\<close>: the guards, the depth-ascending loop with its batches, the
  decision on every path, and the deferred folder deletions.
  What the pass does to the disk, to Drive and to the baseline table is the list of its effects, in
  order. What they answer is the environment, a function of the effects so far, so a statement over
  every environment covers every disk, Drive and concurrent writer. The ops of a batch run
  concurrently in the code and share nothing; here they run in the order they were queued. Progress
  reports, the activity feed and listing caches are left out.
\<close>

section \<open>Effects and their environment\<close>

datatype effect =
    EApply pending
  | EMkdir string
  | EUpsert stored_sync_entry
  | EForget string
  | ERemoveFile string
  | ETrash string uid
  | ERemoveDir string

record env =
  en_apply :: "effect list \<Rightarrow> pending \<Rightarrow> string + applied"
  en_ok :: "effect list \<Rightarrow> effect \<Rightarrow> bool"
  en_sig :: "effect list \<Rightarrow> string \<Rightarrow> local_sig option"
  en_entries :: "effect list \<Rightarrow> stored_sync_entry table"
  en_unsynced :: "effect list \<Rightarrow> string \<Rightarrow> stored_sync_entry table \<Rightarrow> string option"
  en_stopping :: "effect list \<Rightarrow> bool"
  en_ondemand :: "effect list \<Rightarrow> bool"

text \<open>What the two walks and the baseline load gave the pass.\<close>

record scan =
  sc_local :: "local_item table"
  sc_unscanned :: unscanned
  sc_remote :: "remote_item table"
  sc_remote_dirs :: "uid table"
  sc_gaps :: remote_gaps
  sc_baseline :: "stored_sync_entry table"
  sc_rules :: ignore_rules

datatype pass_abort = Interrupted | Failed string | Stopped

record pass =
  ps_dirs :: "uid table"
  ps_batch :: "pending list"
  ps_depth :: nat
  ps_outcome :: outcome
  ps_del_local :: "string list"
  ps_del_remote :: "(string \<times> uid) list"
  ps_log :: "effect list"

definition emit :: "effect \<Rightarrow> pass \<Rightarrow> pass" where
  "emit e ps = ps\<lparr>ps_log := ps_log ps @ [e]\<rparr>"

definition queue_op :: "pending \<Rightarrow> pass \<Rightarrow> pass" where
  "queue_op p ps = ps\<lparr>ps_batch := ps_batch ps @ [p]\<rparr>"

definition note_error :: "pass \<Rightarrow> pass" where
  "note_error ps = ps\<lparr>ps_outcome := (ps_outcome ps)\<lparr>oc_errors := oc_errors (ps_outcome ps) + 1\<rparr>\<rparr>"

definition note_deferred :: "pass \<Rightarrow> pass" where
  "note_deferred ps = ps\<lparr>ps_outcome := (ps_outcome ps)\<lparr>oc_deferred := oc_deferred (ps_outcome ps) + 1\<rparr>\<rparr>"

definition note_deleted :: "pass \<Rightarrow> pass" where
  "note_deleted ps = ps\<lparr>ps_outcome := (ps_outcome ps)\<lparr>oc_deleted := oc_deleted (ps_outcome ps) + 1\<rparr>\<rparr>"

section \<open>A batch\<close>

definition table_insert :: "string \<Rightarrow> 'v \<Rightarrow> 'v table \<Rightarrow> 'v table" where
  "table_insert k v t = (k, v) # filter (\<lambda>e. fst e \<noteq> k) t"

text \<open>An op still waiting when the stop comes is not started.\<close>

definition apply_op :: "env \<Rightarrow> pending \<Rightarrow> pass \<Rightarrow> pass" where
  "apply_op en p ps =
     (if en_stopping en (ps_log ps) then ps
      else (case en_apply en (ps_log ps) p of
              Inl _ \<Rightarrow> note_error (emit (EApply p) ps)
            | Inr a \<Rightarrow>
                (let ps1 = (emit (EApply p) ps)\<lparr>ps_outcome := record_applied a (ps_outcome ps)\<rparr>
                 in (case a of ADir rel u \<Rightarrow> ps1\<lparr>ps_dirs := table_insert rel u (ps_dirs ps1)\<rparr> | _ \<Rightarrow> ps1))))"

definition flush_batch :: "env \<Rightarrow> pass \<Rightarrow> (pass_abort + unit) \<times> pass" where
  "flush_batch en ps =
     (if ps_batch ps = [] then (Inr (), ps)
      else (let ps1 = fold (apply_op en) (ps_batch ps) (ps\<lparr>ps_batch := []\<rparr>)
            in (if en_stopping en (ps_log ps1) then Inl Stopped else Inr (), ps1)))"

section \<open>The decision on one path\<close>

definition is_dir_here :: "scan \<Rightarrow> string \<Rightarrow> bool" where
  "is_dir_here sc rel = (case map_of (sc_local sc) rel of
      Some l \<Rightarrow> li_is_dir l
    | None \<Rightarrow> (case map_of (sc_remote sc) rel of Some r \<Rightarrow> ri_is_dir r | None \<Rightarrow> False))"

definition dir_step :: "env \<Rightarrow> scan \<Rightarrow> string \<Rightarrow> pass \<Rightarrow> pass" where
  "dir_step en sc rel ps =
     (case (has_key (sc_local sc) rel, map_of (sc_remote sc) rel) of
        (True, Some r) \<Rightarrow> emit (EUpsert (baseline_dir_row rel (ri_uid r))) ps
      | (True, None) \<Rightarrow>
          (if \<not> has_key (sc_baseline sc) rel then
             (case map_of (ps_dirs ps) (parent_rel rel) of
                Some parent \<Rightarrow> queue_op (CreateDir rel parent) ps
              | None \<Rightarrow> note_error ps)
           else ps\<lparr>ps_del_local := ps_del_local ps @ [rel]\<rparr>)
      | (False, Some r) \<Rightarrow>
          (if \<not> has_key (sc_baseline sc) rel then
             (if en_ok en (ps_log ps) (EMkdir rel)
              then emit (EUpsert (baseline_dir_row rel (ri_uid r))) (emit (EMkdir rel) ps)
              else note_error (emit (EMkdir rel) ps))
           else ps\<lparr>ps_del_remote := ps_del_remote ps @ [(rel, ri_uid r)]\<rparr>)
      | (False, None) \<Rightarrow> emit (EForget rel) ps)"

definition delete_local_step :: "env \<Rightarrow> string \<Rightarrow> local_item option \<Rightarrow> pass \<Rightarrow> pass" where
  "delete_local_step en rel l ps =
     (if (case l of Some planned \<Rightarrow> changed_since_scan (en_sig en (ps_log ps) rel) planned | None \<Rightarrow> False)
      then note_deferred ps
      else if \<not> en_ok en (ps_log ps) (ERemoveFile rel) then note_error (emit (ERemoveFile rel) ps)
      else note_deleted (emit (EForget rel) (emit (ERemoveFile rel) ps)))"

definition trash_step :: "env \<Rightarrow> string \<Rightarrow> uid \<Rightarrow> pass \<Rightarrow> pass" where
  "trash_step en rel u ps =
     (if \<not> en_ok en (ps_log ps) (ETrash rel u) then note_error (emit (ETrash rel u) ps)
      else note_deleted (emit (EForget rel) (emit (ETrash rel u) ps)))"

text \<open>
  \<open>plan_file\<close>'s answers. The code's \<open>expect\<close> calls are the \<open>None\<close> branches, which
  \<open>plan_file\<close> never leads to; there the pass is left as it is.
\<close>

definition file_step :: "env \<Rightarrow> scan \<Rightarrow> string \<Rightarrow> pass \<Rightarrow> pass" where
  "file_step en sc rel ps =
     (let l = map_of (sc_local sc) rel; r = map_of (sc_remote sc) rel; b = map_of (sc_baseline sc) rel
      in case plan_file l r b of
           Unchanged \<Rightarrow> (case (b, Option.bind r ri_revision) of
               (Some base, Some revision) \<Rightarrow>
                 (if se_remote_revision_id base = None
                  then emit (EUpsert (base\<lparr>se_remote_revision_id := Some revision\<rparr>)) ps else ps)
             | _ \<Rightarrow> ps)
         | AdoptBaseline \<Rightarrow> (case (l, r, Option.bind r ri_sha1) of
               (Some li, Some ri, Some sha1) \<Rightarrow>
                 queue_op (PAdopt rel (ri_uid ri) (seen_of_item ri) sha1 (sig_of_item li)) ps
             | _ \<Rightarrow> ps)
         | Deferred \<Rightarrow> note_deferred ps
         | UploadRevision \<Rightarrow> (case r of
               Some ri \<Rightarrow> queue_op (PUploadRevision rel (ri_uid ri) (seen_of_item ri)) ps | None \<Rightarrow> ps)
         | Download \<Rightarrow> (case r of
               Some ri \<Rightarrow> queue_op (PDownload rel (ri_uid ri) (seen_of_item ri) (map_option sig_of_item l)) ps
             | None \<Rightarrow> ps)
         | Conflict \<Rightarrow> (case r of
               Some ri \<Rightarrow> queue_op (PConflict rel (ri_uid ri) (seen_of_item ri)) ps | None \<Rightarrow> ps)
         | UploadNew \<Rightarrow> (case map_of (ps_dirs ps) (parent_rel rel) of
               Some parent \<Rightarrow> queue_op (PUploadNew rel parent) ps
             | None \<Rightarrow> note_error ps)
         | DeleteLocal \<Rightarrow> delete_local_step en rel l ps
         | DeleteRemote \<Rightarrow> (case r of Some ri \<Rightarrow> trash_step en rel (ri_uid ri) ps | None \<Rightarrow> ps)
         | ForgetBaseline \<Rightarrow> emit (EForget rel) ps)"

definition path_step :: "env \<Rightarrow> scan \<Rightarrow> string \<Rightarrow> pass \<Rightarrow> pass" where
  "path_step en sc rel ps = (if is_dir_here sc rel then dir_step en sc rel ps else file_step en sc rel ps)"

section \<open>The loop\<close>

definition depth_boundary :: "env \<Rightarrow> string \<Rightarrow> pass \<Rightarrow> (pass_abort + unit) \<times> pass" where
  "depth_boundary en rel ps =
     (if depth rel > ps_depth ps then
        (case flush_batch en ps of
           (Inl a, ps1) \<Rightarrow> (Inl a, ps1)
         | (Inr _, ps1) \<Rightarrow>
             (if en_ondemand en (ps_log ps1) then (Inl Interrupted, ps1\<lparr>ps_depth := depth rel\<rparr>)
              else (Inr (), ps1\<lparr>ps_depth := depth rel\<rparr>)))
      else (Inr (), ps))"

fun reconcile_loop :: "env \<Rightarrow> scan \<Rightarrow> string list \<Rightarrow> pass \<Rightarrow> (pass_abort + unit) \<times> pass" where
  "reconcile_loop en sc [] ps = (Inr (), ps)"
| "reconcile_loop en sc (rel # rels) ps =
     (case depth_boundary en rel ps of
        (Inl a, ps1) \<Rightarrow> (Inl a, ps1)
      | (Inr _, ps1) \<Rightarrow> reconcile_loop en sc rels (path_step en sc rel ps1))"

section \<open>Deferred folder deletions\<close>

definition deepest_first :: "('a \<Rightarrow> string) \<Rightarrow> 'a list \<Rightarrow> 'a list" where
  "deepest_first path xs = sort_key (\<lambda>x. - int (depth (path x))) xs"

datatype dir_removal = Removed string | Kept string string | RemovalFailed string

fun remove_local_dirs :: "env \<Rightarrow> string list \<Rightarrow> stored_sync_entry table \<Rightarrow> pass \<Rightarrow> dir_removal list \<times> pass" where
  "remove_local_dirs en [] current ps = ([], ps)"
| "remove_local_dirs en (rel # rels) current ps =
     (case en_unsynced en (ps_log ps) rel current of
        Some reason \<Rightarrow>
          (let (rs, ps') = remove_local_dirs en rels (filter (\<lambda>e. fst e \<noteq> rel) current) ps
           in (Kept rel reason # rs, ps'))
      | None \<Rightarrow>
          (let current' = filter (\<lambda>e. fst e \<noteq> rel \<and> \<not> starts_with (fst e) (rel @ ''/'')) current;
               r = (if en_ok en (ps_log ps) (ERemoveDir rel) then Removed rel else RemovalFailed rel);
               (rs, ps') = remove_local_dirs en rels current' (emit (ERemoveDir rel) ps)
           in (r # rs, ps')))"

fun note_removal :: "dir_removal \<Rightarrow> pass \<Rightarrow> pass" where
  "note_removal (Removed rel) ps = note_deleted (emit (EForget rel) ps)"
| "note_removal (Kept rel _) ps = emit (EForget rel) ps"
| "note_removal (RemovalFailed _) ps = note_error ps"

definition delete_local_dirs :: "env \<Rightarrow> pass \<Rightarrow> pass" where
  "delete_local_dirs en ps =
     (if ps_del_local ps = [] then ps
      else (let (rs, ps1) = remove_local_dirs en (deepest_first (\<lambda>rel. rel) (ps_del_local ps))
                              (en_entries en (ps_log ps)) ps
            in fold note_removal rs ps1))"

definition trash_dir_step :: "env \<Rightarrow> scan \<Rightarrow> string \<times> uid \<Rightarrow> pass \<Rightarrow> pass" where
  "trash_dir_step en sc = (\<lambda>(rel, u) ps.
     (case remote_subtree_changed rel (sc_remote sc) (sc_baseline sc) of
        Some _ \<Rightarrow> ps
      | None \<Rightarrow> trash_step en rel u ps))"

definition delete_dirs :: "env \<Rightarrow> scan \<Rightarrow> pass \<Rightarrow> pass" where
  "delete_dirs en sc ps =
     (let ps1 = delete_local_dirs en ps
      in fold (trash_dir_step en sc) (deepest_first fst (ps_del_remote ps1)) ps1)"

section \<open>The pass\<close>

definition pass_order :: "scan \<Rightarrow> string list" where
  "pass_order sc = filter
     (\<lambda>rel. \<not> covers (sc_unscanned sc) rel \<and> \<not> hides (sc_gaps sc) rel (sc_remote sc) (sc_remote_dirs sc))
     (classification_order li_is_dir ri_is_dir (sc_local sc) (sc_remote sc) (sc_baseline sc) (sc_rules sc))"

definition pass_start :: "scan \<Rightarrow> pass" where
  "pass_start sc = \<lparr>ps_dirs = sc_remote_dirs sc, ps_batch = [], ps_depth = 0,
     ps_outcome = outcome_default\<lparr>oc_unscanned := unscanned_report (sc_unscanned sc) @ gaps_report (sc_gaps sc)\<rparr>,
     ps_del_local = [], ps_del_remote = [], ps_log = []\<rparr>"

definition do_reconcile :: "env \<Rightarrow> scan \<Rightarrow> (pass_abort + outcome) \<times> pass" where
  "do_reconcile en sc =
     (let tracked = tracked_baseline (sc_baseline sc) (sc_rules sc) (sc_unscanned sc)
      in case guard_local_wipe tracked (sc_local sc) of
           Inl e \<Rightarrow> (Inl (Failed e), pass_start sc)
         | Inr _ \<Rightarrow>
           (case guard_remote_wipe tracked (sc_remote sc) of
              Inl e \<Rightarrow> (Inl (Failed e), pass_start sc)
            | Inr _ \<Rightarrow>
              (case reconcile_loop en sc (pass_order sc) (pass_start sc) of
                 (Inl a, ps) \<Rightarrow> (Inl a, ps)
               | (Inr _, ps) \<Rightarrow>
                 (case flush_batch en ps of
                    (Inl a, ps1) \<Rightarrow> (Inl a, ps1)
                  | (Inr _, ps1) \<Rightarrow>
                      (let ps2 = delete_dirs en sc ps1 in (Inr (ps_outcome ps2), ps2))))))"

end
