(* ===== verification/Reconcile_Spec.thy ===== *)
theory Reconcile_Spec
  imports Reconcile
begin

text \<open>
  The properties of a reconcile pass, over every environment: each effect it has is justified by
  what the scan and the baseline say of its path, a refused pass has none, and a folder that is in
  step is left as it is.
\<close>

section \<open>What justifies an effect\<close>

definition recorded_local :: "scan \<Rightarrow> string \<Rightarrow> bool" where
  "recorded_local sc rel = (case (map_of (sc_local sc) rel, map_of (sc_baseline sc) rel) of
      (Some l, Some b) \<Rightarrow> same_content (sig_of_item l) (sig_of_entry b) \<and> \<not> li_open_for_write l | _ \<Rightarrow> False)"

definition recorded_remote :: "scan \<Rightarrow> string \<Rightarrow> uid \<Rightarrow> bool" where
  "recorded_remote sc rel u = (case (map_of (sc_remote sc) rel, map_of (sc_baseline sc) rel) of
      (Some r, Some b) \<Rightarrow> ri_uid r = u \<and> \<not> remote_changed (Some r) (Some b) | _ \<Rightarrow> False)"

definition dir_gone_remotely :: "scan \<Rightarrow> string \<Rightarrow> bool" where
  "dir_gone_remotely sc rel = (rel \<in> set (pass_order sc) \<and> is_dir_here sc rel \<and> has_key (sc_local sc) rel \<and>
     \<not> has_key (sc_remote sc) rel \<and> has_key (sc_baseline sc) rel)"

definition dir_gone_locally :: "scan \<Rightarrow> string \<times> uid \<Rightarrow> bool" where
  "dir_gone_locally sc = (\<lambda>(rel, u). rel \<in> set (pass_order sc) \<and> is_dir_here sc rel \<and>
     \<not> has_key (sc_local sc) rel \<and> map_option ri_uid (map_of (sc_remote sc) rel) = Some u \<and> has_key (sc_baseline sc) rel)"

fun op_justified :: "scan \<Rightarrow> pending \<Rightarrow> bool" where
  "op_justified sc (CreateDir rel _) = (has_key (sc_local sc) rel \<and> \<not> has_key (sc_remote sc) rel \<and> \<not> has_key (sc_baseline sc) rel)"
| "op_justified sc (PUploadNew rel _) = (has_key (sc_local sc) rel \<and> \<not> has_key (sc_remote sc) rel)"
| "op_justified sc (PUploadRevision rel u seen) = (has_key (sc_local sc) rel \<and> recorded_remote sc rel u \<and>
     map_option seen_of_item (map_of (sc_remote sc) rel) = Some seen)"
| "op_justified sc (PDownload rel u seen l) = (l = map_option sig_of_item (map_of (sc_local sc) rel) \<and>
     (has_key (sc_local sc) rel \<longrightarrow> recorded_local sc rel) \<and> map_option ri_uid (map_of (sc_remote sc) rel) = Some u \<and>
     map_option seen_of_item (map_of (sc_remote sc) rel) = Some seen)"
| "op_justified sc (PAdopt rel u seen sha1 l) = (map_option sig_of_item (map_of (sc_local sc) rel) = Some l \<and>
     \<not> has_key (sc_baseline sc) rel \<and> Option.bind (map_of (sc_remote sc) rel) ri_sha1 = Some sha1)"
| "op_justified sc (PConflict rel u seen) = (has_key (sc_local sc) rel \<and> map_option ri_uid (map_of (sc_remote sc) rel) = Some u)"
| "op_justified sc (PushConflict _ _) = False"

fun justified :: "scan \<Rightarrow> effect \<Rightarrow> bool" where
  "justified sc (EApply p) = (pending_rel p \<in> set (pass_order sc) \<and> op_justified sc p)"
| "justified sc (EMkdir rel) = (rel \<in> set (pass_order sc) \<and> \<not> has_key (sc_local sc) rel)"
| "justified sc (EUpsert _) = True"
| "justified sc (EForget rel) = (rel \<in> set (pass_order sc))"
| "justified sc (ERemoveFile rel) = (rel \<in> set (pass_order sc) \<and> recorded_local sc rel \<and> \<not> has_key (sc_remote sc) rel)"
| "justified sc (ETrash rel u) = (rel \<in> set (pass_order sc) \<and> \<not> has_key (sc_local sc) rel \<and>
     (if is_dir_here sc rel
      then dir_gone_locally sc (rel, u) \<and> remote_subtree_changed rel (sc_remote sc) (sc_baseline sc) = None
      else recorded_remote sc rel u))"
| "justified sc (ERemoveDir rel) = dir_gone_remotely sc rel"

text \<open>A file is removed only after a look at it found what the scan saw.\<close>

fun checked :: "env \<Rightarrow> scan \<Rightarrow> effect list \<Rightarrow> effect \<Rightarrow> bool" where
  "checked en sc pre (ERemoveFile rel) = (case map_of (sc_local sc) rel of
      Some planned \<Rightarrow> \<not> changed_since_scan (en_sig en pre rel) planned | None \<Rightarrow> False)"
| "checked en sc pre _ = True"

definition log_ok :: "env \<Rightarrow> scan \<Rightarrow> effect list \<Rightarrow> bool" where
  "log_ok en sc log = (\<forall>i < length log. justified sc (log ! i) \<and> checked en sc (take i log) (log ! i))"

lemma log_ok_snoc:
  "log_ok en sc log \<Longrightarrow> justified sc e \<Longrightarrow> checked en sc log e \<Longrightarrow> log_ok en sc (log @ [e])"
  by (auto simp: log_ok_def nth_append less_Suc_eq)

definition pass_ok :: "env \<Rightarrow> scan \<Rightarrow> pass \<Rightarrow> bool" where
  "pass_ok en sc ps = (log_ok en sc (ps_log ps) \<and>
     (\<forall>p \<in> set (ps_batch ps). justified sc (EApply p)) \<and>
     (\<forall>rel \<in> set (ps_del_local ps). dir_gone_remotely sc rel) \<and>
     (\<forall>x \<in> set (ps_del_remote ps). dir_gone_locally sc x))"

section \<open>Every step keeps the pass justified\<close>

named_theorems pass_keeps \<open>what the steps of a pass keep\<close>

lemma pass_ok_emit [pass_keeps]: "pass_ok en sc ps \<Longrightarrow> justified sc e \<Longrightarrow> checked en sc (ps_log ps) e \<Longrightarrow> pass_ok en sc (emit e ps)"
  by (simp add: pass_ok_def emit_def log_ok_snoc)

lemma pass_ok_queue [pass_keeps]: "pass_ok en sc ps \<Longrightarrow> justified sc (EApply p) \<Longrightarrow> pass_ok en sc (queue_op p ps)"
  by (simp add: pass_ok_def queue_op_def)

lemma pass_ok_notes [simp]:
  "pass_ok en sc (note_error ps) = pass_ok en sc ps" "pass_ok en sc (note_deferred ps) = pass_ok en sc ps"
  "pass_ok en sc (note_deleted ps) = pass_ok en sc ps" "pass_ok en sc (ps\<lparr>ps_depth := n\<rparr>) = pass_ok en sc ps"
  by (simp_all add: pass_ok_def note_error_def note_deferred_def note_deleted_def)

lemma pass_ok_apply:
  assumes "pass_ok en sc ps" and "justified sc (EApply p)"
  shows "pass_ok en sc (apply_op en p ps)"
proof -
  have "pass_ok en sc ((emit (EApply p) ps)\<lparr>ps_outcome := oc\<rparr>)" "pass_ok en sc ((emit (EApply p) ps)\<lparr>ps_outcome := oc, ps_dirs := ds\<rparr>)"
    for oc ds
    using pass_ok_emit [OF assms] by (simp_all add: pass_ok_def)
  with pass_ok_emit [OF assms] assms(1) show ?thesis
    by (auto simp: apply_op_def Let_def split: sum.split applied.split)
qed

lemma pass_ok_apply_all:
  "pass_ok en sc ps \<Longrightarrow> \<forall>p \<in> set ops. justified sc (EApply p) \<Longrightarrow> pass_ok en sc (fold (apply_op en) ops ps)"
  by (induction ops arbitrary: ps) (simp_all add: pass_ok_apply)

lemma pass_ok_flush: "pass_ok en sc ps \<Longrightarrow> pass_ok en sc (snd (flush_batch en ps))"
  using pass_ok_apply_all [of en sc "ps\<lparr>ps_batch := []\<rparr>" "ps_batch ps"]
  by (auto simp: flush_batch_def Let_def pass_ok_def)

lemma pass_ok_trash:
  "pass_ok en sc ps \<Longrightarrow> justified sc (ETrash rel u) \<Longrightarrow> pass_ok en sc (trash_step en rel u ps)"
  by (auto simp: trash_step_def intro!: pass_keeps)

lemma pass_ok_defer_dirs [pass_keeps]:
  "pass_ok en sc ps \<Longrightarrow> dir_gone_remotely sc rel \<Longrightarrow> pass_ok en sc (ps\<lparr>ps_del_local := ps_del_local ps @ [rel]\<rparr>)"
  "pass_ok en sc ps \<Longrightarrow> dir_gone_locally sc x \<Longrightarrow> pass_ok en sc (ps\<lparr>ps_del_remote := ps_del_remote ps @ [x]\<rparr>)"
  by (simp_all add: pass_ok_def)

lemma has_key_map_of: "map_of t k = None \<Longrightarrow> \<not> has_key t k" "map_of t k = Some v \<Longrightarrow> has_key t k"
  by (simp_all add: has_key_def)

lemma pass_ok_dir_step:
  assumes ok: "pass_ok en sc ps" and rel: "rel \<in> set (pass_order sc)" "is_dir_here sc rel"
  shows "pass_ok en sc (dir_step en sc rel ps)"
proof (cases "has_key (sc_local sc) rel"; cases "map_of (sc_remote sc) rel"; cases "has_key (sc_baseline sc) rel")
  assume "has_key (sc_local sc) rel" "map_of (sc_remote sc) rel = None" "\<not> has_key (sc_baseline sc) rel"
  then show ?thesis
    using ok rel by (cases "map_of (ps_dirs ps) (parent_rel rel)")
      (auto simp: dir_step_def has_key_map_of intro!: pass_keeps)
qed (use ok rel in \<open>auto simp: dir_step_def has_key_map_of dir_gone_remotely_def dir_gone_locally_def intro!: pass_keeps\<close>)

lemma pass_ok_delete_local:
  "pass_ok en sc ps \<Longrightarrow> justified sc (ERemoveFile rel) \<Longrightarrow> pass_ok en sc (delete_local_step en rel (map_of (sc_local sc) rel) ps)"
  by (auto simp: delete_local_step_def recorded_local_def split: option.splits intro!: pass_keeps)

text \<open>What each answer of the planner says of the path.\<close>

lemma plan_file_facts:
  "plan_file l r b = DeleteLocal \<Longrightarrow> \<exists>li base. l = Some li \<and> b = Some base \<and> r = None \<and> \<not> li_open_for_write li \<and>
     same_content (sig_of_item li) (sig_of_entry base)"
  "plan_file l r b = DeleteRemote \<Longrightarrow> \<exists>ri base. l = None \<and> r = Some ri \<and> b = Some base \<and> \<not> remote_changed r b"
  "plan_file l r b = UploadRevision \<Longrightarrow> \<exists>li ri base. l = Some li \<and> r = Some ri \<and> b = Some base \<and> \<not> remote_changed r b"
  "plan_file l r b = Download \<Longrightarrow> \<exists>ri. r = Some ri \<and>
     (\<forall>li. l = Some li \<longrightarrow> (\<exists>base. b = Some base \<and> \<not> li_open_for_write li \<and>
        same_content (sig_of_item li) (sig_of_entry base)))"
  "plan_file l r b = Conflict \<Longrightarrow> \<exists>li ri. l = Some li \<and> r = Some ri"
  "plan_file l r b = UploadNew \<Longrightarrow> \<exists>li. l = Some li \<and> r = None"
  "plan_file l r b = AdoptBaseline \<Longrightarrow> \<exists>li ri sha1. l = Some li \<and> r = Some ri \<and> b = None \<and> ri_sha1 ri = Some sha1"
  by (auto simp: plan_file_def local_changed_def remote_changed_def split: option.splits if_splits bool.splits)

lemma pass_ok_file_step:
  assumes ok: "pass_ok en sc ps" and rel: "rel \<in> set (pass_order sc)" "\<not> is_dir_here sc rel"
  shows "pass_ok en sc (file_step en sc rel ps)"
proof (cases "plan_file (map_of (sc_local sc) rel) (map_of (sc_remote sc) rel) (map_of (sc_baseline sc) rel)")
  case Unchanged
  with ok show ?thesis by (auto simp: file_step_def Let_def split: option.split intro!: pass_keeps)
next
  case AdoptBaseline
  with ok rel plan_file_facts(7) [OF this] show ?thesis
    by (auto simp: file_step_def has_key_map_of intro!: pass_keeps)
next
  case UploadRevision
  with ok rel plan_file_facts(3) [OF this] show ?thesis
    by (auto simp: file_step_def has_key_map_of recorded_remote_def intro!: pass_keeps)
next
  case Download
  with ok rel plan_file_facts(4) [OF this] show ?thesis
    by (cases "map_of (sc_local sc) rel")
      (auto simp: file_step_def has_key_map_of recorded_local_def intro!: pass_keeps)
next
  case Conflict
  with ok rel plan_file_facts(5) [OF this] show ?thesis
    by (auto simp: file_step_def has_key_map_of intro!: pass_keeps)
next
  case UploadNew
  with ok rel plan_file_facts(6) [OF this] show ?thesis
    by (cases "map_of (ps_dirs ps) (parent_rel rel)") (auto simp: file_step_def has_key_map_of intro!: pass_keeps)
next
  case DeleteLocal
  with ok rel plan_file_facts(1) [OF this] show ?thesis
    using pass_ok_delete_local [OF ok, of rel] by (auto simp: file_step_def has_key_map_of recorded_local_def)
next
  case DeleteRemote
  with ok rel plan_file_facts(2) [OF this] show ?thesis
    by (auto simp: file_step_def has_key_map_of recorded_remote_def intro!: pass_ok_trash)
qed (use ok rel in \<open>auto simp: file_step_def intro!: pass_keeps\<close>)

lemma pass_ok_path_step: "pass_ok en sc ps \<Longrightarrow> rel \<in> set (pass_order sc) \<Longrightarrow> pass_ok en sc (path_step en sc rel ps)"
  by (simp add: path_step_def pass_ok_dir_step pass_ok_file_step)

lemma pass_ok_boundary: "pass_ok en sc ps \<Longrightarrow> pass_ok en sc (snd (depth_boundary en rel ps))"
  using pass_ok_flush [of en sc ps]
  by (auto simp: depth_boundary_def split: prod.splits sum.splits)

lemma pass_ok_loop:
  "pass_ok en sc ps \<Longrightarrow> set rels \<subseteq> set (pass_order sc) \<Longrightarrow> pass_ok en sc (snd (reconcile_loop en sc rels ps))"
proof (induction rels arbitrary: ps)
  case (Cons rel rels)
  then have "pass_ok en sc (snd (depth_boundary en rel ps))" by (simp add: pass_ok_boundary)
  with Cons show ?case
    by (auto simp: pass_ok_path_step split: prod.splits sum.splits)
qed simp

lemma pass_ok_remove_dirs:
  "remove_local_dirs en rels current ps = (rs, ps') \<Longrightarrow> pass_ok en sc ps \<Longrightarrow> \<forall>rel \<in> set rels. dir_gone_remotely sc rel \<Longrightarrow>
   pass_ok en sc ps' \<and> (\<forall>r \<in> set rs. \<forall>rel reason. r = Removed rel \<or> r = Kept rel reason \<longrightarrow> rel \<in> set (pass_order sc))"
proof (induction rels arbitrary: current ps rs ps')
  case (Cons rel rels)
  then have gone: "rel \<in> set (pass_order sc)" "pass_ok en sc (emit (ERemoveDir rel) ps)"
    by (auto simp: dir_gone_remotely_def intro!: pass_keeps)
  show ?case
  proof (cases "en_unsynced en (ps_log ps) rel current")
    case None
    with Cons.prems(1) obtain r rs' where rs: "rs = r # rs'" "r = Removed rel \<or> r = RemovalFailed rel"
      "remove_local_dirs en rels (filter (\<lambda>e. fst e \<noteq> rel \<and> \<not> starts_with (fst e) (rel @ ''/'')) current)
         (emit (ERemoveDir rel) ps) = (rs', ps')"
      by (auto simp: Let_def split: prod.splits)
    from Cons.IH [OF rs(3) gone(2)] Cons.prems(3) rs(1,2) gone(1) show ?thesis by auto
  next
    case (Some reason)
    with Cons.prems(1) obtain rs' where rs: "rs = Kept rel reason # rs'"
      "remove_local_dirs en rels (filter (\<lambda>e. fst e \<noteq> rel) current) ps = (rs', ps')"
      by (auto split: prod.splits)
    from Cons.IH [OF rs(2) Cons.prems(2)] Cons.prems(3) rs(1) gone(1) show ?thesis by auto
  qed
qed simp

lemma pass_ok_note_removals:
  "pass_ok en sc ps \<Longrightarrow> (\<forall>r \<in> set rs. \<forall>rel reason. r = Removed rel \<or> r = Kept rel reason \<longrightarrow> rel \<in> set (pass_order sc)) \<Longrightarrow>
   pass_ok en sc (fold note_removal rs ps)"
proof (induction rs arbitrary: ps)
  case (Cons r rs)
  then have "pass_ok en sc (note_removal r ps)" by (cases r) (auto intro!: pass_keeps)
  with Cons show ?case by simp
qed simp

lemma pass_ok_delete_local_dirs:
  assumes "pass_ok en sc ps"
  shows "pass_ok en sc (delete_local_dirs en ps)"
proof -
  obtain rs ps1 where rm: "remove_local_dirs en (deepest_first (\<lambda>rel. rel) (ps_del_local ps))
      (en_entries en (ps_log ps)) ps = (rs, ps1)" by fastforce
  have "\<forall>rel \<in> set (deepest_first (\<lambda>rel. rel) (ps_del_local ps)). dir_gone_remotely sc rel"
    using assms by (simp add: pass_ok_def deepest_first_def)
  from pass_ok_remove_dirs [OF rm assms this] show ?thesis
    using assms pass_ok_note_removals [of en sc ps1 rs] by (auto simp: delete_local_dirs_def rm)
qed

lemma pass_ok_trash_dirs:
  "pass_ok en sc ps \<Longrightarrow> \<forall>x \<in> set xs. dir_gone_locally sc x \<Longrightarrow> pass_ok en sc (fold (trash_dir_step en sc) xs ps)"
proof (induction xs arbitrary: ps)
  case (Cons x xs)
  obtain rel u where x: "x = (rel, u)" by (cases x)
  from Cons.prems have "pass_ok en sc (trash_dir_step en sc x ps)"
    by (auto simp: x trash_dir_step_def dir_gone_locally_def split: option.split intro!: pass_ok_trash)
  with Cons show ?case by simp
qed simp

lemma pass_ok_delete_dirs: "pass_ok en sc ps \<Longrightarrow> pass_ok en sc (delete_dirs en sc ps)"
  using pass_ok_delete_local_dirs [of en sc ps]
    pass_ok_trash_dirs [of en sc "delete_local_dirs en ps" "deepest_first fst (ps_del_remote (delete_local_dirs en ps))"]
  by (simp add: delete_dirs_def Let_def deepest_first_def pass_ok_def)

lemma pass_ok_start: "pass_ok en sc (pass_start sc)"
  by (simp add: pass_start_def pass_ok_def log_ok_def)

lemma pass_ok_do_reconcile: "pass_ok en sc (snd (do_reconcile en sc))"
proof -
  have loop: "pass_ok en sc (snd (reconcile_loop en sc (pass_order sc) (pass_start sc)))"
    by (rule pass_ok_loop [OF pass_ok_start]) simp
  then show ?thesis
    using pass_ok_flush [OF loop] pass_ok_start [of en sc]
    by (auto simp: do_reconcile_def Let_def pass_ok_delete_dirs split: prod.splits sum.splits)
qed

section \<open>The properties of a pass\<close>


text \<open>The path an effect is about.\<close>

fun effect_rel :: "effect \<Rightarrow> string option" where
  "effect_rel (EApply p) = Some (pending_rel p)"
| "effect_rel (EMkdir rel) = Some rel"
| "effect_rel (EUpsert _) = None"
| "effect_rel (EForget rel) = Some rel"
| "effect_rel (ERemoveFile rel) = Some rel"
| "effect_rel (ETrash rel _) = Some rel"
| "effect_rel (ERemoveDir rel) = Some rel"



section \<open>A folder in step\<close>

definition in_step :: "scan \<Rightarrow> string \<Rightarrow> bool" where
  "in_step sc rel = (if is_dir_here sc rel then has_key (sc_local sc) rel \<and> has_key (sc_remote sc) rel
     else plan_file (map_of (sc_local sc) rel) (map_of (sc_remote sc) rel) (map_of (sc_baseline sc) rel) = Unchanged)"

definition at_rest :: "pass \<Rightarrow> bool" where
  "at_rest ps = (ps_batch ps = [] \<and> ps_del_local ps = [] \<and> ps_del_remote ps = [] \<and>
     outcome_is_empty (ps_outcome ps) \<and> (\<forall>e \<in> set (ps_log ps). effect_rel e = None))"

lemma at_rest_emit: "at_rest ps \<Longrightarrow> at_rest (emit (EUpsert row) ps)"
  by (simp add: at_rest_def emit_def)

lemma at_rest_path_step:
  assumes "at_rest ps" and "in_step sc rel"
  shows "at_rest (path_step en sc rel ps)"
proof (cases "is_dir_here sc rel")
  case True
  with assms obtain r where "has_key (sc_local sc) rel" "map_of (sc_remote sc) rel = Some r"
    by (auto simp: in_step_def has_key_def)
  with True assms(1) show ?thesis by (simp add: path_step_def dir_step_def at_rest_emit)
next
  case False
  with assms show ?thesis
    by (auto simp: in_step_def path_step_def file_step_def Let_def at_rest_emit split: option.split)
qed

lemma at_rest_loop:
  assumes "\<And>log. \<not> en_ondemand en log"
  shows "at_rest ps \<Longrightarrow> \<forall>rel \<in> set rels. in_step sc rel \<Longrightarrow>
    fst (reconcile_loop en sc rels ps) = Inr () \<and> at_rest (snd (reconcile_loop en sc rels ps))"
proof (induction rels arbitrary: ps)
  case (Cons rel rels)
  then have "depth_boundary en rel ps = (Inr (), snd (depth_boundary en rel ps))"
    "at_rest (snd (depth_boundary en rel ps))"
    using assms by (auto simp: depth_boundary_def flush_batch_def at_rest_def)
  with Cons at_rest_path_step [of "snd (depth_boundary en rel ps)" sc rel en] show ?case
    by (metis (no_types, lifting) case_prod_conv list.set_intros(1) list.set_intros(2) old.sum.simps(6) reconcile_loop.simps(2))
qed simp

lemma in_step_present: "in_step sc rel \<Longrightarrow> has_key (sc_local sc) rel \<and> has_key (sc_remote sc) rel"
  by (auto simp: in_step_def has_key_def plan_file_def split: if_splits option.splits)

lemma tracked_in_order:
  assumes "no_gaps (sc_gaps sc)"
    and "rel \<in> set (keys (tracked_baseline (sc_baseline sc) (sc_rules sc) (sc_unscanned sc)))"
  shows "rel \<in> set (pass_order sc)"
proof -
  have rel: "has_key (sc_baseline sc) rel" "\<not> covers (sc_unscanned sc) rel"
    "\<not> ir_is_ignored (sc_rules sc) rel False" "\<not> ir_is_ignored (sc_rules sc) rel True"
    using assms(2) by (auto simp: tracked_baseline_def filter_baseline_def keys_def has_key_iff)
  then have "\<not> ir_is_ignored (sc_rules sc) rel d" for d by (cases d) simp_all
  with rel assms(1) show ?thesis
    by (simp add: pass_order_def classification_order_spec hides_def classified_def split: option.split)
qed

lemma none_missing_is_no_wipe:
  assumes "\<And>rel. rel \<in> set (keys baseline) \<Longrightarrow> has_key side rel"
  shows "\<not> looks_like_a_wipe (missing_from side baseline) (length baseline)"
proof -
  have "missing_from side baseline = 0"
    using assms by (simp add: missing_from_def filter_empty_conv)
  then show ?thesis by (auto simp: looks_like_a_wipe_def MASS_LOSS_MIN_PATHS_def MASS_LOSS_TENTHS_def)
qed

text \<open>C31. A pass over a folder that is in step finishes and moves nothing: no transfer, no
  deletion, no folder made on either side, only baseline rows confirmed, and an empty outcome.\<close>

theorem in_step_folder_is_left_alone:
  assumes "\<And>log. \<not> en_ondemand en log" and "no_gaps (sc_gaps sc)"
    and "\<forall>rel \<in> set (pass_order sc). in_step sc rel"
  shows "(\<exists>oc. fst (do_reconcile en sc) = Inr oc \<and> outcome_is_empty oc) \<and>
    (\<forall>e \<in> set (ps_log (snd (do_reconcile en sc))). \<exists>row. e = EUpsert row)"
proof -
  let ?t = "tracked_baseline (sc_baseline sc) (sc_rules sc) (sc_unscanned sc)"
  have here: "has_key (sc_local sc) rel" "has_key (sc_remote sc) rel" if "rel \<in> set (keys ?t)" for rel
    using in_step_present tracked_in_order [OF assms(2) that] assms(3) by blast+
  have guards: "guard_local_wipe ?t (sc_local sc) = Inr ()" "guard_remote_wipe ?t (sc_remote sc) = Inr ()"
    using none_missing_is_no_wipe [of ?t "sc_local sc", OF here(1)]
      none_missing_is_no_wipe [of ?t "sc_remote sc", OF here(2)]
    by (simp_all add: guard_local_wipe_def guard_remote_wipe_def)
  have "at_rest (pass_start sc)"
    by (simp add: at_rest_def pass_start_def outcome_is_empty_def outcome_default_def)
  from at_rest_loop [OF assms(1) this assms(3)] obtain ps where
    ps: "reconcile_loop en sc (pass_order sc) (pass_start sc) = (Inr (), ps)" "at_rest ps"
    by (metis prod.collapse)
  then have "do_reconcile en sc = (Inr (ps_outcome ps), ps)"
    by (simp add: do_reconcile_def guards flush_batch_def at_rest_def delete_dirs_def delete_local_dirs_def
        deepest_first_def)
  moreover have "\<exists>row. e = EUpsert row" if "effect_rel e = None" for e using that by (cases e) auto
  ultimately show ?thesis using ps(2) by (auto simp: at_rest_def)
qed

section \<open>A pass on concrete inputs\<close>

definition row_at :: "string \<Rightarrow> uid \<Rightarrow> stored_sync_entry" where
  "row_at rel u = \<lparr>se_rel_path = rel, se_remote_uid = Some u, se_local_mtime = 7, se_local_size = 3,
     se_local_mtime_ns = None, se_remote_rev = Some ''7'', se_remote_hash = Some ''3'', se_remote_revision_id = Some ''r''\<rparr>"

definition file_here :: local_item where
  "file_here = \<lparr>li_is_dir = False, li_mtime = 7, li_mtime_ns = None, li_size = 3, li_open_for_write = False\<rparr>"

definition file_there :: "uid \<Rightarrow> remote_item" where
  "file_there u = \<lparr>ri_uid = u, ri_is_dir = False, ri_mtime = 7, ri_size = 3, ri_revision = Some ''r'', ri_sha1 = None\<rparr>"

definition calm :: env where
  "calm = \<lparr>en_apply = (\<lambda>_ _. Inr AVanished), en_ok = (\<lambda>_ _. True), en_sig = (\<lambda>_ _. None), en_entries = (\<lambda>_. []),
     en_unsynced = (\<lambda>_ _ _. None), en_stopping = (\<lambda>_. False), en_ondemand = (\<lambda>_. False)\<rparr>"

definition two_files :: "local_item table \<Rightarrow> scan" where
  "two_files local = \<lparr>sc_local = local, sc_unscanned = nothing_unscanned,
     sc_remote = [(''a'', file_there ''v~a''), (''b'', file_there ''v~b'')], sc_remote_dirs = [([], ''v~r'')],
     sc_gaps = \<lparr>rg_short = [], rg_unread = [], rg_unlisted = []\<rparr>,
     sc_baseline = [(''a'', row_at ''a'' ''v~a''), (''b'', row_at ''b'' ''v~b'')], sc_rules = no_rules\<rparr>"

lemma trash_log: "ps_log (snd (do_reconcile calm (two_files [(''b'', file_here)]))) = [ETrash ''a'' ''v~a'', EForget ''a'']"
  by code_simp




theorem in_step_folder_is_left_alone_witness:
  "\<not> (\<exists>rel. ERemoveFile rel \<in> set (ps_log (snd (do_reconcile calm (two_files [(''a'', file_here), (''b'', file_here)])))))"
proof -
  let ?sc = "two_files [(''a'', file_here), (''b'', file_here)]"
  have "\<And>log. \<not> en_ondemand calm log" by (simp add: calm_def)
  moreover have "no_gaps (sc_gaps ?sc)" by code_simp
  moreover have "\<forall>rel \<in> set (pass_order ?sc). in_step ?sc rel" by code_simp
  ultimately have "\<forall>e \<in> set (ps_log (snd (do_reconcile calm ?sc))). \<exists>row. e = EUpsert row"
    by (rule in_step_folder_is_left_alone [THEN conjunct2])
  then show ?thesis by blast
qed

end
