(* ===== verification/Pause.thy ===== *)
theory Pause
  imports Schema
begin

text \<open>
  The key/value table \<open>sync_state\<close> (\<open>crates/pdfs-core/src/db/state.rs\<close>) behind an interface of its
  laws, and pausing sync on top of it (\<open>crates/pdfs-fuse/src/pause.rs\<close>): a pause is kept in the
  table and in memory, ends at its deadline, survives a restart, and a stale timer does nothing.
  Times are Unix seconds in \<open>i64\<close>.
\<close>

section \<open>The state table\<close>

definition state_str :: "db \<Rightarrow> string \<Rightarrow> string option" where
  "state_str d k = map_of (sync_state d) k"

definition set_state_str :: "db \<Rightarrow> string \<Rightarrow> string \<Rightarrow> db" where
  "set_state_str d k v =
     d\<lparr>sync_state := (if matches (\<lambda>r. fst r = k) (sync_state d)
         then update_where (\<lambda>r. fst r = k) (\<lambda>r. (fst r, v)) (sync_state d)
         else sync_state d @ [(k, v)])\<rparr>"

definition state_i64 :: "db \<Rightarrow> string \<Rightarrow> int option" where
  "state_i64 d k = Option.bind (state_str d k) parse_i64"

definition set_state_i64 :: "db \<Rightarrow> string \<Rightarrow> int \<Rightarrow> db" where
  "set_state_i64 d k v = set_state_str d k (show_int v)"

definition clear_state :: "db \<Rightarrow> string \<Rightarrow> db" where
  "clear_state d k = d\<lparr>sync_state := delete_where (\<lambda>r. fst r = k) (sync_state d)\<rparr>"

definition get_event_cursor :: "db \<Rightarrow> string option" where
  "get_event_cursor d = state_str d ''event_cursor''"

definition set_event_cursor :: "db \<Rightarrow> string \<Rightarrow> db" where
  "set_event_cursor d c = set_state_str d ''event_cursor'' c"

text \<open>
  \<open>clear_state_prefix\<close> deletes by \<open>key LIKE pattern ESCAPE '\'\<close>. The pattern is the prefix with its
  wildcards escaped, then a percent sign. LIKE ignores the case of ASCII letters.
\<close>

definition replace_char :: "char \<Rightarrow> string \<Rightarrow> string \<Rightarrow> string" where
  "replace_char c r s = concat (map (\<lambda>x. if x = c then r else [x]) s)"

definition backslash :: char where
  "backslash = CHR 0x5C"

definition like_pattern :: "string \<Rightarrow> string" where
  "like_pattern p = replace_char (CHR ''_'') [backslash, CHR ''_'']
     (replace_char (CHR ''%'') [backslash, CHR ''%''] (replace_char backslash [backslash, backslash] p)) @ ''%''"

fun like_match :: "string \<Rightarrow> string \<Rightarrow> bool" where
  "like_match [] s = (s = [])"
| "like_match (c # p) s =
     (if c = backslash then
        (case p of [] \<Rightarrow> False
         | e # p' \<Rightarrow> (case s of [] \<Rightarrow> False | x # s' \<Rightarrow> ascii_lower x = ascii_lower e \<and> like_match p' s'))
      else if c = CHR ''%'' then like_match p s \<or> (case s of [] \<Rightarrow> False | x # s' \<Rightarrow> like_match (c # p) s')
      else (case s of [] \<Rightarrow> False
            | x # s' \<Rightarrow> (c = CHR ''_'' \<or> ascii_lower x = ascii_lower c) \<and> like_match p s'))"

declare like_match.simps(2) [simp del]

definition clear_state_prefix :: "db \<Rightarrow> string \<Rightarrow> db" where
  "clear_state_prefix d p = d\<lparr>sync_state := delete_where (\<lambda>r. like_match (like_pattern p) (fst r)) (sync_state d)\<rparr>"

section \<open>The interface of a key/value table\<close>

locale kv_store =
  fixes get :: "'s \<Rightarrow> string \<Rightarrow> string option"
    and put :: "'s \<Rightarrow> string \<Rightarrow> string \<Rightarrow> 's"
    and del :: "'s \<Rightarrow> string \<Rightarrow> 's"
  assumes get_put: "get (put s k v) k' = (if k' = k then Some v else get s k')"
    and get_del: "get (del s k) k' = (if k' = k then None else get s k')"
begin

lemma int_round_trip:
  "I64_MIN \<le> i \<Longrightarrow> i \<le> I64_MAX \<Longrightarrow> Option.bind (get (put s k (show_int i)) k) parse_i64 = Some i"
  by (simp add: get_put)

lemma put_frame: "k' \<noteq> k \<Longrightarrow> get (put s k v) k' = get s k'"
  by (simp add: get_put)

lemma del_put: "get (del (put s k v) k) = get (del s k)"
  by (simp add: fun_eq_iff get_put get_del)

end

interpretation state: kv_store state_str set_state_str clear_state
  by unfold_locales (simp_all add: state_str_def set_state_str_def clear_state_def map_of_upsert map_of_delete_key
      del: matches_iff)

section \<open>Clearing by prefix\<close>

lemma like_percent: "like_match ''%'' s"
  by (induction s) (simp_all add: like_match.simps(2) backslash_def)

lemma like_pattern_Cons:
  "like_pattern (c # p) = (if c \<in> {backslash, CHR ''%'', CHR ''_''} then [backslash, c] else [c]) @ like_pattern p"
  by (auto simp: like_pattern_def replace_char_def backslash_def)

lemma like_pattern_match:
  "like_match (like_pattern p) s \<longleftrightarrow> map ascii_lower (take (length p) s) = map ascii_lower p"
proof (induction p arbitrary: s)
  case Nil
  then show ?case by (simp add: like_pattern_def replace_char_def like_percent)
next
  case (Cons c p)
  show ?case
  proof (cases s)
    case Nil
    then show ?thesis by (auto simp: like_pattern_Cons like_match.simps(2) backslash_def)
  next
    case (Cons x s')
    with Cons.IH [of s'] show ?thesis
      by (auto simp: like_pattern_Cons like_match.simps(2) backslash_def)
  qed
qed

text \<open>Clearing by prefix deletes exactly the keys that start with the prefix, with ASCII case
  ignored, whatever wildcards or backslashes the prefix holds: the escaping makes every one literal.\<close>

theorem clear_state_prefix_exact:
  "sync_state (clear_state_prefix d p) =
     filter (\<lambda>r. map ascii_lower (take (length p) (fst r)) \<noteq> map ascii_lower p) (sync_state d)"
  by (simp add: clear_state_prefix_def delete_where_def like_pattern_match)

section \<open>Pausing\<close>

definition PAUSED_UNTIL_KEY :: string where
  "PAUSED_UNTIL_KEY = ''sync_paused_until''"

definition FOLDER_PAUSED_PREFIX :: string where
  "FOLDER_PAUSED_PREFIX = ''sync_folder_paused:''"

definition PAUSED_INDEFINITELY :: int where
  "PAUSED_INDEFINITELY = I64_MAX"

definition folder_paused_key :: "int \<Rightarrow> string" where
  "folder_paused_key i = FOLDER_PAUSED_PREFIX @ show_int i"

definition load_folder_paused :: "db \<Rightarrow> int \<Rightarrow> bool" where
  "load_folder_paused d i = (case state_i64 d (folder_paused_key i) of Some v \<Rightarrow> v \<noteq> 0 | None \<Rightarrow> False)"

definition store_folder_paused :: "db \<Rightarrow> int \<Rightarrow> bool \<Rightarrow> db" where
  "store_folder_paused d i paused =
     (if paused then set_state_i64 d (folder_paused_key i) 1 else clear_state d (folder_paused_key i))"

definition load_paused_until :: "db \<Rightarrow> int" where
  "load_paused_until d = (case state_i64 d PAUSED_UNTIL_KEY of Some until \<Rightarrow> until | None \<Rightarrow> 0)"

definition paused_at :: "int \<Rightarrow> int \<Rightarrow> bool" where
  "paused_at until now = (until \<noteq> 0 \<and> now < until)"

text \<open>
  The part of \<open>Core\<close> a pause touches: the table, the atomic, the timers armed so far and how often
  the held-back work was woken.
\<close>

record pause_core =
  pa_db :: db
  pa_until :: int
  pa_timers :: "int list"
  pa_resumed :: nat

definition sync_paused :: "pause_core \<Rightarrow> int \<Rightarrow> bool" where
  "sync_paused c now = paused_at (pa_until c) now"

definition sync_pause :: "pause_core \<Rightarrow> int \<Rightarrow> int option option" where
  "sync_pause c now =
     (if \<not> paused_at (pa_until c) now then None
      else if pa_until c = PAUSED_INDEFINITELY then Some None else Some (Some (pa_until c)))"

definition arm_pause_timer :: "int \<Rightarrow> pause_core \<Rightarrow> pause_core" where
  "arm_pause_timer until c = c\<lparr>pa_timers := pa_timers c @ [until]\<rparr>"

definition resume_sync_work :: "pause_core \<Rightarrow> pause_core" where
  "resume_sync_work c = c\<lparr>pa_resumed := pa_resumed c + 1\<rparr>"

definition pause_value :: "int \<Rightarrow> bool \<Rightarrow> int option \<Rightarrow> string + int" where
  "pause_value now paused until =
     (if \<not> paused then Inr 0
      else (case until of
              None \<Rightarrow> Inr PAUSED_INDEFINITELY
            | Some t \<Rightarrow> (if t \<le> now then Inl ''the pause would already be over'' else Inr t)))"

definition set_sync_paused :: "pause_core \<Rightarrow> int \<Rightarrow> bool \<Rightarrow> int option \<Rightarrow> string + pause_core" where
  "set_sync_paused c now paused until = (case pause_value now paused until of
      Inl e \<Rightarrow> Inl e
    | Inr v \<Rightarrow>
        (let c1 = c\<lparr>pa_db := (if v = 0 then clear_state (pa_db c) PAUSED_UNTIL_KEY
                            else set_state_i64 (pa_db c) PAUSED_UNTIL_KEY v), pa_until := v\<rparr>
         in Inr (if v = 0 then resume_sync_work c1
                 else if v = PAUSED_INDEFINITELY then c1 else arm_pause_timer v c1)))"

text \<open>A timer whose time has come: \<open>compare_exchange\<close> on the deadline it was armed for.\<close>

definition pause_timer :: "int \<Rightarrow> pause_core \<Rightarrow> pause_core" where
  "pause_timer until c =
     (if pa_until c = until
      then resume_sync_work (c\<lparr>pa_until := 0, pa_db := clear_state (pa_db c) PAUSED_UNTIL_KEY\<rparr>) else c)"

text \<open>The daemon ends and a new one mounts on the same database.\<close>

definition pause_mount :: "db \<Rightarrow> int \<Rightarrow> pause_core" where
  "pause_mount d now =
     (let until = load_paused_until d;
          c = \<lparr>pa_db = d, pa_until = until, pa_timers = [], pa_resumed = 0\<rparr>
      in if paused_at until now \<and> until \<noteq> PAUSED_INDEFINITELY then arm_pause_timer until c else c)"

text \<open>\<open>folder_mode\<close> is the \<open>mode\<close> column of the synced folder with an id.\<close>

definition set_sync_folder_paused :: "(int \<Rightarrow> string option) \<Rightarrow> db \<Rightarrow> int \<Rightarrow> bool \<Rightarrow> string + db" where
  "set_sync_folder_paused folder_mode d i paused = (case folder_mode i of
      None \<Rightarrow> Inl (''no synced folder with id '' @ show_int i)
    | Some mode \<Rightarrow>
        (if paused \<and> mode \<noteq> ''mirror'' then Inl ''only a mirrored folder can be paused on its own; an on-demand folder uploads through the shared queue, so pause all sync instead''
         else Inr (store_folder_paused d i paused)))"

definition sync_folder_paused :: "db \<Rightarrow> int \<Rightarrow> bool" where
  "sync_folder_paused d i = load_folder_paused d i"

definition clear_sync_folder_paused :: "db \<Rightarrow> int \<Rightarrow> db" where
  "clear_sync_folder_paused d i = store_folder_paused d i False"

section \<open>The pause as a state machine\<close>

definition pause_inv :: "pause_core \<Rightarrow> bool" where
  "pause_inv c = (load_paused_until (pa_db c) = pa_until c)"

text \<open>The requests a caller may make name an end in \<open>i64\<close>; the clock is positive.\<close>

inductive pause_step :: "pause_core \<Rightarrow> pause_core \<Rightarrow> bool" where
  p_set: "0 < now \<Longrightarrow> (\<And>t. until = Some t \<Longrightarrow> t \<le> I64_MAX) \<Longrightarrow>
    set_sync_paused c now paused until = Inr c' \<Longrightarrow> pause_step c c'"
| p_timer: "t \<in> set (pa_timers c) \<Longrightarrow> pause_step c (pause_timer t c)"
| p_restart: "pause_step c (pause_mount (pa_db c) now)"
| p_folder: "set_sync_folder_paused folder_mode (pa_db c) i paused = Inr d' \<Longrightarrow> pause_step c (c\<lparr>pa_db := d'\<rparr>)"
| p_forget: "pause_step c (c\<lparr>pa_db := clear_sync_folder_paused (pa_db c) i\<rparr>)"

lemma load_paused_until_clear: "load_paused_until (clear_state d PAUSED_UNTIL_KEY) = 0"
  by (simp add: load_paused_until_def state_i64_def state.get_del)

lemma load_paused_until_set:
  "I64_MIN \<le> v \<Longrightarrow> v \<le> I64_MAX \<Longrightarrow> load_paused_until (set_state_i64 d PAUSED_UNTIL_KEY v) = v"
  by (simp add: load_paused_until_def state_i64_def set_state_i64_def state.get_put)

lemma folder_key_apart: "PAUSED_UNTIL_KEY \<noteq> folder_paused_key i"
  by (simp add: PAUSED_UNTIL_KEY_def folder_paused_key_def FOLDER_PAUSED_PREFIX_def)

lemma load_paused_until_folder: "load_paused_until (store_folder_paused d i p) = load_paused_until d"
  using folder_key_apart [of i]
  by (simp add: load_paused_until_def store_folder_paused_def state_i64_def set_state_i64_def
      state.get_put state.get_del)

lemma pause_value_range:
  assumes "pause_value now paused until = Inr v" and "0 < now" and "\<And>t. until = Some t \<Longrightarrow> t \<le> I64_MAX"
  shows "0 \<le> v \<and> v \<le> I64_MAX"
  using assms by (auto simp: pause_value_def PAUSED_INDEFINITELY_def I64_MAX_def split: if_splits option.splits)

lemma pause_inv_step: "pause_step c c' \<Longrightarrow> pause_inv c \<Longrightarrow> pause_inv c'"
proof (induction rule: pause_step.induct)
  case (p_set now until c paused c')
  then obtain v where v: "pause_value now paused until = Inr v" by (auto simp: set_sync_paused_def split: sum.splits)
  from pause_value_range [OF this p_set(1,2)] have "I64_MIN \<le> v" "v \<le> I64_MAX" by (auto simp: I64_MIN_def)
  with p_set(3) v show ?case
    by (auto simp: set_sync_paused_def Let_def pause_inv_def resume_sync_work_def arm_pause_timer_def
        load_paused_until_clear load_paused_until_set)
next
  case (p_timer t c)
  then show ?case
    by (simp add: pause_timer_def pause_inv_def resume_sync_work_def load_paused_until_clear)
next
  case (p_restart c now)
  then show ?case by (simp add: pause_mount_def pause_inv_def Let_def arm_pause_timer_def)
next
  case (p_folder folder_mode c i paused d')
  then show ?case
    by (auto simp: set_sync_folder_paused_def pause_inv_def load_paused_until_folder split: option.splits if_splits)
next
  case (p_forget c i)
  then show ?case by (simp add: clear_sync_folder_paused_def pause_inv_def load_paused_until_folder)
qed

definition pause_init :: "pause_core \<Rightarrow> bool" where
  "pause_init c = (\<exists>d now. c = pause_mount d now)"

lemma pause_inv_mount: "pause_inv (pause_mount d now)"
  by (simp add: pause_mount_def pause_inv_def Let_def arm_pause_timer_def)

interpretation pause: inv_system pause_init pause_step pause_inv
  by unfold_locales (auto simp: pause_init_def pause_inv_mount intro: pause_inv_step)

text \<open>C35. A restart neither ends a pause nor starts one: in every reachable state the daemon that
  mounts on the database next is paused at a moment exactly when this one is.\<close>

theorem restart_keeps_the_pause:
  assumes "reach pause_init pause_step c"
  shows "sync_paused (pause_mount (pa_db c) now) t = sync_paused c t \<and>
    sync_pause (pause_mount (pa_db c) now) t = sync_pause c t"
  using pause.reach_inv [OF assms]
  by (simp add: pause_inv_def pause_mount_def Let_def sync_paused_def sync_pause_def arm_pause_timer_def)

definition paused_core :: pause_core where
  "paused_core = projr (set_sync_paused (pause_mount empty_db 50) 100 True (Some 200))"

theorem restart_keeps_the_pause_witness:
  "sync_paused (pause_mount (pa_db paused_core) 150) 150 \<and> \<not> sync_paused (pause_mount (pa_db paused_core) 150) 200"
proof -
  have set: "set_sync_paused (pause_mount empty_db 50) 100 True (Some 200) = Inr paused_core"
    by (simp add: paused_core_def set_sync_paused_def pause_value_def Let_def)
  have "reach pause_init pause_step (pause_mount empty_db 50)"
    by (rule reach_init) (auto simp: pause_init_def)
  moreover have "pause_step (pause_mount empty_db 50) paused_core"
    by (rule p_set [OF _ _ set]) (simp_all add: I64_MAX_def)
  ultimately have r: "reach pause_init pause_step paused_core" by (rule reach_step)
  have "pa_until paused_core = 200"
    by (simp add: paused_core_def set_sync_paused_def pause_value_def Let_def PAUSED_INDEFINITELY_def I64_MAX_def
        arm_pause_timer_def)
  with restart_keeps_the_pause [OF r] show ?thesis by (simp add: sync_paused_def paused_at_def)
qed

text \<open>A pause is in force from the moment it is set to its deadline and not after; setting one
  that is already over is refused; a resume ends it at once and wakes the held-back work; a timer
  armed for a deadline that was since replaced does nothing, and the one armed for it ends the pause.\<close>

theorem pause_runs_to_its_deadline:
  "(set_sync_paused c now True (Some until) = Inr c' \<longrightarrow>
      now < until \<and> (\<forall>t. sync_paused c' t \<longleftrightarrow> until \<noteq> 0 \<and> t < until)) \<and>
   (until \<le> now \<longrightarrow> isl (set_sync_paused c now True (Some until))) \<and>
   (set_sync_paused c now True None = Inr c' \<longrightarrow> (\<forall>t < I64_MAX. sync_paused c' t)) \<and>
   (set_sync_paused c now False u = Inr c' \<longrightarrow> (\<forall>t. \<not> sync_paused c' t) \<and> pa_resumed c' = pa_resumed c + 1) \<and>
   (pa_until c \<noteq> until \<longrightarrow> pause_timer until c = c) \<and>
   (pa_until c = until \<longrightarrow> (\<forall>t. \<not> sync_paused (pause_timer until c) t) \<and> pa_resumed (pause_timer until c) = pa_resumed c + 1)"
  by (auto simp: set_sync_paused_def pause_value_def sync_paused_def paused_at_def Let_def resume_sync_work_def
      arm_pause_timer_def pause_timer_def PAUSED_INDEFINITELY_def I64_MAX_def split: if_splits)

theorem pause_runs_to_its_deadline_witness:
  "isl (set_sync_paused paused_core 300 True (Some 200))"
  using pause_runs_to_its_deadline [of paused_core 300 200] by simp

lemma show_nat_inj: "show_nat m = show_nat n \<Longrightarrow> m = n"
  by (metis parse_show_nat)

lemma show_int_inj:
  assumes "show_int i = show_int j"
  shows "i = j"
proof -
  have digit: "show_nat n \<noteq> CHR ''-'' # s" for n s
    using show_nat_digits [of n] by (auto simp: is_digit_def)
  show ?thesis
    using assms digit digit [symmetric] by (auto simp: show_int_def split: if_splits dest!: show_nat_inj)
qed

text \<open>A folder's own pause is its own: pausing or resuming one folder is read back for it and
  changes neither another folder's pause nor the pause of all sync.\<close>

theorem folder_pause_is_its_own:
  "load_folder_paused (store_folder_paused d i p) i = p \<and>
   (j \<noteq> i \<longrightarrow> load_folder_paused (store_folder_paused d i p) j = load_folder_paused d j) \<and>
   load_paused_until (store_folder_paused d i p) = load_paused_until d"
proof -
  have "folder_paused_key j = folder_paused_key i \<longleftrightarrow> j = i" for j
    using show_int_inj by (auto simp: folder_paused_key_def)
  then have "load_folder_paused (store_folder_paused d i p) i = p \<and>
      (j \<noteq> i \<longrightarrow> load_folder_paused (store_folder_paused d i p) j = load_folder_paused d j)"
    by (simp add: load_folder_paused_def store_folder_paused_def state_i64_def set_state_i64_def
        state.get_put state.get_del I64_MIN_def I64_MAX_def)
  with load_paused_until_folder [of d i p] show ?thesis by simp
qed

theorem folder_pause_is_its_own_witness:
  "load_folder_paused (store_folder_paused empty_db 3 True) 33 = load_folder_paused empty_db 33"
  using folder_pause_is_its_own [of empty_db 3 True 33] by simp

end
