(* ===== verification/Engine.thy ===== *)
theory Engine
  imports Prelude
begin

text \<open>
  The control plane of folder sync, \<open>crates/pdfs-fuse/src/sync/engine.rs\<close>: folding messages into a
  burst, waiting for a burst to settle, the order of its passes, which folder a watcher event asks
  for, which watches are kept, and the health record that contains a panicking pass.
  A path is the list of its components. Times are milliseconds.
\<close>

section \<open>Bursts\<close>

datatype sync_msg = ReconcileOne int | ReconcileAll | Rewatch | Stop

record burst =
  b_ids :: "int list"
  b_all :: bool
  b_rewatch :: bool

definition no_work :: burst where
  "no_work = \<lparr>b_ids = [], b_all = False, b_rewatch = False\<rparr>"

text \<open>\<open>classify\<close>: the message folded in, or \<open>None\<close> for the instruction to stop.\<close>

fun classify :: "sync_msg \<Rightarrow> burst \<Rightarrow> burst option" where
  "classify (ReconcileOne i) b = Some (b\<lparr>b_ids := List.insert i (b_ids b)\<rparr>)"
| "classify ReconcileAll b = Some (b\<lparr>b_all := True\<rparr>)"
| "classify Rewatch b = Some (b\<lparr>b_rewatch := True\<rparr>)"
| "classify Stop b = None"

definition DEBOUNCE :: nat where
  "DEBOUNCE = 2000"

definition MAX_SETTLE :: nat where
  "MAX_SETTLE = 30000"

text \<open>
  The channel is the list of its messages with their times of arrival. A wait ends with the message
  that arrives within it, or at its end. The result is whether the engine goes on, the burst, the
  time, and the messages left in the channel.
\<close>

fun settle_with ::
  "nat \<Rightarrow> nat \<Rightarrow> nat \<Rightarrow> (nat \<times> sync_msg) list \<Rightarrow> burst \<Rightarrow> bool \<times> burst \<times> nat \<times> (nat \<times> sync_msg) list" where
  "settle_with quiet deadline now [] b =
     (True, b, (if now \<ge> deadline then now else now + min quiet (deadline - now)), [])"
| "settle_with quiet deadline now ((t, m) # rx) b =
     (if now \<ge> deadline then (True, b, now, (t, m) # rx)
      else (let wait = min quiet (deadline - now)
            in if t \<le> now + wait
               then (case classify m b of
                       None \<Rightarrow> (False, b, max now t, rx)
                     | Some b' \<Rightarrow> settle_with quiet deadline (max now t) rx b')
               else (True, b, now + wait, (t, m) # rx)))"

definition settle :: "nat \<Rightarrow> (nat \<times> sync_msg) list \<Rightarrow> burst \<Rightarrow> bool \<times> burst \<times> nat \<times> (nat \<times> sync_msg) list" where
  "settle now rx b = settle_with DEBOUNCE (now + MAX_SETTLE) now rx b"

definition burst_order :: "int list \<Rightarrow> int list \<Rightarrow> int list" where
  "burst_order ids listed = sort ids @ filter (\<lambda>i. i \<notin> set ids) listed"

text \<open>
  \<open>run_burst\<close>: the folders whose pass runs, in order. \<open>paused k\<close> is whether sync is paused when the
  burst has run \<open>k\<close> passes; the first check is before the folders are listed.
\<close>

fun until_paused :: "(nat \<Rightarrow> bool) \<Rightarrow> nat \<Rightarrow> int list \<Rightarrow> int list" where
  "until_paused paused k [] = []"
| "until_paused paused k (i # is) = (if paused k then [] else i # until_paused paused (Suc k) is)"

definition run_burst :: "(nat \<Rightarrow> bool) \<Rightarrow> int list option \<Rightarrow> burst \<Rightarrow> int list" where
  "run_burst paused folders b =
     (if paused 0 then []
      else until_paused paused 0 (burst_order (b_ids b)
             (if b_all b then (case folders of Some fs \<Rightarrow> fs | None \<Rightarrow> []) else [])))"

section \<open>Watches\<close>

type_synonym path = "string list"

text \<open>\<open>max_by_key\<close> returns the last of the greatest.\<close>

fun deepest_root :: "(path \<times> int) list \<Rightarrow> (path \<times> int) option" where
  "deepest_root [] = None"
| "deepest_root (w # ws) = (case deepest_root ws of
      None \<Rightarrow> Some w
    | Some v \<Rightarrow> (if length (fst v) \<ge> length (fst w) then Some v else Some w))"

definition folder_of :: "(path \<times> int) list \<Rightarrow> path \<Rightarrow> int option" where
  "folder_of watched p = map_option snd (deepest_root (filter (\<lambda>(root, _). prefix root p) watched))"

definition event_target :: "(path \<times> int) list \<Rightarrow> path list \<Rightarrow> sync_msg" where
  "event_target watched paths = (case map (folder_of watched) paths of
      Some first # rest \<Rightarrow> (if list_all (\<lambda>i. i = Some first) rest then ReconcileOne first else ReconcileAll)
    | _ \<Rightarrow> ReconcileAll)"

definition keep_wanted :: "(path \<times> int) list \<Rightarrow> (path \<times> int) list \<Rightarrow> (path \<times> int) list \<times> path list" where
  "keep_wanted have want =
     (List.map_filter (\<lambda>(p, i). map_option (\<lambda>w. (p, snd w)) (find (\<lambda>w. fst w = p) want)) have,
      map fst (filter (\<lambda>(p, _). find (\<lambda>w. fst w = p) want = None) have))"

text \<open>
  \<open>rewatch\<close>: drop the watches no longer wanted, then add the new ones; \<open>watch_ok\<close> is what the
  watcher answers. The result is the new list and whether a folder is left unwatched.
\<close>

definition add_watch :: "(path \<Rightarrow> bool) \<Rightarrow> path \<times> int \<Rightarrow> (path \<times> int) list \<times> bool \<Rightarrow> (path \<times> int) list \<times> bool" where
  "add_watch watch_ok w = (\<lambda>(have, failed).
     if list_ex (\<lambda>h. fst h = fst w) have then (have, failed)
     else if watch_ok (fst w) then (have @ [w], failed) else (have, True))"

definition rewatch :: "(path \<Rightarrow> bool) \<Rightarrow> (path \<times> int) list \<Rightarrow> (path \<times> int) list \<Rightarrow> (path \<times> int) list \<times> bool" where
  "rewatch watch_ok watched want = fold (add_watch watch_ok) want (fst (keep_wanted watched want), False)"

section \<open>Engine health\<close>

record pass_clock =
  clk_folder :: int
  clk_started :: nat
  clk_moved :: nat

record engine_health =
  eh_running :: bool
  eh_pass :: "pass_clock option"
  eh_panics :: nat

record engine_report =
  er_running :: bool
  er_pass_folder :: "int option"
  er_pass_age_secs :: nat
  er_pass_idle_secs :: nat
  er_panics :: nat

definition eh_start :: "engine_health \<Rightarrow> engine_health" where
  "eh_start h = h\<lparr>eh_running := True\<rparr>"

definition eh_drop :: "engine_health \<Rightarrow> engine_health" where
  "eh_drop h = h\<lparr>eh_running := False\<rparr>"

definition eh_moved :: "nat \<Rightarrow> engine_health \<Rightarrow> engine_health" where
  "eh_moved now h = h\<lparr>eh_pass := map_option (\<lambda>p. p\<lparr>clk_moved := now\<rparr>) (eh_pass h)\<rparr>"

definition eh_report :: "nat \<Rightarrow> engine_health \<Rightarrow> engine_report" where
  "eh_report now h = \<lparr>er_running = eh_running h, er_pass_folder = map_option clk_folder (eh_pass h),
     er_pass_age_secs = (case eh_pass h of Some p \<Rightarrow> (now - clk_started p) div 1000 | None \<Rightarrow> 0),
     er_pass_idle_secs = (case eh_pass h of Some p \<Rightarrow> (now - clk_moved p) div 1000 | None \<Rightarrow> 0),
     er_panics = eh_panics h\<rparr>"

text \<open>\<open>contain\<close>: \<open>run\<close> is the pass, from the health it starts in to whether it finished and the health it left.\<close>

definition contain :: "int \<Rightarrow> nat \<Rightarrow> (engine_health \<Rightarrow> bool \<times> engine_health) \<Rightarrow> engine_health \<Rightarrow> bool \<times> engine_health" where
  "contain folder now run h =
     (let (finished, h1) = run (h\<lparr>eh_pass := Some \<lparr>clk_folder = folder, clk_started = now, clk_moved = now\<rparr>\<rparr>);
          h2 = h1\<lparr>eh_pass := None\<rparr>
      in (finished, if finished then h2 else h2\<lparr>eh_panics := eh_panics h2 + 1\<rparr>))"

section \<open>Properties\<close>

fun fold_msgs :: "sync_msg list \<Rightarrow> burst \<Rightarrow> burst" where
  "fold_msgs [] b = b"
| "fold_msgs (m # ms) b = fold_msgs ms (case classify m b of Some b' \<Rightarrow> b' | None \<Rightarrow> b)"

lemma classify_None: "classify m b = None \<longleftrightarrow> m = Stop"
  by (cases m) auto



text \<open>A burst runs each folder it asks for once: the named folders first, lowest id first, then
  the others that are listed, in their own order; a pause that lands between passes cuts the rest.\<close>

theorem burst_order_spec:
  assumes "distinct ids" and "distinct listed"
  shows "distinct (burst_order ids listed) \<and> set (burst_order ids listed) = set ids \<union> set listed \<and>
    take (length ids) (burst_order ids listed) = sort ids \<and>
    (\<exists>rest. burst_order ids listed = run_burst paused (Some listed) \<lparr>b_ids = ids, b_all = True, b_rewatch = r\<rparr> @ rest)"
proof -
  have "\<exists>rest. is = until_paused paused k is @ rest" for k "is"
    by (induction k "is" rule: until_paused.induct [where ?a0.0 = paused]) auto
  with assms show ?thesis by (auto simp: burst_order_def run_burst_def)
qed

theorem burst_order_spec_witness:
  "burst_order [9, 4] [1, 4, 7, 9] = [4, 9, 1, 7] \<and> distinct (burst_order [9, 4] [1, 4, 7, 9])"
  using burst_order_spec [of "[9, 4]" "[1, 4, 7, 9]"] by (simp add: burst_order_def)

lemma deepest_root_Some:
  "deepest_root ws = Some w \<Longrightarrow> w \<in> set ws \<and> (\<forall>v \<in> set ws. length (fst v) \<le> length (fst w))"
proof (induction ws arbitrary: w)
  case (Cons x xs)
  show ?case
  proof (cases "deepest_root xs")
    case None
    with Cons.prems show ?thesis by (cases xs) (auto split: option.splits if_splits)
  next
    case (Some v)
    with Cons.IH [OF Some] Cons.prems show ?thesis by (auto split: if_splits)
  qed
qed simp

lemma deepest_root_None: "deepest_root ws = None \<longleftrightarrow> ws = []"
  by (cases ws) (auto split: option.splits)

text \<open>A watcher event reconciles one folder only when every path it names lies in that folder,
  and in the deepest watched root that claims the path; otherwise, and always when some path is
  claimed by no root, every folder is reconciled, so no change is dropped.\<close>

theorem event_target_sound:
  "(event_target watched paths = ReconcileOne i \<longrightarrow> paths \<noteq> [] \<and>
      (\<forall>p \<in> set paths. \<exists>root. (root, i) \<in> set watched \<and> prefix root p \<and>
         (\<forall>(r, j) \<in> set watched. prefix r p \<longrightarrow> length r \<le> length root))) \<and>
   ((\<exists>p \<in> set paths. \<forall>(r, j) \<in> set watched. \<not> prefix r p) \<longrightarrow> event_target watched paths = ReconcileAll) \<and>
   event_target watched paths \<noteq> Stop \<and> event_target watched paths \<noteq> Rewatch"
proof -
  have one: "event_target watched paths = ReconcileOne i \<longleftrightarrow>
      paths \<noteq> [] \<and> (\<forall>p \<in> set paths. folder_of watched p = Some i)" for i
    by (cases paths) (auto simp: event_target_def list_all_iff split: option.splits)
  have claimed: "\<exists>root. (root, i) \<in> set watched \<and> prefix root p \<and> (\<forall>(r, j) \<in> set watched. prefix r p \<longrightarrow> length r \<le> length root)"
    if "folder_of watched p = Some i" for p i
  proof -
    from that obtain root where r: "deepest_root (filter (\<lambda>(root, _). prefix root p) watched) = Some (root, i)"
      by (auto simp: folder_of_def)
    from deepest_root_Some [OF r] show ?thesis by (intro exI [of _ root]) auto
  qed
  have unclaimed: "folder_of watched p = None" if "\<forall>(r, j) \<in> set watched. \<not> prefix r p" for p
    using that by (auto simp: folder_of_def deepest_root_None filter_empty_conv)
  have "event_target watched paths \<in> {ReconcileAll} \<union> range ReconcileOne"
    by (auto simp: event_target_def split: list.splits option.splits)
  then show ?thesis
  proof (cases "event_target watched paths")
    case (ReconcileOne j)
    with one [of j] have all: "paths \<noteq> []" "\<forall>p \<in> set paths. folder_of watched p = Some j" by simp_all
    have "\<not> (\<exists>p \<in> set paths. \<forall>(r, j) \<in> set watched. \<not> prefix r p)"
    proof
      assume "\<exists>p \<in> set paths. \<forall>(r, j) \<in> set watched. \<not> prefix r p"
      then obtain p where "p \<in> set paths" "\<forall>(r, j) \<in> set watched. \<not> prefix r p" by (rule bexE)
      with unclaimed [of p] all(2) show False by simp
    qed
    moreover have "\<forall>p \<in> set paths. \<exists>root. (root, j) \<in> set watched \<and> prefix root p \<and>
        (\<forall>(r, k) \<in> set watched. prefix r p \<longrightarrow> length r \<le> length root)"
      by (intro ballI claimed) (simp add: all(2))
    ultimately show ?thesis using ReconcileOne all(1) by (cases "j = i") (simp_all add: split_def)
  qed auto
qed

theorem event_target_sound_witness:
  "event_target [([''a''], 1), ([''a'', ''b''], 2)] [[''a'', ''b'', ''x''], [''z'']] = ReconcileAll"
  using event_target_sound [of "[([''a''], 1), ([''a'', ''b''], 2)]" "[[''a'', ''b'', ''x''], [''z'']]" 2] by simp

text \<open>A watch that is still wanted is kept under the id the folder has now; every other one is
  returned to be dropped, and none is both.\<close>

theorem keep_wanted_spec:
  assumes "keep_wanted have want = (kept, dropped)"
  shows "set kept = {(p, i). p \<in> fst ` set have \<and> map_of want p = Some i} \<and>
    set dropped = fst ` set have - fst ` set want"
proof -
  have find: "map_option snd (find (\<lambda>w. fst w = p) want) = map_of want p" for p
    by (induction want) auto
  have none: "find (\<lambda>w. fst w = p) want = None \<longleftrightarrow> p \<notin> fst ` set want" for p
    by (force simp: find_None_iff)
  have "set kept = {(p, i). p \<in> fst ` set have \<and> map_option snd (find (\<lambda>w. fst w = p) want) = Some i}"
    using assms by (force simp: keep_wanted_def List.map_filter_def split: prod.splits)
  moreover have "set dropped = fst ` set have - fst ` set want"
    using assms by (force simp: keep_wanted_def none)
  ultimately show ?thesis using find by simp
qed

theorem keep_wanted_spec_witness:
  "set (fst (keep_wanted [([''a''], 1), ([''b''], 2)] [([''a''], 7)])) = {([''a''], 7)}"
  using keep_wanted_spec [of "[([''a''], 1), ([''b''], 2)]" "[([''a''], 7)]" "[([''a''], 7)]" "[[''b'']]"]
  by (auto simp: keep_wanted_def List.map_filter_def)

end
