(* ===== verification/Intervals.thy ===== *)
theory Intervals
  imports Prelude
begin

text \<open>
  The interval set of \<open>crates/pdfs-fuse/src/state.rs\<close> (\<open>Intervals\<close>): which bytes of a staged write
  were authored on this machine. The representation is the code's vector of half-open ranges. Its
  meaning is the set of byte positions it covers (\<open>bytes_of\<close>); the lemmas show that every operation
  keeps the vector sorted, merged and free of empty ranges (\<open>wf_ivs\<close>), that it computes the set
  operation its comment names, and that two well-formed vectors with the same positions are equal.
\<close>

section \<open>Operations\<close>

type_synonym ivs = "(nat \<times> nat) list"

text \<open>
  The merge loop of \<open>Intervals::add\<close>: the vector built so far is kept last range first, so that
  \<open>last_mut\<close> is its head.
\<close>

fun merge_into :: "ivs \<Rightarrow> nat \<times> nat \<Rightarrow> ivs" where
  "merge_into [] (s, e) = [(s, e)]"
| "merge_into ((a, b) # m) (s, e) = (if s \<le> b then (a, max b e) # m else (s, e) # (a, b) # m)"

definition iv_add :: "ivs \<Rightarrow> nat \<Rightarrow> nat \<Rightarrow> ivs" where
  "iv_add w start stop =
     (if start \<ge> stop then w
      else rev (foldl merge_into [] (sort_key fst (w @ [(start, stop)]))))"

definition iv_clip :: "ivs \<Rightarrow> nat \<Rightarrow> ivs" where
  "iv_clip w len = map (\<lambda>(s, e). (s, min e len)) (filter (\<lambda>(s, e). s < len) w)"

text \<open>\<open>Intervals::segments\<close>: the loop over the ranges, with \<open>pos\<close> its cursor.\<close>

definition seg_tail :: "nat \<Rightarrow> nat \<Rightarrow> (nat \<times> nat \<times> bool) list" where
  "seg_tail pos stop = (if pos < stop then [(pos, stop, False)] else [])"

fun seg_loop :: "nat \<Rightarrow> nat \<Rightarrow> nat \<Rightarrow> ivs \<Rightarrow> (nat \<times> nat \<times> bool) list" where
  "seg_loop start stop pos [] = seg_tail pos stop"
| "seg_loop start stop pos ((s, e) # w) =
     (if e \<le> start then seg_loop start stop pos w
      else if s \<ge> stop then seg_tail pos stop
      else let ws = max s start; we = min e stop
           in (if pos < ws then [(pos, ws, False)] else []) @ (ws, we, True) # seg_loop start stop we w)"

definition segments :: "ivs \<Rightarrow> nat \<Rightarrow> nat \<Rightarrow> (nat \<times> nat \<times> bool) list" where
  "segments w start stop = seg_loop start stop start w"

text \<open>
  What several callers do with these: rebuild a set from a stored list of ranges, and store the
  authored part of \<open>[0, len)\<close>.
\<close>

definition of_ranges :: "(nat \<times> nat) list \<Rightarrow> ivs" where
  "of_ranges rs = foldl (\<lambda>w (s, e). iv_add w s e) [] rs"

definition authored_ranges :: "ivs \<Rightarrow> nat \<Rightarrow> (nat \<times> nat) list" where
  "authored_ranges w len =
     map (\<lambda>(s, e, _). (s, e)) (filter (\<lambda>(_, _, authored). authored) (segments w 0 len))"

text \<open>\<open>StagedWrite::covers\<close>.\<close>

definition covers_file :: "(nat \<times> nat) list \<Rightarrow> nat \<Rightarrow> bool" where
  "covers_file authored len = (len = 0 \<or> authored = [(0, len)])"

section \<open>Meaning and well-formedness\<close>

definition bytes_of :: "ivs \<Rightarrow> nat set" where
  "bytes_of w = (\<Union>(s, e) \<in> set w. {s..<e})"

definition wf_ivs :: "ivs \<Rightarrow> bool" where
  "wf_ivs w = (sorted_wrt (\<lambda>a b. snd a < fst b) w \<and> list_all (\<lambda>(s, e). s < e) w)"

lemma bytes_of_simps [simp]:
  "bytes_of [] = {}"
  "bytes_of ((s, e) # w) = {s..<e} \<union> bytes_of w"
  "bytes_of (v @ w) = bytes_of v \<union> bytes_of w"
  "bytes_of (rev w) = bytes_of w"
  by (auto simp: bytes_of_def)

lemma bytes_of_set_cong: "set v = set w \<Longrightarrow> bytes_of v = bytes_of w"
  by (simp add: bytes_of_def)

lemma wf_ivs_Nil [simp]: "wf_ivs []"
  by (simp add: wf_ivs_def)

lemma wf_ivs_Cons:
  "wf_ivs ((s, e) # w) \<longleftrightarrow> s < e \<and> (\<forall>(a, b) \<in> set w. e < a) \<and> wf_ivs w"
  by (auto simp: wf_ivs_def)

lemma wf_ivs_nonempty: "wf_ivs w \<Longrightarrow> (s, e) \<in> set w \<Longrightarrow> s < e"
  by (auto simp: wf_ivs_def list_all_iff)

text \<open>In a well-formed vector nothing after the first range touches it.\<close>

lemma bytes_of_after: "wf_ivs ((s, e) # w) \<Longrightarrow> n \<in> bytes_of w \<Longrightarrow> e < n"
  by (fastforce simp: wf_ivs_Cons bytes_of_def)

section \<open>\<open>add\<close>\<close>

text \<open>The accumulator of the merge loop is a well-formed vector, read backwards.\<close>

definition merged :: "ivs \<Rightarrow> bool" where
  "merged m = wf_ivs (rev m)"

lemma merged_Cons:
  "merged ((s, e) # m) \<longleftrightarrow> s < e \<and> (\<forall>(a, b) \<in> set m. b < s) \<and> merged m"
  by (auto simp: merged_def wf_ivs_def sorted_wrt_append list_all_iff)

lemma merge_into_step:
  assumes "merged m" and "s < e" and "m \<noteq> [] \<longrightarrow> fst (hd m) \<le> s"
  shows "merged (merge_into m (s, e)) \<and> bytes_of (merge_into m (s, e)) = bytes_of m \<union> {s..<e} \<and>
         merge_into m (s, e) \<noteq> [] \<and> fst (hd (merge_into m (s, e))) \<le> s"
proof (cases m)
  case Nil
  then show ?thesis using assms(2) by (simp add: merged_def wf_ivs_def)
next
  case (Cons ab n)
  obtain a b where "ab = (a, b)" by (cases ab)
  with Cons assms have m: "m = (a, b) # n" "merged ((a, b) # n)" "a \<le> s" by auto
  then have "{a..<b} \<union> {s..<e} = {a..<max b e}" if "s \<le> b" using that by (auto simp: merged_Cons)
  with m assms(2) show ?thesis
    by (cases "s \<le> b") (auto simp: merged_Cons)
qed

lemma merge_loop:
  assumes "merged m" and "sorted (map fst xs)" and "list_all (\<lambda>(s, e). s < e) xs"
    and "m \<noteq> [] \<Longrightarrow> \<forall>x \<in> set xs. fst (hd m) \<le> fst x"
  shows "merged (foldl merge_into m xs) \<and> bytes_of (foldl merge_into m xs) = bytes_of m \<union> bytes_of xs"
  using assms
proof (induction xs arbitrary: m)
  case (Cons x xs)
  obtain s e where x: "x = (s, e)" by (cases x)
  from Cons.prems x have "merged m" "s < e" "m \<noteq> [] \<longrightarrow> fst (hd m) \<le> s" by auto
  note st = merge_into_step [OF this]
  have "merged (foldl merge_into (merge_into m x) xs) \<and>
        bytes_of (foldl merge_into (merge_into m x) xs) = bytes_of (merge_into m x) \<union> bytes_of xs"
    by (rule Cons.IH) (use st Cons.prems x in \<open>auto intro: order_trans\<close>)
  with st x show ?case by auto
qed simp

lemma iv_add_spec:
  assumes "list_all (\<lambda>(s, e). s < e) w"
  shows "start < stop \<Longrightarrow> wf_ivs (iv_add w start stop)"
    and "bytes_of (iv_add w start stop) = bytes_of w \<union> {start..<stop}"
proof -
  let ?xs = "sort_key fst (w @ [(start, stop)])"
  have add: "merged (foldl merge_into [] ?xs) \<and> bytes_of (foldl merge_into [] ?xs) = bytes_of ?xs"
    if "start < stop"
    using merge_loop [of "[]" ?xs] that assms by (simp add: merged_def list_all_iff)
  then show "start < stop \<Longrightarrow> wf_ivs (iv_add w start stop)"
    by (simp add: iv_add_def merged_def)
  have "bytes_of ?xs = bytes_of w \<union> {start..<stop}"
    using bytes_of_set_cong [of ?xs "w @ [(start, stop)]"] by simp
  with add show "bytes_of (iv_add w start stop) = bytes_of w \<union> {start..<stop}"
    by (cases "start < stop") (auto simp: iv_add_def)
qed

lemma wf_iv_add [simp]: "wf_ivs w \<Longrightarrow> wf_ivs (iv_add w start stop)"
  using iv_add_spec(1) [of w start stop] by (cases "start < stop") (auto simp: wf_ivs_def iv_add_def)

lemma bytes_iv_add [simp]:
  "wf_ivs w \<Longrightarrow> bytes_of (iv_add w start stop) = bytes_of w \<union> {start..<stop}"
  by (rule iv_add_spec(2)) (simp add: wf_ivs_def)

section \<open>\<open>clip\<close>\<close>

lemma iv_clip_simps [simp]:
  "iv_clip [] len = []"
  "iv_clip ((s, e) # w) len = (if s < len then (s, min e len) # iv_clip w len else iv_clip w len)"
  by (simp_all add: iv_clip_def)

lemma iv_clip_from: "(a, b) \<in> set (iv_clip w len) \<Longrightarrow> \<exists>b'. (a, b') \<in> set w"
  by (auto simp: iv_clip_def)

lemma wf_ivs_ConsI:
  "s < e \<Longrightarrow> (\<And>a b. (a, b) \<in> set w \<Longrightarrow> e < a) \<Longrightarrow> wf_ivs w \<Longrightarrow> wf_ivs ((s, e) # w)"
  by (auto simp: wf_ivs_Cons)

lemma wf_iv_clip [simp]:
  assumes "wf_ivs w"
  shows "wf_ivs (iv_clip w len)"
  using assms
proof (induction w)
  case (Cons x w)
  obtain s e where x: "x = (s, e)" by (cases x)
  have se: "s < e" and wf: "wf_ivs w" and nx: "\<And>a b. (a, b) \<in> set w \<Longrightarrow> e < a"
    using Cons.prems x by (auto simp: wf_ivs_Cons)
  have "wf_ivs ((s, min e len) # iv_clip w len)" if "s < len"
  proof (rule wf_ivs_ConsI)
    show "s < min e len" using se that by simp
    show "min e len < a" if ab: "(a, b) \<in> set (iv_clip w len)" for a b
    proof -
      obtain b' where "(a, b') \<in> set w" using iv_clip_from [OF ab] by blast
      from nx [OF this] show ?thesis by linarith
    qed
    show "wf_ivs (iv_clip w len)" using Cons.IH [OF wf] .
  qed
  with x Cons.IH [OF wf] show ?case by simp
qed simp

lemma bytes_iv_clip [simp]: "bytes_of (iv_clip w len) = bytes_of w \<inter> {..<len}"
proof (rule set_eqI)
  show "n \<in> bytes_of (iv_clip w len) \<longleftrightarrow> n \<in> bytes_of w \<inter> {..<len}" for n
  proof (induction w)
    case (Cons x w)
    then show ?case by (cases x, cases "fst x < len") auto
  qed simp
qed

section \<open>One representation per set\<close>

lemma bytes_of_empty_iff: "wf_ivs w \<Longrightarrow> bytes_of w = {} \<longleftrightarrow> w = []"
  by (cases w) (auto simp: wf_ivs_Cons)

lemma bytes_of_first:
  assumes "wf_ivs ((s, e) # w)"
  shows "s = (LEAST n. n \<in> bytes_of ((s, e) # w))"
    and "e = (LEAST n. s \<le> n \<and> n \<notin> bytes_of ((s, e) # w))"
proof -
  have s: "s < e" using assms by (simp add: wf_ivs_Cons)
  have after: "\<And>n. n \<in> bytes_of w \<Longrightarrow> e < n" using assms by (rule bytes_of_after)
  show "s = (LEAST n. n \<in> bytes_of ((s, e) # w))"
    by (rule Least_equality [symmetric]) (use s after in \<open>fastforce+\<close>)
  show "e = (LEAST n. s \<le> n \<and> n \<notin> bytes_of ((s, e) # w))"
    by (rule Least_equality [symmetric]) (use s after in \<open>fastforce+\<close>)
qed

lemma bytes_of_rest:
  "wf_ivs ((s, e) # w) \<Longrightarrow> bytes_of w = bytes_of ((s, e) # w) - {..e}"
  using bytes_of_after [of s e w] by (fastforce simp: wf_ivs_Cons)

lemma wf_ivs_unique:
  assumes "wf_ivs v" and "wf_ivs w" and "bytes_of v = bytes_of w"
  shows "v = w"
  using assms
proof (induction v arbitrary: w)
  case Nil
  then show ?case using bytes_of_empty_iff by force
next
  case (Cons x v)
  obtain s e where x: "x = (s, e)" by (cases x)
  from Cons.prems have "w \<noteq> []" using bytes_of_empty_iff by fastforce
  then obtain s' e' w' where w: "w = (s', e') # w'" by (cases w) auto
  from Cons.prems x w have wfs: "wf_ivs ((s, e) # v)" "wf_ivs ((s', e') # w')"
    and eq: "bytes_of ((s, e) # v) = bytes_of ((s', e') # w')" by auto
  have s: "s = s'" by (metis bytes_of_first(1) eq wfs)
  have e: "e = e'" by (metis bytes_of_first(2) eq wfs s)
  have "bytes_of v = bytes_of w'" using bytes_of_rest [OF wfs(1)] bytes_of_rest [OF wfs(2)] eq e by simp
  with Cons.IH wfs have "v = w'" by (simp add: wf_ivs_Cons)
  with x w s e show ?case by simp
qed

section \<open>\<open>segments\<close>\<close>

text \<open>Contiguous pieces from \<open>a\<close> to \<open>b\<close>, each with bytes of one kind.\<close>

fun tiles :: "nat set \<Rightarrow> nat \<Rightarrow> nat \<Rightarrow> (nat \<times> nat \<times> bool) list \<Rightarrow> bool" where
  "tiles B a b [] = (a = b)"
| "tiles B a b ((s, e, f) # r) =
     (s = a \<and> s < e \<and> (if f then {s..<e} \<subseteq> B else {s..<e} \<inter> B = {}) \<and> tiles B e b r)"

lemma tiles_tail: "pos \<le> stop \<Longrightarrow> {pos..<stop} \<inter> B = {} \<Longrightarrow> tiles B pos stop (seg_tail pos stop)"
  by (simp add: seg_tail_def)

lemma tiles_append:
  "tiles B a b xs \<Longrightarrow> tiles B b c ys \<Longrightarrow> tiles B a c (xs @ ys)"
  by (induction B a b xs rule: tiles.induct) auto

text \<open>The loop from a cursor before every remaining range.\<close>

lemma seg_loop_tiles:
  assumes "wf_ivs w" and "start \<le> pos" and "pos \<le> stop" and "start < stop"
    and "\<forall>(s, e) \<in> set w. e \<le> start \<or> pos \<le> max s start"
    and "B \<inter> {pos..<stop} = bytes_of w \<inter> {pos..<stop}"
  shows "tiles B pos stop (seg_loop start stop pos w)"
  using assms
proof (induction w arbitrary: pos)
  case Nil
  then show ?case by (auto intro!: tiles_tail)
next
  case (Cons x w)
  obtain s e where x: "x = (s, e)" by (cases x)
  note wf = Cons.prems(1) [unfolded x]
  have se: "s < e" and wf': "wf_ivs w" and next_s: "\<And>a b. (a, b) \<in> set w \<Longrightarrow> e < a"
    using wf by (auto simp: wf_ivs_Cons)
  have after: "\<And>n. n \<in> bytes_of w \<Longrightarrow> e < n" using wf by (rule bytes_of_after)
  show ?case
  proof (cases "e \<le> start")
    case True
    have "tiles B pos stop (seg_loop start stop pos w)"
      by (rule Cons.IH) (use Cons.prems x True wf' in auto)
    with True x show ?thesis by simp
  next
    case False
    show ?thesis
    proof (cases "stop \<le> s")
      case True
      have "{pos..<stop} \<inter> B = {}" using Cons.prems(6) True x after se by fastforce
      with True False x Cons.prems show ?thesis by (simp add: tiles_tail)
    next
      case within: False
      define ws where "ws = max s start"
      define we where "we = min e stop"
      have pos: "pos \<le> ws" using Cons.prems(5) False x by (auto simp: ws_def)
      have ws_we: "ws < we"
        using se False within Cons.prems(4) by (auto simp: ws_def we_def)
      have mem: "n \<in> B \<longleftrightarrow> s \<le> n \<and> n < e \<or> n \<in> bytes_of w" if "pos \<le> n" "n < stop" for n
      proof -
        have "n \<in> {pos..<stop}" using that by simp
        then have "n \<in> B \<longleftrightarrow> n \<in> bytes_of (x # w)" using Cons.prems(6) by blast
        with x show ?thesis by simp
      qed
      have "n \<in> B \<longleftrightarrow> s \<le> n \<and> n < e" if "pos \<le> n" "n < we" for n
        using mem [of n] that after [of n] by (auto simp: we_def)
      then have sub: "{ws..<we} \<subseteq> B" and gap: "{pos..<ws} \<inter> B = {}"
        using pos ws_we Cons.prems(2) by (fastforce simp: ws_def we_def)+
      have rest: "B \<inter> {we..<stop} = bytes_of w \<inter> {we..<stop}"
        using mem pos ws_we by (fastforce simp: we_def)
      have "tiles B we stop (seg_loop start stop we w)"
        by (rule Cons.IH) (use wf' pos ws_we Cons.prems(2) next_s rest in \<open>fastforce simp: ws_def we_def\<close>)+
      with sub gap pos ws_we False within x show ?thesis
        by (auto simp: Let_def simp flip: ws_def we_def)
    qed
  qed
qed

lemma segments_tiles:
  "wf_ivs w \<Longrightarrow> start < stop \<Longrightarrow> tiles (bytes_of w) start stop (segments w start stop)"
  unfolding segments_def by (rule seg_loop_tiles) auto

text \<open>Reading a range piece by piece is reading it whole.\<close>

lemma tiles_le: "tiles B a b segs \<Longrightarrow> a \<le> b"
  by (induction B a b segs rule: tiles.induct) auto

lemma tiles_pieces:
  assumes "tiles B a b segs" and "(s, e, f) \<in> set segs"
  shows "a \<le> s \<and> s < e \<and> e \<le> b \<and> (if f then {s..<e} \<subseteq> B else {s..<e} \<inter> B = {})"
  using assms
proof (induction B a b segs rule: tiles.induct)
  case (2 B a b s' e' f' r)
  show ?case
  proof (cases "(s, e, f) = (s', e', f')")
    case True
    then show ?thesis using "2.prems" tiles_le [of B e' b r] by (auto split: if_splits)
  next
    case False
    with "2.prems" have "(s, e, f) \<in> set r" "tiles B e' b r" "a < e'" by auto
    with "2.IH" show ?thesis by fastforce
  qed
qed simp

lemma tiles_concat:
  assumes "tiles B a b segs"
    and "\<And>s e f. (s, e, f) \<in> set segs \<Longrightarrow> out (s, e, f) = map g [s..<e]"
  shows "concat (map out segs) = map g [a..<b]"
  using assms
proof (induction B a b segs rule: tiles.induct)
  case (2 B a b s e f r)
  then have "concat (map out r) = map g [e..<b]" and "e \<le> b" and "a < e" and "s = a"
    using tiles_le by auto
  moreover have "[a..<e] @ [e..<b] = [a..<b]"
    using \<open>a < e\<close> \<open>e \<le> b\<close> by (metis le_add_diff_inverse less_imp_le upt_add_eq_append)
  ultimately show ?case using "2.prems"(2) [of s e f] by (simp flip: map_append)
qed simp

section \<open>The stored list of authored ranges\<close>

lemma seg_loop_authored:
  "wf_ivs w \<Longrightarrow>
     map (\<lambda>(s, e, _). (s, e)) (filter (\<lambda>(_, _, authored). authored) (seg_loop 0 len pos w)) = iv_clip w len"
proof (induction w arbitrary: pos)
  case (Cons x w)
  obtain s e where x: "x = (s, e)" by (cases x)
  have wf: "wf_ivs w" "s < e" and nx: "\<And>a b. (a, b) \<in> set w \<Longrightarrow> e < a"
    using Cons.prems x by (auto simp: wf_ivs_Cons)
  have "iv_clip w len = []" if "len \<le> s"
    using nx that wf(2) by (fastforce simp: iv_clip_def filter_empty_conv)
  with x wf Cons.IH [OF wf(1)] show ?case by (simp add: Let_def seg_tail_def)
qed (simp add: seg_tail_def)

lemma authored_ranges_clip: "wf_ivs w \<Longrightarrow> authored_ranges w len = iv_clip w len"
  by (simp add: authored_ranges_def segments_def seg_loop_authored)

lemma covers_file_iff:
  assumes "wf_ivs w"
  shows "covers_file (authored_ranges w len) len \<longleftrightarrow> {..<len} \<subseteq> bytes_of w"
proof -
  have "iv_clip w len = [(0, len)] \<longleftrightarrow> {..<len} \<subseteq> bytes_of w" if "0 < len"
  proof
    assume "iv_clip w len = [(0, len)]"
    then have "bytes_of w \<inter> {..<len} = {..<len}"
      using bytes_iv_clip [of w len] by (simp add: lessThan_atLeast0)
    then show "{..<len} \<subseteq> bytes_of w" by blast
  next
    assume "{..<len} \<subseteq> bytes_of w"
    then have "bytes_of (iv_clip w len) = bytes_of [(0, len)]"
      by (simp add: lessThan_atLeast0 Int_absorb1)
    moreover have "wf_ivs [(0, len)]" using that by (simp add: wf_ivs_Cons)
    ultimately show "iv_clip w len = [(0, len)]" using wf_ivs_unique assms wf_iv_clip by blast
  qed
  then show ?thesis by (auto simp: covers_file_def authored_ranges_clip [OF assms])
qed

section \<open>The interface the write path relies on\<close>

text \<open>
  A set of byte positions that grows by ranges and is cut at a length. The write handle, the gap
  filler and the merge of two queued writes use the interval set through these laws only.
\<close>

locale byte_set =
  fixes empty :: "'w" and add :: "'w \<Rightarrow> nat \<Rightarrow> nat \<Rightarrow> 'w" and clip :: "'w \<Rightarrow> nat \<Rightarrow> 'w"
    and inv :: "'w \<Rightarrow> bool" and bytes :: "'w \<Rightarrow> nat set"
  assumes inv_empty: "inv empty" and bytes_empty: "bytes empty = {}"
    and inv_add: "inv w \<Longrightarrow> inv (add w s e)"
    and bytes_add: "inv w \<Longrightarrow> bytes (add w s e) = bytes w \<union> {s..<e}"
    and inv_clip: "inv w \<Longrightarrow> inv (clip w n)"
    and bytes_clip: "inv w \<Longrightarrow> bytes (clip w n) = bytes w \<inter> {..<n}"
begin

lemma inv_adds: "inv w \<Longrightarrow> inv (foldl (\<lambda>w (s, e). add w s e) w rs)"
  by (induction rs arbitrary: w) (auto simp: inv_add)

lemma bytes_adds:
  "inv w \<Longrightarrow> bytes (foldl (\<lambda>w (s, e). add w s e) w rs) = bytes w \<union> (\<Union>(s, e) \<in> set rs. {s..<e})"
proof (induction rs arbitrary: w)
  case (Cons r rs)
  obtain s e where "r = (s, e)" by (cases r)
  with Cons show ?case by (simp add: inv_add bytes_add Un_assoc)
qed simp

lemma adds_commute:
  assumes "inv w"
  shows "bytes (add (add w a b) c d) = bytes (add (add w c d) a b)"
  using assms by (auto simp: inv_add bytes_add)

end

interpretation ivs: byte_set "[]" iv_add iv_clip wf_ivs bytes_of
  by unfold_locales (rule wf_ivs_Nil bytes_of_simps(1) wf_iv_add bytes_iv_add wf_iv_clip bytes_iv_clip, assumption?)+

lemma wf_of_ranges [simp]: "wf_ivs (of_ranges rs)"
  unfolding of_ranges_def by (rule ivs.inv_adds) simp

lemma bytes_of_ranges [simp]: "bytes_of (of_ranges rs) = bytes_of rs"
  unfolding of_ranges_def by (subst ivs.bytes_adds) (simp_all add: bytes_of_def)

text \<open>Storing a well-formed set and reading it back gives the set cut at the length.\<close>

lemma of_authored_ranges: "wf_ivs w \<Longrightarrow> of_ranges (authored_ranges w len) = iv_clip w len"
  by (rule wf_ivs_unique) (simp_all add: authored_ranges_clip)

end
