(* ===== verification/Handle.thy ===== *)
theory Handle
  imports Intervals Nodes "HOL-Library.Word"
begin

text \<open>
  An open write handle (\<open>WriteHandle\<close> of \<open>crates/pdfs-fuse/src/state.rs\<close>) and what \<open>write\<close>, a
  resizing \<open>setattr\<close>, \<open>fallocate\<close> and \<open>read\<close> of \<open>filesystem.rs\<close> and \<open>reads.rs\<close> do with it.
  The scratch file is the list of its bytes. The meaning of a handle over the base revision it was
  opened on is the list of bytes a program sees (\<open>view\<close>): authored bytes from the scratch file,
  the rest from the base, zeros past the base. The lemmas show that each operation acts on that
  list as the POSIX call does on a plain file.
\<close>

section \<open>Files\<close>

text \<open>The error numbers the file system answers with.\<close>

datatype errno = EACCES | EBADF | EDQUOT | EEXIST | EINVAL | EIO | EISDIR | ENOENT | ENOSPC | ENOTDIR
  | ENOTEMPTY | EOPNOTSUPP | EXDEV

type_synonym byte = "8 word"

text \<open>
  \<open>File::set_len\<close>, \<open>write_all_at\<close> and \<open>read_exact_at\<close> on the bytes of a file. Writing nothing
  changes nothing; a write past the end leaves a hole that reads as zeros; an exact read of bytes
  past the end fails.
\<close>

definition set_len :: "byte list \<Rightarrow> nat \<Rightarrow> byte list" where
  "set_len f n = take n f @ replicate (n - length f) 0"

definition write_all_at :: "byte list \<Rightarrow> nat \<Rightarrow> byte list \<Rightarrow> byte list" where
  "write_all_at f off data =
     (if data = [] then f
      else let g = (if length f < off then set_len f off else f)
           in take off g @ data @ drop (off + length data) g)"

definition read_exact_at :: "byte list \<Rightarrow> nat \<Rightarrow> nat \<Rightarrow> byte list option" where
  "read_exact_at f off n =
     (if n = 0 then Some [] else if off + n \<le> length f then Some (take n (drop off f)) else None)"

definition file_at :: "byte list \<Rightarrow> nat \<Rightarrow> byte" where
  "file_at f i = (if i < length f then f ! i else 0)"

lemma file_eqI: "length f = length g \<Longrightarrow> (\<And>i. i < length g \<Longrightarrow> file_at f i = file_at g i) \<Longrightarrow> f = g"
  by (auto simp: file_at_def intro: nth_equalityI)

lemma file_at_past [simp]: "length f \<le> i \<Longrightarrow> file_at f i = 0"
  by (simp add: file_at_def)

lemma file_at_Nil [simp]: "file_at [] i = 0"
  by simp

lemma length_set_len [simp]: "length (set_len f n) = n"
  by (simp add: set_len_def)

lemma file_at_set_len [simp]: "file_at (set_len f n) i = (if i < n then file_at f i else 0)"
  by (auto simp: file_at_def set_len_def nth_append)

lemma length_write_all_at [simp]:
  "length (write_all_at f off data) = (if data = [] then length f else max (length f) (off + length data))"
  by (auto simp: write_all_at_def Let_def)

lemma file_at_write_all_at [simp]:
  "file_at (write_all_at f off data) i =
     (if off \<le> i \<and> i < off + length data then data ! (i - off) else file_at f i)"
proof (cases "data = []")
  case False
  define g where "g = (if length f < off then set_len f off else f)"
  have g: "off \<le> length g" "file_at g i = file_at f i" "length g = max off (length f)"
    by (auto simp: g_def)
  have "write_all_at f off data = take off g @ data @ drop (off + length data) g"
    using False by (simp add: write_all_at_def g_def Let_def)
  with g(1,3) show ?thesis
    unfolding g(2) [symmetric] by (auto simp: file_at_def nth_append)
qed (auto simp: write_all_at_def)

lemma file_at_map_upt: "file_at (map g [0..<n]) i = (if i < n then g i else 0)"
  by (simp add: file_at_def)

lemma read_exact_at_upt:
  "off + n \<le> length f \<Longrightarrow> read_exact_at f off n = Some (map (file_at f) [off..<off + n])"
  by (auto simp: read_exact_at_def file_at_def intro!: nth_equalityI)

section \<open>The write handle\<close>

record write_handle =
  wh_ino :: nat
  wh_uid :: uid
  wh_file :: "byte list"
  wh_path :: string
  wh_written :: ivs
  wh_len :: nat
  wh_base_size :: nat
  wh_base_mtime :: int
  wh_base_revision_id :: "string option"
  wh_dirty :: bool
  wh_open_count :: nat

definition wh_created :: "nat \<Rightarrow> node \<Rightarrow> byte list \<Rightarrow> string \<Rightarrow> write_handle" where
  "wh_created ino n file path =
     \<lparr>wh_ino = ino, wh_uid = node_uid n, wh_file = file, wh_path = path, wh_written = [],
      wh_len = 0, wh_base_size = 0, wh_base_mtime = modification_time n,
      wh_base_revision_id = node_revision_id n, wh_dirty = False, wh_open_count = 0\<rparr>"

definition rebase_onto :: "node \<Rightarrow> write_handle \<Rightarrow> write_handle" where
  "rebase_onto n h = h\<lparr>wh_base_mtime := modification_time n, wh_base_size := nat (node_size n),
     wh_base_revision_id := node_revision_id n\<rparr>"

definition record_write :: "nat \<Rightarrow> nat \<Rightarrow> write_handle \<Rightarrow> write_handle" where
  "record_write off stop h =
     (let w = (if off > wh_len h then iv_add (wh_written h) (wh_len h) off else wh_written h)
      in h\<lparr>wh_written := iv_add w off stop, wh_len := max (wh_len h) stop, wh_dirty := True\<rparr>)"

text \<open>
  The handle \<open>serve_open\<close> installs: with no queued revision an empty scratch file over the base;
  with one, the scratch holds the queued revision's whole content, \<open>len\<close> bytes of it.
\<close>

definition wh_opened :: "nat \<Rightarrow> uid \<Rightarrow> string \<Rightarrow> nat \<Rightarrow> int \<Rightarrow> string option \<Rightarrow> byte list option \<Rightarrow> write_handle" where
  "wh_opened ino u path base_size base_mtime base_rev queued =
     \<lparr>wh_ino = ino, wh_uid = u, wh_file = (case queued of None \<Rightarrow> [] | Some blob \<Rightarrow> blob), wh_path = path,
      wh_written = (case queued of None \<Rightarrow> [] | Some blob \<Rightarrow> iv_add [] 0 (length blob)),
      wh_len = base_size, wh_base_size = base_size, wh_base_mtime = base_mtime,
      wh_base_revision_id = base_rev, wh_dirty = False, wh_open_count = 0\<rparr>"

text \<open>The write of \<open>stage_write\<close> that went through, and the resize \<open>setattr\<close> does on a handle.\<close>

definition handle_write :: "nat \<Rightarrow> byte list \<Rightarrow> write_handle \<Rightarrow> write_handle" where
  "handle_write off data h =
     record_write off (off + length data) (h\<lparr>wh_file := write_all_at (wh_file h) off data\<rparr>)"

definition handle_resize :: "nat \<Rightarrow> write_handle \<Rightarrow> write_handle" where
  "handle_resize n h =
     h\<lparr>wh_written := (if n < wh_len h then iv_clip (wh_written h) n
                       else if n > wh_len h then iv_add (wh_written h) (wh_len h) n
                       else wh_written h),
       wh_file := set_len (wh_file h) n, wh_len := n, wh_dirty := True\<rparr>"

section \<open>What a program sees\<close>

definition view :: "byte list \<Rightarrow> write_handle \<Rightarrow> byte list" where
  "view base h =
     map (\<lambda>i. if i \<in> bytes_of (wh_written h) then file_at (wh_file h) i
              else if i < wh_base_size h then file_at base i else 0) [0..<wh_len h]"

text \<open>
  The invariant of a handle: the interval set is well-formed and within the file, the scratch file
  never reaches past the file's length, so bytes a grow claims are zeros on disk, and what was not
  authored is a hole in it.
  \<open>wh_readable\<close> says in addition that every authored byte is on disk, which an exact read needs.
\<close>

definition wh_inv :: "write_handle \<Rightarrow> bool" where
  "wh_inv h = (wf_ivs (wh_written h) \<and> bytes_of (wh_written h) \<subseteq> {..<wh_len h} \<and>
               length (wh_file h) \<le> wh_len h \<and>
               (\<forall>i < length (wh_file h). i \<in> bytes_of (wh_written h) \<or> wh_file h ! i = 0))"

lemma wh_inv_hole: "wh_inv h \<Longrightarrow> i \<notin> bytes_of (wh_written h) \<Longrightarrow> file_at (wh_file h) i = 0"
  by (auto simp: wh_inv_def file_at_def)

lemma wh_invI:
  assumes "wf_ivs (wh_written h)" and "bytes_of (wh_written h) \<subseteq> {..<wh_len h}"
    and "length (wh_file h) \<le> wh_len h"
    and "\<And>i. i \<notin> bytes_of (wh_written h) \<Longrightarrow> file_at (wh_file h) i = 0"
  shows "wh_inv h"
  using assms unfolding wh_inv_def by (metis file_at_def)

definition wh_readable :: "write_handle \<Rightarrow> bool" where
  "wh_readable h = (wh_inv h \<and> bytes_of (wh_written h) \<subseteq> {..<length (wh_file h)})"

lemma length_view [simp]: "length (view base h) = wh_len h"
  by (simp add: view_def)

lemma file_at_view:
  "file_at (view base h) i =
     (if i \<ge> wh_len h then 0 else if i \<in> bytes_of (wh_written h) then file_at (wh_file h) i
      else if i < wh_base_size h then file_at base i else 0)"
  by (simp add: view_def file_at_map_upt)

lemma wh_created_ok: "wh_readable (wh_created ino n [] path) \<and> view base (wh_created ino n [] path) = []"
  by (simp add: wh_readable_def wh_inv_def wh_created_def view_def)

lemma wh_opened_fresh:
  assumes "length base = n"
  shows "wh_readable (wh_opened ino u path n mt rv None) \<and>
         view base (wh_opened ino u path n mt rv None) = base"
  using assms
  by (auto simp: wh_readable_def wh_inv_def wh_opened_def intro!: file_eqI)
     (auto simp: file_at_view wh_opened_def)

lemma wh_opened_queued:
  "wh_readable (wh_opened ino u path (length blob) mt rv (Some blob)) \<and>
   view base (wh_opened ino u path (length blob) mt rv (Some blob)) = blob"
  by (auto simp: wh_readable_def wh_inv_def wh_opened_def ivs.bytes_add intro!: file_eqI)
     (auto simp: file_at_view wh_opened_def)

lemma record_write_written:
  assumes "wf_ivs (wh_written h)"
  shows "wf_ivs (wh_written (record_write off stop h))"
    and "bytes_of (wh_written (record_write off stop h)) =
           bytes_of (wh_written h) \<union> {wh_len h..<off} \<union> {off..<stop}"
  using assms by (auto simp: record_write_def Let_def)

lemma record_write_len [simp]:
  "wh_len (record_write off stop h) = max (wh_len h) stop"
  "wh_file (record_write off stop h) = wh_file h"
  "wh_base_size (record_write off stop h) = wh_base_size h"
  "wh_dirty (record_write off stop h)"
  by (simp_all add: record_write_def Let_def)

section \<open>Writes and resizes are those of a plain file\<close>

lemma handle_write_ok:
  assumes "wh_inv h" and "data \<noteq> []"
  shows "wh_inv (handle_write off data h)"
    and "view base (handle_write off data h) = write_all_at (view base h) off data"
    and "wh_readable h \<Longrightarrow> wh_readable (handle_write off data h)"
proof -
  let ?h = "h\<lparr>wh_file := write_all_at (wh_file h) off data\<rparr>"
  have wf: "wf_ivs (wh_written ?h)" and len: "length (wh_file h) \<le> wh_len h"
    and sub: "bytes_of (wh_written h) \<subseteq> {..<wh_len h}"
    using assms by (simp_all add: wh_inv_def)
  note w = record_write_written [OF wf, of off "off + length data"]
  show inv: "wh_inv (handle_write off data h)"
    by (rule wh_invI) (use w sub len assms wh_inv_hole [OF assms(1)] in \<open>auto simp: handle_write_def\<close>)
  show "view base (handle_write off data h) = write_all_at (view base h) off data"
  proof (rule file_eqI)
    show "length (view base (handle_write off data h)) = length (write_all_at (view base h) off data)"
      using assms(2) by (simp add: handle_write_def)
    show "file_at (view base (handle_write off data h)) i = file_at (write_all_at (view base h) off data) i" for i
      using w(2) sub len by (auto simp: file_at_view handle_write_def)
  qed
  show "wh_readable (handle_write off data h)" if "wh_readable h"
    using that inv w(2) assms(2) by (auto simp: wh_readable_def handle_write_def)
qed

lemma handle_resize_ok:
  assumes "wh_inv h"
  shows "wh_inv (handle_resize n h)"
    and "view base (handle_resize n h) = set_len (view base h) n"
    and "wh_readable (handle_resize n h)"
proof -
  have len: "length (wh_file h) \<le> wh_len h" and sub: "bytes_of (wh_written h) \<subseteq> {..<wh_len h}"
    and wf: "wf_ivs (wh_written h)"
    using assms by (simp_all add: wh_inv_def)
  have by_n: "bytes_of (wh_written (handle_resize n h)) =
      (if n < wh_len h then bytes_of (wh_written h) \<inter> {..<n} else bytes_of (wh_written h) \<union> {wh_len h..<n})"
    using wf by (auto simp: handle_resize_def)
  show inv: "wh_inv (handle_resize n h)"
  proof (rule wh_invI)
    show "wf_ivs (wh_written (handle_resize n h))" using wf by (simp add: handle_resize_def)
    show "bytes_of (wh_written (handle_resize n h)) \<subseteq> {..<wh_len (handle_resize n h)}"
      using by_n sub by (auto simp: handle_resize_def)
    show "length (wh_file (handle_resize n h)) \<le> wh_len (handle_resize n h)" by (simp add: handle_resize_def)
    show "file_at (wh_file (handle_resize n h)) i = 0" if "i \<notin> bytes_of (wh_written (handle_resize n h))" for i
      using that wh_inv_hole [OF assms, of i] by (auto simp: by_n split: if_splits) (auto simp: handle_resize_def)
  qed
  show "view base (handle_resize n h) = set_len (view base h) n"
  proof (rule file_eqI)
    show "length (view base (handle_resize n h)) = length (set_len (view base h) n)"
      by (simp add: handle_resize_def)
    show "file_at (view base (handle_resize n h)) i = file_at (set_len (view base h) n) i" for i
      using by_n sub len by (auto simp: file_at_view) (auto simp: handle_resize_def)
  qed
  show "wh_readable (handle_resize n h)"
    using inv by (auto simp: wh_readable_def wh_inv_def handle_resize_def)
qed

text \<open>
  The contract of a file that programs write and resize, and what a program of such calls does to
  any implementation that keeps it: the bytes are those of a plain file, call by call.
\<close>

datatype file_call = Pwrite nat "byte list" | Ftruncate nat

fun plain_call :: "byte list \<Rightarrow> file_call \<Rightarrow> byte list" where
  "plain_call f (Pwrite off data) = write_all_at f off data"
| "plain_call f (Ftruncate n) = set_len f n"

definition nonempty_call :: "file_call \<Rightarrow> bool" where
  "nonempty_call c = (case c of Pwrite _ data \<Rightarrow> data \<noteq> [] | Ftruncate _ \<Rightarrow> True)"

definition call_on :: "(nat \<Rightarrow> byte list \<Rightarrow> 'h \<Rightarrow> 'h) \<Rightarrow> (nat \<Rightarrow> 'h \<Rightarrow> 'h) \<Rightarrow> 'h \<Rightarrow> file_call \<Rightarrow> 'h" where
  "call_on wr resize h c = (case c of Pwrite off data \<Rightarrow> wr off data h | Ftruncate n \<Rightarrow> resize n h)"

locale plain_file =
  fixes content :: "'h \<Rightarrow> byte list" and inv :: "'h \<Rightarrow> bool"
    and wr :: "nat \<Rightarrow> byte list \<Rightarrow> 'h \<Rightarrow> 'h" and resize :: "nat \<Rightarrow> 'h \<Rightarrow> 'h"
  assumes inv_write: "inv h \<Longrightarrow> data \<noteq> [] \<Longrightarrow> inv (wr off data h)"
    and content_write: "inv h \<Longrightarrow> data \<noteq> [] \<Longrightarrow> content (wr off data h) = write_all_at (content h) off data"
    and inv_resize: "inv h \<Longrightarrow> inv (resize n h)"
    and content_resize: "inv h \<Longrightarrow> content (resize n h) = set_len (content h) n"
begin

lemma step_simulates:
  assumes "inv h" and "nonempty_call c"
  shows "inv (call_on wr resize h c) \<and> content (call_on wr resize h c) = plain_call (content h) c"
  using assms
  by (cases c) (simp_all add: call_on_def nonempty_call_def inv_write content_write inv_resize content_resize)

lemma run_simulates:
  assumes "inv h" and "list_all nonempty_call cs"
  shows "inv (foldl (call_on wr resize) h cs) \<and> content (foldl (call_on wr resize) h cs) = foldl plain_call (content h) cs"
  using assms
proof (induction cs arbitrary: h)
  case (Cons c cs)
  then show ?case using step_simulates [of h c] by simp
qed simp

end

abbreviation handle_call :: "write_handle \<Rightarrow> file_call \<Rightarrow> write_handle" where
  "handle_call \<equiv> call_on handle_write handle_resize"

interpretation handle: plain_file "view base" wh_readable handle_write handle_resize
  for base :: "byte list"
proof
  fix h :: write_handle and data :: "byte list" and off n :: nat
  assume r: "wh_readable h"
  then have inv: "wh_inv h" by (simp add: wh_readable_def)
  show "wh_readable (handle_resize n h)" "view base (handle_resize n h) = set_len (view base h) n"
    using inv by (rule handle_resize_ok)+
  assume "data \<noteq> []"
  with inv r show "wh_readable (handle_write off data h)"
    "view base (handle_write off data h) = write_all_at (view base h) off data"
    by (blast intro: handle_write_ok(2,3))+
qed

section \<open>\<open>fallocate\<close>\<close>

datatype falloc_kind = Allocate (keep_size: bool) | Punch | Zero (keep_size: bool)

text \<open>\<open>FALLOC_FL_KEEP_SIZE\<close> is 1, \<open>FALLOC_FL_PUNCH_HOLE\<close> 2 and \<open>FALLOC_FL_ZERO_RANGE\<close> 16.\<close>

definition falloc_kind :: "int \<Rightarrow> falloc_kind option" where
  "falloc_kind mode =
     (if mode = 0 then Some (Allocate False)
      else if mode = 1 then Some (Allocate True)
      else if mode = 3 then Some Punch
      else if mode = 16 then Some (Zero False)
      else if mode = 17 then Some (Zero True)
      else None)"

definition falloc_effect :: "falloc_kind \<Rightarrow> nat \<Rightarrow> nat \<Rightarrow> nat \<Rightarrow> (nat \<times> nat) option \<times> nat option" where
  "falloc_effect k off stop len =
     (let grow = (\<lambda>keep. if \<not> keep \<and> stop > len then Some stop else None);
          zeroed = (\<lambda>t. if off < t then Some (off, t) else None)
      in case k of
           Allocate keep \<Rightarrow> (map_option (\<lambda>e. (len, e)) (grow keep), grow keep)
         | Punch \<Rightarrow> (zeroed (min stop len), None)
         | Zero keep \<Rightarrow> (zeroed (if keep then min stop len else stop), grow keep))"

text \<open>
  The effect \<open>fallocate(2)\<close> documents on a file's bytes: mode 0 grows the file to the end of the
  range, the zeroing modes clear what lies inside the file, and \<open>KEEP_SIZE\<close> leaves the length.
\<close>

definition clear_range :: "byte list \<Rightarrow> nat \<Rightarrow> nat \<Rightarrow> byte list" where
  "clear_range f a b = map (\<lambda>i. if a \<le> i \<and> i < b then 0 else f ! i) [0..<length f]"

definition plain_falloc :: "falloc_kind \<Rightarrow> nat \<Rightarrow> nat \<Rightarrow> byte list \<Rightarrow> byte list" where
  "plain_falloc k off stop f =
     (case k of
        Allocate keep \<Rightarrow> (if keep then f else set_len f (max (length f) stop))
      | Punch \<Rightarrow> clear_range f off stop
      | Zero keep \<Rightarrow> clear_range (if keep then f else set_len f (max (length f) stop)) off stop)"

text \<open>The handle after a call the kernel accepted on the scratch file.\<close>

definition handle_falloc :: "falloc_kind \<Rightarrow> nat \<Rightarrow> nat \<Rightarrow> write_handle \<Rightarrow> write_handle" where
  "handle_falloc k off stop h =
     (let eff = falloc_effect k off stop (wh_len h);
          h0 = h\<lparr>wh_file := plain_falloc k off stop (wh_file h)\<rparr>;
          h1 = (case fst eff of None \<Rightarrow> h0
                | Some (a, b) \<Rightarrow> h0\<lparr>wh_written := iv_add (wh_written h0) a b, wh_dirty := True\<rparr>)
      in case snd eff of None \<Rightarrow> h1 | Some e \<Rightarrow> h1\<lparr>wh_len := e, wh_dirty := True\<rparr>)"

lemma length_clear_range [simp]: "length (clear_range f a b) = length f"
  by (simp add: clear_range_def)

lemma file_at_clear_range [simp]:
  "file_at (clear_range f a b) i = (if a \<le> i \<and> i < b then 0 else file_at f i)"
  by (simp add: file_at_def clear_range_def)

lemma length_plain_falloc:
  "length (plain_falloc k off stop f) =
     (case k of Allocate True \<Rightarrow> length f | Punch \<Rightarrow> length f | Zero True \<Rightarrow> length f | _ \<Rightarrow> max (length f) stop)"
  by (cases k; cases "keep_size k") (simp_all add: plain_falloc_def)

text \<open>
  A call is followed exactly when it does not zero past the end of the file: \<open>Zero\<close> without
  \<open>KEEP_SIZE\<close> that starts past the end leaves the bytes between to the base.
\<close>

definition falloc_in_reach :: "falloc_kind \<Rightarrow> nat \<Rightarrow> write_handle \<Rightarrow> bool" where
  "falloc_in_reach k off h = (k = Zero False \<longrightarrow> off \<le> wh_len h \<or> wh_base_size h \<le> wh_len h)"

lemma handle_falloc_fields:
  assumes "wf_ivs (wh_written h)"
  shows "wf_ivs (wh_written (handle_falloc k off stop h))"
    and "wh_file (handle_falloc k off stop h) = plain_falloc k off stop (wh_file h)"
    and "wh_base_size (handle_falloc k off stop h) = wh_base_size h"
    and "wh_len (handle_falloc k off stop h) =
           (case k of Allocate False \<Rightarrow> max (wh_len h) stop | Zero False \<Rightarrow> max (wh_len h) stop | _ \<Rightarrow> wh_len h)"
    and "bytes_of (wh_written (handle_falloc k off stop h)) = bytes_of (wh_written h) \<union>
           (case k of Allocate keep \<Rightarrow> (if keep then {} else {wh_len h..<stop})
            | Punch \<Rightarrow> {off..<min stop (wh_len h)}
            | Zero keep \<Rightarrow> {off..<(if keep then min stop (wh_len h) else stop)})"
  using assms
  by (cases k; cases "keep_size k"; auto simp: handle_falloc_def falloc_effect_def Let_def ivs.bytes_add)+

lemma handle_falloc_ok:
  assumes "wh_inv h" and "falloc_in_reach k off h"
  shows "wh_inv (handle_falloc k off stop h)"
    and "view base (handle_falloc k off stop h) = plain_falloc k off stop (view base h)"
proof -
  have len: "length (wh_file h) \<le> wh_len h" and sub: "bytes_of (wh_written h) \<subseteq> {..<wh_len h}"
    and wf: "wf_ivs (wh_written h)"
    using assms by (simp_all add: wh_inv_def)
  note f = handle_falloc_fields [OF wf, of k off stop]
  show "wh_inv (handle_falloc k off stop h)"
  proof (rule wh_invI)
    show "file_at (wh_file (handle_falloc k off stop h)) i = 0"
      if "i \<notin> bytes_of (wh_written (handle_falloc k off stop h))" for i
      using that f wh_inv_hole [OF assms(1), of i]
      by (cases k; cases "keep_size k") (auto simp: plain_falloc_def)
  qed (use f len sub in \<open>cases k; cases "keep_size k"; auto simp: length_plain_falloc\<close>)+
  show "view base (handle_falloc k off stop h) = plain_falloc k off stop (view base h)"
  proof (rule file_eqI)
    show "length (view base (handle_falloc k off stop h)) = length (plain_falloc k off stop (view base h))"
      using f(4) by (cases k; cases "keep_size k") (simp_all add: length_plain_falloc)
    show "file_at (view base (handle_falloc k off stop h)) i = file_at (plain_falloc k off stop (view base h)) i" for i
      using f sub len assms(2)
      by (cases k; cases "keep_size k") (auto simp: file_at_view plain_falloc_def falloc_in_reach_def)
  qed
qed

section \<open>Reading through the handle\<close>

definition U64_MAX :: nat where
  "U64_MAX = 2 ^ 64 - 1"

definition saturating_add :: "nat \<Rightarrow> nat \<Rightarrow> nat" where
  "saturating_add a b = min (a + b) U64_MAX"

text \<open>
  \<open>assemble_open_read\<close>: authored pieces from the scratch file, the others through \<open>base\<close>, which
  may fail or say that it cannot answer.
\<close>

fun assemble_loop :: "byte list \<Rightarrow> nat \<Rightarrow> (nat \<Rightarrow> nat \<Rightarrow> errno + byte list option) \<Rightarrow>
    (nat \<times> nat \<times> bool) list \<Rightarrow> byte list \<Rightarrow> errno + byte list option" where
  "assemble_loop f base_size base [] out = Inr (Some out)"
| "assemble_loop f base_size base ((s, e, authored) # segs) out =
     (if authored
      then (case read_exact_at f s (e - s) of
              None \<Rightarrow> Inl EIO
            | Some buf \<Rightarrow> assemble_loop f base_size base segs (out @ buf))
      else (let bend = min e base_size; zeros = replicate (e - max s base_size) 0
            in if s < bend
               then (case base s (bend - s) of
                       Inl er \<Rightarrow> Inl er
                     | Inr None \<Rightarrow> Inr None
                     | Inr (Some buf) \<Rightarrow> assemble_loop f base_size base segs (out @ buf @ zeros))
               else assemble_loop f base_size base segs (out @ zeros)))"

definition assemble_open_read :: "byte list \<Rightarrow> nat \<Rightarrow> nat \<Rightarrow> ivs \<Rightarrow> nat \<Rightarrow> nat \<Rightarrow>
    (nat \<Rightarrow> nat \<Rightarrow> errno + byte list option) \<Rightarrow> errno + byte list option" where
  "assemble_open_read f len base_size written off n base =
     (if off \<ge> len \<or> n = 0 then Inr (Some [])
      else assemble_loop f base_size base (segments written off (min (saturating_add off n) len)) [])"

text \<open>The bytes of a range made of a scratch file over a base.\<close>

definition layered :: "byte list \<Rightarrow> nat set \<Rightarrow> nat \<Rightarrow> byte list \<Rightarrow> nat \<Rightarrow> byte" where
  "layered f B base_size base i = (if i \<in> B then file_at f i else if i < base_size then file_at base i else 0)"

lemma view_layered:
  "view base h = map (layered (wh_file h) (bytes_of (wh_written h)) (wh_base_size h) base) [0..<wh_len h]"
  by (simp add: view_def layered_def)

text \<open>What the read relies on: \<open>base\<close> answers only with the bytes of the base it was asked for.\<close>

definition answers :: "byte list \<Rightarrow> nat \<Rightarrow> (nat \<Rightarrow> nat \<Rightarrow> errno + byte list option) \<Rightarrow> bool" where
  "answers base base_size cb = (\<forall>s n buf. s + n \<le> base_size \<longrightarrow> cb s n = Inr (Some buf) \<longrightarrow>
     buf = map (file_at base) [s..<s + n])"

definition always_answers :: "nat \<Rightarrow> (nat \<Rightarrow> nat \<Rightarrow> errno + byte list option) \<Rightarrow> bool" where
  "always_answers base_size cb = (\<forall>s n. s + n \<le> base_size \<longrightarrow> (\<exists>buf. cb s n = Inr (Some buf)))"

lemma base_piece:
  assumes "s < e" and "{s..<e} \<inter> B = {}"
  shows "map (layered f B bs base) [s..<e] =
     (if s < min e bs then map (file_at base) [s..<min e bs] else []) @ replicate (e - max s bs) 0"
proof (rule nth_equalityI)
  show "length (map (layered f B bs base) [s..<e]) =
      length ((if s < min e bs then map (file_at base) [s..<min e bs] else []) @ replicate (e - max s bs) (0::byte))"
    using assms(1) by (auto simp: min_def max_def)
next
  fix i assume "i < length (map (layered f B bs base) [s..<e])"
  then have i: "s + i < e" by simp
  then have "s + i \<in> {s..<e}" by simp
  then have "s + i \<notin> B" using assms(2) by blast
  with i show "map (layered f B bs base) [s..<e] ! i =
      ((if s < min e bs then map (file_at base) [s..<min e bs] else []) @ replicate (e - max s bs) 0) ! i"
    by (auto simp: layered_def nth_append)
qed

lemma authored_piece:
  assumes "s < e" and "{s..<e} \<subseteq> B" and "e \<le> length f"
  shows "read_exact_at f s (e - s) = Some (map (layered f B bs base) [s..<e])"
proof -
  have "map (file_at f) [s..<e] = map (layered f B bs base) [s..<e]"
    using assms(2) by (auto simp: layered_def)
  then show ?thesis using read_exact_at_upt [of s "e - s" f] assms by simp
qed

lemma assemble_step:
  assumes "s < e" and "if authored then {s..<e} \<subseteq> B else {s..<e} \<inter> B = {}"
    and "answers base bs cb" and "B \<subseteq> {..<length f}"
  shows "assemble_loop f bs cb ((s, e, authored) # r) out =
           assemble_loop f bs cb r (out @ map (layered f B bs base) [s..<e]) \<or>
         (\<not> always_answers bs cb \<and> (assemble_loop f bs cb ((s, e, authored) # r) out = Inr None \<or>
           (\<exists>er. assemble_loop f bs cb ((s, e, authored) # r) out = Inl er)))"
proof (cases authored)
  case True
  with assms(2) have sub: "{s..<e} \<subseteq> B" by simp
  have "e - 1 \<in> {s..<e}" using assms(1) by simp
  with sub assms(4) have "e - 1 < length f" by blast
  with sub assms(1) have "read_exact_at f s (e - s) = Some (map (layered f B bs base) [s..<e])"
    by (intro authored_piece) auto
  with True show ?thesis by simp
next
  case False
  with assms(2) have "{s..<e} \<inter> B = {}" by simp
  note piece = base_piece [OF assms(1) this, of f bs base]
  show ?thesis
  proof (cases "s < min e bs \<and> \<not> (\<exists>buf. cb s (min e bs - s) = Inr (Some buf))")
    case True
    then have "\<not> always_answers bs cb"
      unfolding always_answers_def by (metis le_add_diff_inverse less_imp_le min.cobounded2)
    with True False show ?thesis by (auto simp: Let_def split: sum.splits option.splits)
  next
    case ans: False
    have "cb s (min e bs - s) = Inr (Some (map (file_at base) [s..<min e bs]))" if "s < min e bs"
      using that ans assms(3) unfolding answers_def
      by (metis le_add_diff_inverse less_imp_le min.cobounded2)
    with False piece show ?thesis by (simp add: Let_def)
  qed
qed

lemma assemble_loop_result:
  assumes "tiles B a b segs" and "answers base bs cb" and "B \<subseteq> {..<length f}"
  shows "assemble_loop f bs cb segs out = Inr (Some (out @ map (layered f B bs base) [a..<b])) \<or>
         (\<not> always_answers bs cb \<and> (assemble_loop f bs cb segs out = Inr None \<or>
           (\<exists>er. assemble_loop f bs cb segs out = Inl er)))"
  using assms
proof (induction B a b segs arbitrary: out rule: tiles.induct)
  case (2 B a b s e authored r)
  then have t: "s = a" "a < e" "tiles B e b r" by auto
  then have "[a..<b] = [a..<e] @ [e..<b]"
    using tiles_le by (metis le_add_diff_inverse less_imp_le upt_add_eq_append)
  with "2.IH" [OF t(3) "2.prems"(2,3), of "out @ map (layered f B bs base) [a..<e]"]
    assemble_step [of s e authored B base bs cb f r out] "2.prems" t
  show ?case by (elim disjE) (auto split: if_splits)
qed simp

text \<open>A read of a handle, and of a blob described by its authored ranges.\<close>

lemma layered_read:
  assumes "wf_ivs w" and "bytes_of w \<subseteq> {..<length f}" and "answers base bs cb" and "len \<le> U64_MAX"
  shows "assemble_open_read f len bs w off n cb =
           Inr (Some (take n (drop off (map (layered f (bytes_of w) bs base) [0..<len])))) \<or>
         (\<not> always_answers bs cb \<and> (assemble_open_read f len bs w off n cb = Inr None \<or>
           (\<exists>er. assemble_open_read f len bs w off n cb = Inl er)))"
proof (cases "off \<ge> len \<or> n = 0")
  case True
  then show ?thesis by (auto simp: assemble_open_read_def)
next
  case False
  define stop where "stop = min (off + n) len"
  have stop: "min (saturating_add off n) len = stop" "off < stop"
    using assms(4) False by (auto simp: saturating_add_def stop_def)
  have cut: "take n (drop off (map g [0..<len])) = map g [off..<stop]" for g :: "nat \<Rightarrow> byte"
    by (simp add: stop_def take_map drop_map min_def)
  show ?thesis
    using assemble_loop_result [OF segments_tiles [OF assms(1) stop(2)] assms(3,2), of "[]"] False
    unfolding cut by (simp add: assemble_open_read_def stop(1))
qed

end
