(* ===== verification/Staged.thy ===== *)
theory Staged
  imports Handle Drain
begin

text \<open>
  A released write on its way to the server: filling the ranges the program never touched
  (\<open>fill_gaps\<close>, \<open>fill_gaps_cached\<close> and \<open>read_pending\<close> of \<open>crates/pdfs-fuse/src/reads.rs\<close>), the
  sidecar that describes a staged blob (\<open>StagedWrite\<close> of \<open>crates/pdfs-core/src/cache.rs\<close>, built by
  \<open>queue_revision\<close> and \<open>queue_truncate\<close> of \<open>lib.rs\<close>) and folding an earlier queued write into the
  one that supersedes it (\<open>merge_over_pending\<close>). The remote base is a parameter: a function that
  reads a range of it or fails. A write to a local file may fail after a prefix of the bytes.
\<close>

section \<open>Filling the gaps\<close>

type_synonym remote = "nat \<Rightarrow> nat \<Rightarrow> errno + byte list"

text \<open>
  The outcome of the write at each offset: \<open>None\<close> when it goes through, \<open>Some k\<close> when it fails
  after \<open>k\<close> bytes.
\<close>

type_synonym disk = "nat \<Rightarrow> nat option"

definition try_write :: "disk \<Rightarrow> byte list \<Rightarrow> nat \<Rightarrow> byte list \<Rightarrow> byte list \<times> bool" where
  "try_write disk f off data = (case disk off of
      None \<Rightarrow> (write_all_at f off data, True)
    | Some k \<Rightarrow> (write_all_at f off (take k data), False))"

fun fill_loop :: "disk \<Rightarrow> remote \<Rightarrow> nat \<Rightarrow> (nat \<times> nat \<times> bool) list \<Rightarrow> byte list \<Rightarrow> byte list \<times> errno option" where
  "fill_loop disk remote bs [] f = (f, None)"
| "fill_loop disk remote bs ((s, e, authored) # segs) f =
     (if authored then fill_loop disk remote bs segs f
      else let bend = min e bs
           in if s \<ge> bend then fill_loop disk remote bs segs f
              else (case remote s (bend - s) of
                      Inl er \<Rightarrow> (f, Some er)
                    | Inr data \<Rightarrow>
                        (case try_write disk f s data of
                           (g, True) \<Rightarrow> fill_loop disk remote bs segs g
                         | (g, False) \<Rightarrow> (g, Some EIO))))"

definition fill_gaps :: "disk \<Rightarrow> bool \<Rightarrow> remote \<Rightarrow> byte list \<Rightarrow> nat \<Rightarrow> nat \<Rightarrow> ivs \<Rightarrow> byte list \<times> errno option" where
  "fill_gaps disk len_ok remote f len bs w =
     (if len_ok then fill_loop disk remote bs (segments w 0 len) (set_len f len) else (f, Some EIO))"

definition CACHED_FILL_BUDGET :: nat where
  "CACHED_FILL_BUDGET = 64 * 1024 * 1024"

text \<open>
  The half done at release, from bytes already on this machine: \<open>cached\<close> answers a range or not.
  The loop carries the budget, the file and the set of resolved bytes.
\<close>

fun cached_loop :: "disk \<Rightarrow> (nat \<Rightarrow> nat \<Rightarrow> byte list option) \<Rightarrow> nat \<Rightarrow> (nat \<times> nat \<times> bool) list \<Rightarrow>
    nat \<times> byte list \<times> ivs \<Rightarrow> byte list \<times> ivs" where
  "cached_loop disk cached bs [] (budget, f, w) = (f, w)"
| "cached_loop disk cached bs ((s, e, authored) # segs) (budget, f, w) =
     (if authored then cached_loop disk cached bs segs (budget, f, w)
      else let bend = min e bs;
               past = (\<lambda>w. if e > bs then iv_add w (max s bs) e else w)
           in if s < bend
              then (if bend - s > budget then cached_loop disk cached bs segs (budget, f, w)
                    else (case cached s (bend - s) of
                            None \<Rightarrow> cached_loop disk cached bs segs (budget, f, w)
                          | Some data \<Rightarrow>
                              (case try_write disk f s data of
                                 (g, False) \<Rightarrow> cached_loop disk cached bs segs (budget, g, w)
                               | (g, True) \<Rightarrow>
                                   cached_loop disk cached bs segs
                                     (budget - (bend - s), g, past (iv_add w s bend)))))
              else cached_loop disk cached bs segs (budget, f, past w))"

definition fill_gaps_cached :: "disk \<Rightarrow> (nat \<Rightarrow> nat \<Rightarrow> byte list option) \<Rightarrow> byte list \<Rightarrow> nat \<Rightarrow> nat \<Rightarrow> ivs \<Rightarrow> byte list \<times> ivs" where
  "fill_gaps_cached disk cached f len bs w =
     cached_loop disk cached bs (segments w 0 len) (CACHED_FILL_BUDGET, f, w)"

section \<open>The staged write\<close>

record staged_write =
  sw_uid :: uid
  sw_len :: nat
  sw_base_size :: nat
  sw_base_mtime :: int
  sw_authored :: "(nat \<times> nat) list"
  sw_complete :: bool
  sw_based_on :: "baseline option"

text \<open>A queued revision: its blob, which may be gone, and its sidecar.\<close>

record pending_revision =
  pr_path :: string
  pr_blob :: "byte list option"
  pr_meta :: staged_write

definition remote_baseline :: "(uid \<Rightarrow> pending_revision option) \<Rightarrow> uid \<Rightarrow> int \<Rightarrow> nat \<Rightarrow> string option \<Rightarrow> baseline option" where
  "remote_baseline pending u base_mtime base_size base_rev =
     (if is_local_uid_str u then None
      else case pending u of
             Some p \<Rightarrow> sw_based_on (pr_meta p)
           | None \<Rightarrow> Some \<lparr>bl_mtime = base_mtime, bl_size = int base_size, bl_hash = None,
                           bl_revision_id = base_rev\<rparr>)"

definition recovery_meta :: "(uid \<Rightarrow> pending_revision option) \<Rightarrow> write_handle \<Rightarrow> staged_write" where
  "recovery_meta pending h =
     (let authored = authored_ranges (wh_written h) (wh_len h)
      in \<lparr>sw_uid = wh_uid h, sw_len = wh_len h, sw_base_size = wh_base_size h,
          sw_base_mtime = wh_base_mtime h, sw_authored = authored,
          sw_complete = covers_file authored (wh_len h),
          sw_based_on = remote_baseline pending (wh_uid h) (wh_base_mtime h) (wh_base_size h) (wh_base_revision_id h)\<rparr>)"

text \<open>
  The part of \<open>queue_revision\<close> that turns a dirty handle into a blob and its sidecar: the scratch
  is given its length, what can be filled for free is filled, and the ranges known are written down.
\<close>

definition stage_handle :: "disk \<Rightarrow> (nat \<Rightarrow> nat \<Rightarrow> byte list option) \<Rightarrow> (uid \<Rightarrow> pending_revision option) \<Rightarrow>
    write_handle \<Rightarrow> byte list \<times> staged_write" where
  "stage_handle disk cached pending h =
     (let f = set_len (wh_file h) (wh_len h);
          (g, w) = (if \<not> (is_local_uid_str (wh_uid h) \<and> wh_base_size h > 0)
                    then fill_gaps_cached disk cached f (wh_len h)
                           (if is_local_uid_str (wh_uid h) then 0 else wh_base_size h) (wh_written h)
                    else (f, wh_written h));
          authored = authored_ranges w (wh_len h)
      in (g, \<lparr>sw_uid = wh_uid h, sw_len = wh_len h, sw_base_size = wh_base_size h,
              sw_base_mtime = wh_base_mtime h, sw_authored = authored,
              sw_complete = covers_file authored (wh_len h),
              sw_based_on = remote_baseline pending (wh_uid h) (wh_base_mtime h) (wh_base_size h) (wh_base_revision_id h)\<rparr>))"

text \<open>The sidecar of a path-based truncate, and its blob: a hole of the new length or a copy.\<close>

function copy_chunks :: "byte list \<Rightarrow> nat \<Rightarrow> byte list \<Rightarrow> byte list" where
  "copy_chunks source off dst =
     (let chunk = take (1024 * 1024) (drop off source)
      in if chunk = [] then set_len dst off
         else copy_chunks source (off + length chunk) (write_all_at dst off chunk))"
  by auto
termination by (relation "measure (\<lambda>(source, off, _). length source - off)") auto

declare copy_chunks.simps [simp del]

definition copy_pending_for_truncate :: "byte list \<Rightarrow> byte list \<Rightarrow> byte list" where
  "copy_pending_for_truncate blob dst = copy_chunks blob 0 (set_len dst 0)"

definition truncate_ranges :: "nat \<Rightarrow> nat \<Rightarrow> (nat \<times> nat) list \<times> bool" where
  "truncate_ranges n base_size =
     (if n = 0 then ([], True)
      else if base_size = 0 then ([(0, n)], True)
      else if n > base_size then ([(base_size, n)], False)
      else ([], False))"

definition stage_truncate :: "(uid \<Rightarrow> pending_revision option) \<Rightarrow> uid \<Rightarrow> int \<Rightarrow> nat \<Rightarrow> string option \<Rightarrow> nat \<Rightarrow>
    errno + (byte list \<times> staged_write) option" where
  "stage_truncate pending u base_mtime base_size base_rev n =
     (if n = base_size then Inr None
      else case pending u of
        Some p \<Rightarrow>
          (if \<not> sw_complete (pr_meta p) then Inl EIO
           else case pr_blob p of
                  None \<Rightarrow> Inl EIO
                | Some blob \<Rightarrow>
                    Inr (Some (set_len (copy_pending_for_truncate blob []) n,
                      \<lparr>sw_uid = u, sw_len = n, sw_base_size = sw_len (pr_meta p),
                       sw_base_mtime = sw_base_mtime (pr_meta p),
                       sw_authored = (if n = 0 then [] else [(0, n)]), sw_complete = True,
                       sw_based_on = sw_based_on (pr_meta p)\<rparr>)))
      | None \<Rightarrow>
          Inr (Some (set_len [] n,
            \<lparr>sw_uid = u, sw_len = n, sw_base_size = base_size, sw_base_mtime = base_mtime,
             sw_authored = fst (truncate_ranges n base_size), sw_complete = snd (truncate_ranges n base_size),
             sw_based_on = remote_baseline pending u base_mtime base_size base_rev\<rparr>)))"

text \<open>\<open>read_pending\<close>: the same stitching as for an open handle, over the staged blob.\<close>

fun read_pending_loop :: "byte list \<Rightarrow> nat \<Rightarrow> remote \<Rightarrow> (nat \<times> nat \<times> bool) list \<Rightarrow> byte list \<Rightarrow> errno + byte list" where
  "read_pending_loop f bs remote [] out = Inr out"
| "read_pending_loop f bs remote ((s, e, authored) # segs) out =
     (if authored
      then (case read_exact_at f s (e - s) of
              None \<Rightarrow> Inl EIO
            | Some buf \<Rightarrow> read_pending_loop f bs remote segs (out @ buf))
      else (let bend = min e bs; zeros = replicate (e - max s bs) 0
            in if s < bend
               then (case remote s (bend - s) of
                       Inl er \<Rightarrow> Inl er
                     | Inr buf \<Rightarrow> read_pending_loop f bs remote segs (out @ buf @ zeros))
               else read_pending_loop f bs remote segs (out @ zeros)))"

definition read_pending :: "remote \<Rightarrow> pending_revision \<Rightarrow> nat \<Rightarrow> nat \<Rightarrow> errno + byte list" where
  "read_pending remote p off n =
     (let m = pr_meta p in
      if off \<ge> sw_len m \<or> n = 0 then Inr []
      else if parse_node_uid (sw_uid m) = None then Inl EIO
      else case pr_blob p of
             None \<Rightarrow> Inl EIO
           | Some blob \<Rightarrow>
               read_pending_loop blob (sw_base_size m) remote
                 (segments (of_ranges (sw_authored m)) off (min (saturating_add off n) (sw_len m))) [])"

text \<open>\<open>merge_over_pending\<close>: the bytes only the earlier write authored, copied over.\<close>

fun copy_loop :: "disk \<Rightarrow> byte list \<Rightarrow> (nat \<times> nat \<times> bool) list \<Rightarrow> byte list \<times> ivs \<Rightarrow> (byte list \<times> ivs) \<times> bool" where
  "copy_loop disk blob [] (f, w) = ((f, w), True)"
| "copy_loop disk blob ((ps, pe, has) # segs) (f, w) =
     (if \<not> has then copy_loop disk blob segs (f, w)
      else (case read_exact_at blob ps (pe - ps) of
              None \<Rightarrow> ((f, w), False)
            | Some buf \<Rightarrow>
                (case try_write disk f ps buf of
                   (g, False) \<Rightarrow> ((g, w), False)
                 | (g, True) \<Rightarrow> copy_loop disk blob segs (g, iv_add w ps pe))))"

fun merge_loop_over :: "disk \<Rightarrow> byte list \<Rightarrow> ivs \<Rightarrow> nat \<Rightarrow> (nat \<times> nat \<times> bool) list \<Rightarrow> byte list \<times> ivs \<Rightarrow> (byte list \<times> ivs) \<times> bool" where
  "merge_loop_over disk blob earlier plen [] fw = (fw, True)"
| "merge_loop_over disk blob earlier plen ((s, e, authored) # segs) fw =
     (if authored then merge_loop_over disk blob earlier plen segs fw
      else (case copy_loop disk blob (segments earlier s (min e plen)) fw of
              (fw', True) \<Rightarrow> merge_loop_over disk blob earlier plen segs fw'
            | (fw', False) \<Rightarrow> (fw', False)))"

definition merge_over_pending :: "disk \<Rightarrow> staged_write \<Rightarrow> byte list \<Rightarrow> pending_revision \<Rightarrow> byte list \<times> staged_write option" where
  "merge_over_pending disk m src p =
     (let w = of_ranges (sw_authored m); earlier = of_ranges (sw_authored (pr_meta p))
      in case pr_blob p of
           None \<Rightarrow> (src, None)
         | Some blob \<Rightarrow>
             (case merge_loop_over disk blob earlier (sw_len (pr_meta p)) (segments w 0 (sw_len m)) (src, w) of
                ((g, _), False) \<Rightarrow> (g, None)
              | ((g, w'), True) \<Rightarrow>
                  (let authored = authored_ranges w' (sw_len m)
                   in (g, Some (m\<lparr>sw_base_size := sw_base_size (pr_meta p),
                                   sw_base_mtime := sw_base_mtime (pr_meta p),
                                   sw_based_on := sw_based_on (pr_meta p),
                                   sw_authored := authored,
                                   sw_complete := covers_file authored (sw_len m)\<rparr>)))))"

section \<open>What a staged write stands for\<close>

definition staged_content :: "byte list \<Rightarrow> byte list \<Rightarrow> staged_write \<Rightarrow> byte list" where
  "staged_content base blob m =
     map (layered blob (bytes_of (sw_authored m)) (sw_base_size m) base) [0..<sw_len m]"

text \<open>The remote answers only with the bytes of the base; so does the cache.\<close>

definition remote_right :: "byte list \<Rightarrow> nat \<Rightarrow> remote \<Rightarrow> bool" where
  "remote_right base bs remote =
     (\<forall>s n buf. s + n \<le> bs \<longrightarrow> remote s n = Inr buf \<longrightarrow> buf = map (file_at base) [s..<s + n])"

definition cache_right :: "byte list \<Rightarrow> nat \<Rightarrow> (nat \<Rightarrow> nat \<Rightarrow> byte list option) \<Rightarrow> bool" where
  "cache_right base bs cached =
     (\<forall>s n buf. s + n \<le> bs \<longrightarrow> cached s n = Some buf \<longrightarrow> buf = map (file_at base) [s..<s + n])"

text \<open>Two files of one length that differ inside a set of positions only.\<close>

definition same_outside :: "nat set \<Rightarrow> byte list \<Rightarrow> byte list \<Rightarrow> bool" where
  "same_outside S f g = (length g = length f \<and> (\<forall>i. i \<notin> S \<longrightarrow> file_at g i = file_at f i))"

lemma same_outside_refl [simp]: "same_outside S f f"
  by (simp add: same_outside_def)

lemma same_outside_trans:
  "same_outside S f g \<Longrightarrow> same_outside T g h \<Longrightarrow> S \<subseteq> U \<Longrightarrow> T \<subseteq> U \<Longrightarrow> same_outside U f h"
  unfolding same_outside_def by (metis subsetD)

lemma same_outside_mono: "same_outside S f g \<Longrightarrow> S \<subseteq> T \<Longrightarrow> same_outside T f g"
  by (auto simp: same_outside_def)

lemma try_write_spec:
  assumes "try_write disk f s (map g0 [s..<t]) = (g, ok)" and "s < t" and "t \<le> length f"
  shows "same_outside {s..<t} f g" and "ok \<Longrightarrow> s \<le> i \<Longrightarrow> i < t \<Longrightarrow> file_at g i = g0 i"
  using assms by (auto simp: try_write_def same_outside_def split: option.splits)

text \<open>The bytes a fill has put into an unauthored range.\<close>

definition filled :: "byte list \<Rightarrow> nat \<Rightarrow> nat set \<Rightarrow> byte list \<Rightarrow> byte list \<Rightarrow> bool" where
  "filled base bs S f g =
     (\<forall>i \<in> S. file_at g i = (if i < bs then file_at base i else file_at f i))"

lemma filled_step:
  assumes "same_outside S f f1" and "filled base bs S f f1" and "same_outside T f1 g" and "filled base bs T f1 g"
    and "S \<inter> T = {}"
  shows "same_outside (S \<union> T) f g \<and> filled base bs (S \<union> T) f g"
  using assms unfolding same_outside_def filled_def by (metis Int_iff UnE UnI1 UnI2 empty_iff)

lemma fill_one:
  assumes "a < e" and "{a..<e} \<inter> B = {}" and "e \<le> length f" and "remote_right base bs remote"
    and "fill_loop disk remote bs ((a, e, False) # segs) f = (g, r)"
  shows "same_outside {a..<e} f g \<and> r \<noteq> None \<or>
         (\<exists>f1. same_outside {a..<e} f f1 \<and> filled base bs {a..<e} f f1 \<and> fill_loop disk remote bs segs f1 = (g, r))"
proof -
  define bend where "bend = min e bs"
  have bend: "bend \<le> e" "bend \<le> bs" "bend = e \<or> bend = bs" by (auto simp: bend_def)
  have loop: "(if a \<ge> bend then fill_loop disk remote bs segs f
               else (case remote a (bend - a) of
                       Inl er \<Rightarrow> (f, Some er)
                     | Inr data \<Rightarrow> (case try_write disk f a data of
                           (h, True) \<Rightarrow> fill_loop disk remote bs segs h
                         | (h, False) \<Rightarrow> (h, Some EIO)))) = (g, r)"
    using assms(5) by (simp only: fill_loop.simps Let_def if_False bend_def)
  show ?thesis
  proof (cases "a < bend")
    case False
    then have "filled base bs {a..<e} f f" using assms(1) bend by (auto simp: filled_def)
    with False loop show ?thesis by (intro disjI2 exI [of _ f]) simp
  next
    case True
    show ?thesis
    proof (cases "remote a (bend - a)")
      case (Inl er)
      then show ?thesis using True loop by auto
    next
      case (Inr data)
      have data: "data = map (file_at base) [a..<bend]"
        using assms(4) Inr bend(2) True unfolding remote_right_def by (metis le_add_diff_inverse less_imp_le)
      obtain f1 ok where w: "try_write disk f a data = (f1, ok)" by (cases "try_write disk f a data")
      note spec = try_write_spec [OF w [unfolded data] True]
      have out: "same_outside {a..<bend} f f1" using spec(1) bend assms(3) by simp
      have same: "same_outside {a..<e} f f1"
        using out by (rule same_outside_mono) (use bend in auto)
      have "filled base bs {a..<e} f f1" if ok
        using spec(2) that assms(3) out bend by (auto simp: filled_def same_outside_def)
      with same w Inr True loop show ?thesis by (cases ok) auto
    qed
  qed
qed

lemma fill_loop_spec:
  assumes "tiles B a b segs" and "b \<le> length f" and "remote_right base bs remote"
    and "fill_loop disk remote bs segs f = (g, r)"
  shows "same_outside ({a..<b} - B) f g \<and> (r = None \<longrightarrow> filled base bs ({a..<b} - B) f g)"
  using assms
proof (induction B a b segs arbitrary: f rule: tiles.induct)
  case (1 B a b)
  then show ?case by (simp add: filled_def)
next
  case (2 B a b s e authored segs)
  then have t: "s = a" "a < e" "tiles B e b segs" "e \<le> b" using tiles_le by auto
  have cut: "{a..<b} - B = ({a..<e} - B) \<union> ({e..<b} - B)" using t by auto
  show ?case
  proof (cases authored)
    case True
    with "2.prems" t have "{a..<e} - B = {}" "fill_loop disk remote bs segs f = (g, r)" by auto
    then have "{a..<b} - B = {e..<b} - B" using cut by blast
    with "2.IH" [OF t(3) "2.prems"(2,3)] \<open>fill_loop disk remote bs segs f = (g, r)\<close> show ?thesis by simp
  next
    case False
    with "2.prems" t have gap: "{a..<e} \<inter> B = {}" "{a..<e} - B = {a..<e}" by auto
    consider "same_outside {a..<e} f g" "r \<noteq> None"
      | f1 where "same_outside {a..<e} f f1" "filled base bs {a..<e} f f1" "fill_loop disk remote bs segs f1 = (g, r)"
      using fill_one [OF t(2) gap(1) _ "2.prems"(3), of f disk segs g r] "2.prems" t False by auto
    then show ?thesis
    proof cases
      case 1
      then show ?thesis using same_outside_mono cut gap(2) by auto
    next
      case 2
      then have "b \<le> length f1" using "2.prems"(2) by (simp add: same_outside_def)
      have "{a..<e} \<inter> ({e..<b} - B) = {}" by auto
      from filled_step [OF 2(1,2) _ _ this] "2.IH" [OF t(3) \<open>b \<le> length f1\<close> "2.prems"(3) 2(3)] 2(1)
      show ?thesis unfolding cut gap(2) by (blast intro: same_outside_trans)
    qed
  qed
qed

lemma segments_tiles0:
  assumes "wf_ivs w" and "bytes_of w \<subseteq> {..<len}"
  shows "tiles (bytes_of w) 0 len (segments w 0 len)"
proof (cases "len = 0")
  case True
  with assms have "w = []" using bytes_of_empty_iff by auto
  with True show ?thesis by (simp add: segments_def seg_tail_def)
qed (use assms in \<open>simp add: segments_tiles\<close>)

text \<open>A fill that went through leaves the whole content; one that failed has lost nothing.\<close>

lemma fill_gaps_spec:
  assumes "wf_ivs w" and "bytes_of w \<subseteq> {..<len}" and "remote_right base bs remote"
    and "fill_gaps disk len_ok remote f len bs w = (g, r)"
  shows "map (layered g (bytes_of w) bs base) [0..<len] = map (layered f (bytes_of w) bs base) [0..<len]"
    and "r = None \<Longrightarrow> (\<And>i. i \<notin> bytes_of w \<Longrightarrow> bs \<le> i \<Longrightarrow> file_at f i = 0) \<Longrightarrow>
           g = map (layered f (bytes_of w) bs base) [0..<len]"
proof -
  have loop: "len_ok \<Longrightarrow> same_outside ({0..<len} - bytes_of w) (set_len f len) g \<and>
      (r = None \<longrightarrow> filled base bs ({0..<len} - bytes_of w) (set_len f len) g)"
    using fill_loop_spec [OF segments_tiles0 [OF assms(1,2)] _ assms(3)] assms(4)
    by (simp add: fill_gaps_def)
  have "layered g (bytes_of w) bs base i = layered f (bytes_of w) bs base i" if "i < len" for i
    using loop assms(2,4) that by (cases len_ok) (auto simp: same_outside_def layered_def fill_gaps_def)
  then show "map (layered g (bytes_of w) bs base) [0..<len] = map (layered f (bytes_of w) bs base) [0..<len]"
    by simp
  assume ok: "r = None" and hole: "\<And>i. i \<notin> bytes_of w \<Longrightarrow> bs \<le> i \<Longrightarrow> file_at f i = 0"
  then have len_ok using assms(4) by (auto simp: fill_gaps_def split: if_splits)
  with ok loop have g: "same_outside ({0..<len} - bytes_of w) (set_len f len) g"
    "filled base bs ({0..<len} - bytes_of w) (set_len f len) g" by auto
  show "g = map (layered f (bytes_of w) bs base) [0..<len]"
  proof (rule file_eqI)
    show "length g = length (map (layered f (bytes_of w) bs base) [0..<len])"
      using g(1) by (simp add: same_outside_def)
    fix i assume "i < length (map (layered f (bytes_of w) bs base) [0..<len])"
    then show "file_at g i = file_at (map (layered f (bytes_of w) bs base) [0..<len]) i"
      using g hole [of i] by (auto simp: same_outside_def filled_def file_at_map_upt layered_def)
  qed
qed

lemma fill_loop_succeeds:
  assumes "\<And>s n. s + n \<le> bs \<Longrightarrow> \<exists>buf. remote s n = Inr buf"
  shows "snd (fill_loop (\<lambda>_. None) remote bs segs f) = None"
proof (induction segs arbitrary: f)
  case (Cons x segs)
  obtain s e authored where x: "x = (s, e, authored)" by (cases x)
  show ?case
  proof (cases "authored \<or> min e bs \<le> s")
    case True
    then show ?thesis using x Cons.IH by (auto simp: Let_def simp del: min.bounded_iff)
  next
    case False
    then have "s + (min e bs - s) \<le> bs" by linarith
    then obtain buf where "remote s (min e bs - s) = Inr buf" using assms by blast
    with Cons.IH [of "write_all_at f s buf"] Cons.IH [of f] x show ?thesis
      by (simp add: Let_def try_write_def split: if_splits)
  qed
qed simp

text \<open>The cached half: what it resolves is right, and nothing that was known changes.\<close>

definition resolved :: "byte list \<Rightarrow> nat \<Rightarrow> nat set \<Rightarrow> byte list \<times> ivs \<Rightarrow> byte list \<times> ivs \<Rightarrow> bool" where
  "resolved base bs S before after =
     (wf_ivs (snd after) \<and> bytes_of (snd before) \<subseteq> bytes_of (snd after) \<and>
      bytes_of (snd after) \<subseteq> bytes_of (snd before) \<union> S \<and> same_outside (S \<inter> {..<bs}) (fst before) (fst after) \<and>
      (\<forall>i \<in> bytes_of (snd after) - bytes_of (snd before).
         file_at (fst after) i = (if i < bs then file_at base i else 0)))"

lemma resolved_refl: "wf_ivs w \<Longrightarrow> resolved base bs S (f, w) (f, w)"
  by (simp add: resolved_def)

lemma resolved_step:
  assumes "resolved base bs S fw fw1" and "resolved base bs T fw1 fw2" and "S \<inter> T = {}"
    and "bytes_of (snd fw) \<inter> (S \<union> T) = {}"
  shows "resolved base bs (S \<union> T) fw fw2"
proof -
  have "same_outside ((S \<union> T) \<inter> {..<bs}) (fst fw) (fst fw2)"
    using assms(1,2) unfolding resolved_def by (blast intro: same_outside_trans)
  moreover have "file_at (fst fw2) i = (if i < bs then file_at base i else 0)"
    if i: "i \<in> bytes_of (snd fw2) - bytes_of (snd fw)" for i
  proof (cases "i \<in> bytes_of (snd fw1)")
    case True
    then have "i \<in> S" "i \<notin> T" using i assms unfolding resolved_def by blast+
    then have "file_at (fst fw2) i = file_at (fst fw1) i"
      using assms(2) by (simp add: resolved_def same_outside_def)
    with True i assms(1) show ?thesis by (simp add: resolved_def)
  qed (use i assms(2) in \<open>simp add: resolved_def\<close>)
  ultimately show ?thesis
    using assms(1,2) unfolding resolved_def by blast
qed

lemma cached_one:
  assumes "a < e" and "{a..<e} \<inter> bytes_of w = {}" and "wf_ivs w" and "e \<le> length f" and "cache_right base bs cached"
    and "\<And>i. i \<in> {a..<e} \<Longrightarrow> bs \<le> i \<Longrightarrow> file_at f i = 0"
  shows "\<exists>budget' f1 w1. resolved base bs {a..<e} (f, w) (f1, w1) \<and>
     cached_loop disk cached bs ((a, e, False) # segs) (budget, f, w) = cached_loop disk cached bs segs (budget', f1, w1)"
proof -
  define bend where "bend = min e bs"
  define past where "past v = (if e > bs then iv_add v (max a bs) e else v)" for v
  have bend: "bend \<le> e" "bend \<le> bs" "bend = e \<or> bend = bs" by (auto simp: bend_def)
  have past: "wf_ivs (past v)" "bytes_of (past v) = bytes_of v \<union> {max a bs..<e}" if "wf_ivs v" for v
    using that by (auto simp: past_def)
  let ?next = "cached_loop disk cached bs segs"
  have loop: "cached_loop disk cached bs ((a, e, False) # segs) (budget, f, w) =
     (if a < bend
      then (if bend - a > budget then ?next (budget, f, w)
            else (case cached a (bend - a) of
                    None \<Rightarrow> ?next (budget, f, w)
                  | Some data \<Rightarrow> (case try_write disk f a data of
                         (g, False) \<Rightarrow> ?next (budget, g, w)
                       | (g, True) \<Rightarrow> ?next (budget - (bend - a), g, past (iv_add w a bend)))))
      else ?next (budget, f, past w))"
    by (simp only: cached_loop.simps Let_def if_False bend_def past_def)
  consider "\<not> a < bend" | "a < bend" "bend - a > budget \<or> cached a (bend - a) = None"
    | data where "a < bend" "\<not> bend - a > budget" "cached a (bend - a) = Some data"
    by (cases "cached a (bend - a)") auto
  then show ?thesis
  proof cases
    case 1
    then have "resolved base bs {a..<e} (f, w) (f, past w)"
      using bend assms(1,6) past [OF assms(3)] by (auto simp: resolved_def)
    with 1 show ?thesis unfolding loop by (metis (full_types))
  next
    case 2
    have "resolved base bs {a..<e} (f, w) (f, w)" using assms(3) by (rule resolved_refl)
    with 2 show ?thesis unfolding loop
      by (intro exI [of _ budget] exI [of _ f] exI [of _ w]) auto
  next
    case (3 data)
    have data: "data = map (file_at base) [a..<bend]"
      using assms(5) 3 bend(2) unfolding cache_right_def by (metis le_add_diff_inverse less_imp_le)
    obtain g ok where g: "try_write disk f a data = (g, ok)" by (cases "try_write disk f a data")
    note spec = try_write_spec [OF g [unfolded data] 3(1)]
    have out: "same_outside {a..<bend} f g" using spec(1) bend assms(4) by simp
    then have same: "same_outside ({a..<e} \<inter> {..<bs}) f g" by (rule same_outside_mono) (use bend in auto)
    let ?w = "if ok then past (iv_add w a bend) else w"
    have "resolved base bs {a..<e} (f, w) (g, ?w)"
      using same spec(2) out bend assms past [of "iv_add w a bend"]
      by (auto simp: resolved_def same_outside_def)
    with 3 g show ?thesis unfolding loop
      by (intro exI [of _ "if ok then budget - (bend - a) else budget"] exI [of _ g] exI [of _ ?w]) auto
  qed
qed

lemma cached_loop_spec:
  assumes "tiles B a b segs" and "bytes_of w \<inter> {a..<b} = B \<inter> {a..<b}" and "wf_ivs w" and "b \<le> length f"
    and "cache_right base bs cached" and "\<And>i. i \<in> {a..<b} - B \<Longrightarrow> bs \<le> i \<Longrightarrow> file_at f i = 0"
  shows "resolved base bs ({a..<b} - B) (f, w) (cached_loop disk cached bs segs (budget, f, w))"
  using assms
proof (induction B a b segs arbitrary: budget f w rule: tiles.induct)
  case (1 B a b)
  then show ?case by (simp add: resolved_refl)
next
  case (2 B a b s e authored segs)
  then have t: "s = a" "a < e" "tiles B e b segs" "e \<le> b" using tiles_le by auto
  have cut: "{a..<b} = {a..<e} \<union> {e..<b}" using t by auto
  show ?case
  proof (cases authored)
    case True
    with "2.prems"(1) t have sub: "{a..<e} \<subseteq> B" by simp
    have "resolved base bs ({e..<b} - B) (f, w) (cached_loop disk cached bs segs (budget, f, w))"
      by (rule "2.IH" [OF t(3) _ "2.prems"(3,4,5)]) (use "2.prems"(2,6) cut in blast)+
    moreover have "{a..<b} - B = {e..<b} - B" using sub cut by blast
    ultimately show ?thesis using True by simp
  next
    case False
    with "2.prems"(1) t have gap: "{a..<e} \<inter> B = {}" by simp
    then have gapw: "{a..<e} \<inter> bytes_of w = {}" using "2.prems"(2) cut by blast
    have "e \<le> length f" using "2.prems"(4) t(4) by simp
    from cached_one [OF t(2) gapw "2.prems"(3) this "2.prems"(5), of disk segs budget] "2.prems"(6) gap cut
    obtain n f1 w1 where one: "resolved base bs {a..<e} (f, w) (f1, w1)"
      and eq: "cached_loop disk cached bs ((a, e, False) # segs) (budget, f, w) = cached_loop disk cached bs segs (n, f1, w1)"
      by blast
    have "resolved base bs ({e..<b} - B) (f1, w1) (cached_loop disk cached bs segs (n, f1, w1))"
    proof (rule "2.IH" [OF t(3) _ _ _ "2.prems"(5)])
      show "bytes_of w1 \<inter> {e..<b} = B \<inter> {e..<b}"
        using one "2.prems"(2) unfolding resolved_def cut by auto
      show "wf_ivs w1" "b \<le> length f1" using one "2.prems"(4) by (simp_all add: resolved_def same_outside_def)
      show "file_at f1 i = 0" if "i \<in> {e..<b} - B" "bs \<le> i" for i
        using one that "2.prems"(6) [of i] t(2) by (auto simp: resolved_def same_outside_def)
    qed
    then have "resolved base bs ({a..<e} \<union> ({e..<b} - B)) (f, w) (cached_loop disk cached bs segs (n, f1, w1))"
      using gapw "2.prems"(2) cut by (intro resolved_step [OF one]) auto
    moreover have "{a..<b} - B = {a..<e} \<union> ({e..<b} - B)" using gap cut by blast
    ultimately show ?thesis using False t(1) eq by simp
  qed
qed

section \<open>Staging a handle\<close>

lemma cache_right_mono: "cache_right base bs cached \<Longrightarrow> m \<le> bs \<Longrightarrow> cache_right base m cached"
  by (auto simp: cache_right_def)

lemma resolved_layered:
  assumes "resolved base bs S (f, w) (g, w')" and "bytes_of w \<inter> S = {}"
  shows "layered g (bytes_of w') bs base i = layered f (bytes_of w) bs base i"
proof (cases "i \<in> bytes_of w")
  case True
  then have "i \<in> bytes_of w'" "i \<notin> S" using assms by (auto simp: resolved_def)
  with True assms(1) show ?thesis by (simp add: layered_def resolved_def same_outside_def)
next
  case False
  then show ?thesis using assms(1) by (auto simp: layered_def resolved_def)
qed

text \<open>
  A blob and its sidecar that belong together: the ranges are stored in order and inside the file,
  the blob has the file's length, and what is neither authored nor in the base is a hole.
\<close>

definition wf_staged :: "byte list \<Rightarrow> staged_write \<Rightarrow> bool" where
  "wf_staged blob m =
     (wf_ivs (sw_authored m) \<and> bytes_of (sw_authored m) \<subseteq> {..<sw_len m} \<and> length blob = sw_len m \<and>
      (sw_complete m \<longleftrightarrow> {..<sw_len m} \<subseteq> bytes_of (sw_authored m)) \<and>
      (\<forall>i < length blob. i \<in> bytes_of (sw_authored m) \<or> i < sw_base_size m \<or> blob ! i = 0))"

lemma wf_staged_hole:
  "wf_staged blob m \<Longrightarrow> i \<notin> bytes_of (sw_authored m) \<Longrightarrow> sw_base_size m \<le> i \<Longrightarrow> file_at blob i = 0"
  by (auto simp: wf_staged_def file_at_def)

lemma of_ranges_wf: "wf_ivs w \<Longrightarrow> of_ranges w = w"
  by (rule wf_ivs_unique) simp_all

lemma sidecar_ranges:
  assumes "wf_ivs w" and "bytes_of w \<subseteq> {..<len}"
  shows "authored_ranges w len = w" and "covers_file (authored_ranges w len) len \<longleftrightarrow> {..<len} \<subseteq> bytes_of w"
proof -
  show "authored_ranges w len = w"
    unfolding authored_ranges_clip [OF assms(1)]
    by (rule wf_ivs_unique) (use assms in \<open>auto simp: Int_absorb2\<close>)
qed (rule covers_file_iff [OF assms(1)])

lemma complete_staged_content:
  assumes "wf_staged blob m" and "sw_complete m"
  shows "staged_content base blob m = blob"
proof (rule file_eqI)
  fix i assume "i < length blob"
  then have "i \<in> {..<sw_len m}" using assms(1) by (simp add: wf_staged_def)
  then have "i \<in> bytes_of (sw_authored m)" using assms unfolding wf_staged_def by blast
  with \<open>i \<in> {..<sw_len m}\<close> show "file_at (staged_content base blob m) i = file_at blob i"
    by (simp add: staged_content_def file_at_map_upt layered_def)
qed (use assms in \<open>simp add: staged_content_def wf_staged_def\<close>)

lemma stage_handle_fill:
  assumes "wh_inv h" and "cache_right base (wh_base_size h) cached"
    and "stage_handle disk cached pending h = (blob, m)"
  obtains w where "resolved base (wh_base_size h) ({0..<wh_len h} - bytes_of (wh_written h))
      (set_len (wh_file h) (wh_len h), wh_written h) (blob, w)"
    and "sw_authored m = authored_ranges w (wh_len h)"
    and "sw_complete m = covers_file (sw_authored m) (wh_len h)"
    and "sw_len m = wh_len h" and "sw_base_size m = wh_base_size h" and "sw_uid m = wh_uid h"
proof -
  let ?f = "set_len (wh_file h) (wh_len h)"
  let ?S = "{0..<wh_len h} - bytes_of (wh_written h)"
  let ?bs = "if is_local_uid_str (wh_uid h) then 0 else wh_base_size h"
  have wf: "wf_ivs (wh_written h)" "bytes_of (wh_written h) \<subseteq> {..<wh_len h}"
    using assms(1) by (simp_all add: wh_inv_def)
  have "resolved base ?bs ?S (?f, wh_written h) (fill_gaps_cached disk cached ?f (wh_len h) ?bs (wh_written h))"
    unfolding fill_gaps_cached_def
    by (rule cached_loop_spec [OF segments_tiles0 [OF wf]])
      (use wf assms(1,2) wh_inv_hole in \<open>auto intro: cache_right_mono\<close>)
  moreover have "resolved base (wh_base_size h) ?S (?f, wh_written h) (?f, wh_written h)"
    using wf(1) by (rule resolved_refl)
  moreover have "?bs = wh_base_size h" if "\<not> (is_local_uid_str (wh_uid h) \<and> wh_base_size h > 0)"
    using that by auto
  ultimately show ?thesis
    using assms(3) that by (auto simp: stage_handle_def Let_def split: prod.splits if_splits)
qed

lemma stage_handle_spec:
  assumes "wh_inv h" and "cache_right base (wh_base_size h) cached"
    and "stage_handle disk cached pending h = (blob, m)"
  shows "wf_staged blob m" and "staged_content base blob m = view base h"
proof -
  obtain w where r: "resolved base (wh_base_size h) ({0..<wh_len h} - bytes_of (wh_written h))
      (set_len (wh_file h) (wh_len h), wh_written h) (blob, w)"
    and m: "sw_authored m = authored_ranges w (wh_len h)"
      "sw_complete m = covers_file (sw_authored m) (wh_len h)"
      "sw_len m = wh_len h" "sw_base_size m = wh_base_size h"
    by (rule stage_handle_fill [OF assms])
  have sub: "bytes_of (wh_written h) \<subseteq> {..<wh_len h}" using assms(1) by (simp add: wh_inv_def)
  have w: "wf_ivs w" "bytes_of w \<subseteq> {..<wh_len h}" using r sub by (auto simp: resolved_def)
  note ranges = sidecar_ranges [OF w]
  have hole: "file_at blob i = 0" if "i \<notin> bytes_of w" "wh_base_size h \<le> i" for i
  proof -
    have "i \<notin> bytes_of (wh_written h)" using r that(1) by (auto simp: resolved_def)
    then have "file_at (wh_file h) i = 0" using assms(1) by (rule wh_inv_hole [rotated])
    with r that(2) show ?thesis by (simp add: resolved_def same_outside_def)
  qed
  have "length blob = wh_len h" using r by (simp add: resolved_def same_outside_def)
  moreover have "i \<in> bytes_of w \<or> i < wh_base_size h \<or> blob ! i = 0" if "i < length blob" for i
    using hole [of i] that by (metis file_at_def not_le)
  ultimately show "wf_staged blob m"
    using w ranges unfolding wf_staged_def m(1,3,4) m(2) by auto
  show "staged_content base blob m = view base h"
    using resolved_layered [OF r] unfolding staged_content_def view_layered m(3,4) m(1) ranges(1)
    by (auto simp: layered_def)
qed

section \<open>Reading and uploading a staged write\<close>

definition asks :: "remote \<Rightarrow> nat \<Rightarrow> nat \<Rightarrow> errno + byte list option" where
  "asks remote s n = (case remote s n of Inl er \<Rightarrow> Inl er | Inr buf \<Rightarrow> Inr (Some buf))"

definition online :: "nat \<Rightarrow> remote \<Rightarrow> bool" where
  "online bs remote = (\<forall>s n. s + n \<le> bs \<longrightarrow> (\<exists>buf. remote s n = Inr buf))"

lemma asks_answers: "remote_right base bs remote \<Longrightarrow> answers base bs (asks remote)"
  by (auto simp: remote_right_def answers_def asks_def split: sum.splits)

lemma asks_always: "online bs remote \<Longrightarrow> always_answers bs (asks remote)"
  by (fastforce simp: online_def always_answers_def asks_def)

lemma asks_never_None: "asks remote s n \<noteq> Inr None"
  by (auto simp: asks_def split: sum.splits)

text \<open>The loop of \<open>read_pending\<close> is the loop of the open read with a base that never declines.\<close>

lemma read_pending_loop_assemble:
  "map_sum id Some (read_pending_loop f bs remote segs out) = assemble_loop f bs (asks remote) segs out"
proof (induction segs arbitrary: out)
  case (Cons x segs)
  then show ?case by (cases x) (auto simp: Let_def asks_def split: option.splits sum.splits)
qed simp

lemma read_pending_spec:
  assumes "wf_staged blob m" and "pr_blob p = Some blob" and "pr_meta p = m" and "parse_node_uid (sw_uid m) \<noteq> None"
    and "remote_right base (sw_base_size m) remote" and "sw_len m \<le> U64_MAX"
  shows "read_pending remote p off n = Inr (take n (drop off (staged_content base blob m))) \<or>
         (\<not> online (sw_base_size m) remote \<and> (\<exists>er. read_pending remote p off n = Inl er))"
proof -
  let ?w = "sw_authored m"
  have w: "wf_ivs ?w" "bytes_of ?w \<subseteq> {..<length blob}" using assms(1) by (auto simp: wf_staged_def)
  have "map_sum id Some (read_pending remote p off n) =
      assemble_open_read blob (sw_len m) (sw_base_size m) ?w off n (asks remote)"
    using assms(2-4) w(1)
    by (auto simp: read_pending_def assemble_open_read_def Let_def read_pending_loop_assemble of_ranges_wf)
  with layered_read [OF w asks_answers [OF assms(5)] assms(6), of off n] show ?thesis
    unfolding staged_content_def
    by (cases "read_pending remote p off n") (auto dest: asks_always)
qed

lemma fill_staged:
  assumes "wf_staged blob m" and "remote_right base (sw_base_size m) remote"
    and "fill_gaps disk len_ok remote blob (sw_len m) (sw_base_size m) (of_ranges (sw_authored m)) = (g, r)"
  shows "r = None \<Longrightarrow> g = staged_content base blob m"
    and "staged_content base g m = staged_content base blob m"
proof -
  have w: "wf_ivs (sw_authored m)" "bytes_of (sw_authored m) \<subseteq> {..<sw_len m}"
    using assms(1) by (auto simp: wf_staged_def)
  note spec = fill_gaps_spec [OF w assms(2) assms(3) [unfolded of_ranges_wf [OF w(1)]]]
  show "r = None \<Longrightarrow> g = staged_content base blob m"
    unfolding staged_content_def by (rule spec(2)) (use wf_staged_hole [OF assms(1)] in auto)
  show "staged_content base g m = staged_content base blob m"
    unfolding staged_content_def by (rule spec(1))
qed

lemma fill_staged_succeeds:
  assumes "online (sw_base_size m) remote"
  shows "snd (fill_gaps (\<lambda>_. None) True remote blob (sw_len m) (sw_base_size m) w) = None"
  using assms by (simp add: fill_gaps_def fill_loop_succeeds online_def)

section \<open>Folding an earlier queued write in\<close>

text \<open>
  The state of the copy: the file outside the copied positions is untouched, the copied positions
  hold the earlier blob's bytes and are exactly what was added to the set.
\<close>

definition copied :: "byte list \<Rightarrow> nat set \<Rightarrow> byte list \<times> ivs \<Rightarrow> byte list \<times> ivs \<Rightarrow> bool" where
  "copied blob S before after =
     (wf_ivs (snd after) \<and> bytes_of (snd after) = bytes_of (snd before) \<union> S \<and>
      same_outside S (fst before) (fst after) \<and> (\<forall>i \<in> S. file_at (fst after) i = file_at blob i))"

lemma copied_refl: "wf_ivs w \<Longrightarrow> copied blob {} (f, w) (f, w)"
  by (simp add: copied_def)

lemma copied_trans:
  assumes "copied blob S fw fw1" and "copied blob T fw1 fw2"
  shows "copied blob (S \<union> T) fw fw2"
proof -
  have "same_outside (S \<union> T) (fst fw) (fst fw2)"
    using assms unfolding copied_def by (blast intro: same_outside_trans)
  moreover have "file_at (fst fw2) i = file_at blob i" if "i \<in> S \<union> T" for i
    using that assms by (cases "i \<in> T") (auto simp: copied_def same_outside_def)
  ultimately show ?thesis using assms by (auto simp: copied_def)
qed

lemma copy_one:
  assumes "a < e" and "e \<le> length f" and "wf_ivs w"
    and "copy_loop disk blob ((a, e, True) # segs) (f, w) = (fw, ok)"
  shows "same_outside {a..<e} f (fst fw) \<and> \<not> ok \<or>
    (\<exists>g. copied blob {a..<e} (f, w) (g, iv_add w a e) \<and> copy_loop disk blob segs (g, iv_add w a e) = (fw, ok))"
proof (cases "read_exact_at blob a (e - a)")
  case None
  with assms(4) show ?thesis by auto
next
  case (Some buf)
  then have buf: "buf = map (file_at blob) [a..<e]"
    using read_exact_at_upt [of a "e - a" blob] assms(1) by (auto simp: read_exact_at_def split: if_splits)
  obtain g wok where g: "try_write disk f a buf = (g, wok)" by (cases "try_write disk f a buf")
  note spec = try_write_spec [OF g [unfolded buf] assms(1,2)]
  show ?thesis
  proof (cases wok)
    case False
    with spec(1) g Some assms(4) show ?thesis by auto
  next
    case True
    with spec assms(3) have "copied blob {a..<e} (f, w) (g, iv_add w a e)" by (auto simp: copied_def)
    moreover have "copy_loop disk blob segs (g, iv_add w a e) = (fw, ok)"
      using g True Some assms(4) by simp
    ultimately show ?thesis by blast
  qed
qed

text \<open>Two successive copies, the second of which may stop.\<close>

lemma copied_then:
  assumes "copied blob S fw fw1" and "same_outside T (fst fw1) (fst fw2) \<and> (ok \<longrightarrow> copied blob T fw1 fw2)"
  shows "same_outside (S \<union> T) (fst fw) (fst fw2) \<and> (ok \<longrightarrow> copied blob (S \<union> T) fw fw2)"
proof
  have "same_outside S (fst fw) (fst fw1)" using assms(1) by (simp add: copied_def)
  with assms(2) show "same_outside (S \<union> T) (fst fw) (fst fw2)" by (blast intro: same_outside_trans)
  show "ok \<longrightarrow> copied blob (S \<union> T) fw fw2" using assms copied_trans by blast
qed

lemma copied_lengths: "copied blob S fw fw1 \<Longrightarrow> length (fst fw1) = length (fst fw) \<and> wf_ivs (snd fw1)"
  by (simp add: copied_def same_outside_def)

lemma copy_loop_spec:
  assumes "tiles E a b segs" and "wf_ivs w" and "b \<le> length f"
    and "copy_loop disk blob segs (f, w) = (fw, ok)"
  shows "same_outside (E \<inter> {a..<b}) f (fst fw) \<and> (ok \<longrightarrow> copied blob (E \<inter> {a..<b}) (f, w) fw)"
  using assms
proof (induction E a b segs arbitrary: f w rule: tiles.induct)
  case (1 E a b)
  then show ?case by (auto simp: copied_refl)
next
  case (2 E a b s e has segs)
  then have t: "s = a" "a < e" "tiles E e b segs" "e \<le> b" using tiles_le by auto
  have cut: "{a..<b} = {a..<e} \<union> {e..<b}" using t by auto
  show ?case
  proof (cases has)
    case False
    with "2.prems"(1) t have "E \<inter> {a..<b} = E \<inter> {e..<b}" unfolding cut by auto
    with "2.IH" [OF t(3) "2.prems"(2,3)] "2.prems"(4) False show ?thesis by simp
  next
    case True
    with "2.prems"(1) t have E: "E \<inter> {a..<b} = {a..<e} \<union> (E \<inter> {e..<b})" unfolding cut by auto
    have "e \<le> length f" using t "2.prems"(3) by simp
    from copy_one [OF t(2) this "2.prems"(2), of disk blob segs fw ok] "2.prems"(4) True t(1)
    consider "same_outside {a..<e} f (fst fw)" "\<not> ok"
      | g where "copied blob {a..<e} (f, w) (g, iv_add w a e)" "copy_loop disk blob segs (g, iv_add w a e) = (fw, ok)"
      by auto
    then show ?thesis
    proof cases
      case 1
      then show ?thesis unfolding E by (auto intro: same_outside_mono)
    next
      case one: 2
      with copied_lengths [OF one(1)] "2.prems"(3) "2.IH" [OF t(3) _ _ one(2)]
      have rest: "same_outside (E \<inter> {e..<b}) g (fst fw) \<and> (ok \<longrightarrow> copied blob (E \<inter> {e..<b}) (g, iv_add w a e) fw)"
        by auto
      from copied_then [OF one(1), of "E \<inter> {e..<b}" fw ok] rest show ?thesis unfolding E by simp
    qed
  qed
qed

lemma segments_tiles_cut:
  assumes "wf_ivs v" and "bytes_of v \<subseteq> {..<n}" and "s < e"
  shows "tiles (bytes_of v) s (max s (min e n)) (segments v s (min e n))"
proof (cases "s < min e n")
  case True
  then have "max s (min e n) = min e n" by (simp add: max_def)
  with segments_tiles [OF assms(1) True] show ?thesis by simp
next
  case False
  then have "n \<le> s" using assms(3) by simp
  have "seg_loop s (min e n) s v = []" if "set v \<subseteq> {p. snd p \<le> s}" for v
    using that \<open>n \<le> s\<close> by (induction v) (auto simp: seg_tail_def)
  moreover have "set v \<subseteq> {p. snd p \<le> s}"
  proof clarify
    fix a b assume ab: "(a, b) \<in> set v"
    then have "b - 1 \<in> bytes_of v" using wf_ivs_nonempty [OF assms(1) ab] unfolding bytes_of_def
      by (intro UN_I [of "(a, b)"]) auto
    then have "b - 1 < n" using assms(2) by blast
    with \<open>n \<le> s\<close> show "snd (a, b) \<le> s" by simp
  qed
  moreover have "max s (min e n) = s" using \<open>n \<le> s\<close> by linarith
  ultimately show ?thesis by (simp add: segments_def)
qed

lemma merge_loop_spec:
  assumes "tiles W a b segs" and "wf_ivs w" and "b \<le> length f" and "wf_ivs v" and "bytes_of v \<subseteq> {..<n}"
    and "merge_loop_over disk blob v n segs (f, w) = (fw, ok)"
  shows "same_outside (bytes_of v \<inter> {a..<b} - W) f (fst fw) \<and>
         (ok \<longrightarrow> copied blob (bytes_of v \<inter> {a..<b} - W) (f, w) fw)"
  using assms
proof (induction W a b segs arbitrary: f w rule: tiles.induct)
  case (1 W a b)
  then show ?case by (auto simp: copied_refl)
next
  case (2 W a b s e authored segs)
  then have t: "s = a" "a < e" "tiles W e b segs" "e \<le> b" using tiles_le by auto
  have cut: "{a..<b} = {a..<e} \<union> {e..<b}" using t by auto
  show ?case
  proof (cases authored)
    case True
    with "2.prems"(1) t have "bytes_of v \<inter> {a..<b} - W = bytes_of v \<inter> {e..<b} - W" unfolding cut by auto
    with "2.IH" [OF t(3) "2.prems"(2-5)] "2.prems"(6) True show ?thesis by simp
  next
    case False
    define S where "S = bytes_of v \<inter> {a..<max a (min e n)}"
    have "S = bytes_of v \<inter> {a..<e}" using "2.prems"(5) t(2) unfolding S_def by auto
    moreover have "{a..<e} \<inter> W = {}" using "2.prems"(1) t(1) False by simp
    ultimately have S: "bytes_of v \<inter> {a..<b} - W = S \<union> (bytes_of v \<inter> {e..<b} - W)"
      unfolding cut by blast
    obtain fw1 ok1 where c: "copy_loop disk blob (segments v a (min e n)) (f, w) = (fw1, ok1)"
      by (cases "copy_loop disk blob (segments v a (min e n)) (f, w)")
    have "max a (min e n) \<le> length f" using t "2.prems"(3) by auto
    note one = copy_loop_spec [OF segments_tiles_cut [OF "2.prems"(4,5) t(2)] "2.prems"(2) this c, folded S_def]
    show ?thesis
    proof (cases ok1)
      case no: False
      with c "2.prems"(6) False t(1) have "fw = fw1" "\<not> ok" by auto
      with one show ?thesis unfolding S by (auto intro: same_outside_mono)
    next
      case True
      then have cp: "copied blob S (f, w) fw1" using one by simp
      obtain g w1 where fw1: "fw1 = (g, w1)" by (cases fw1)
      have "merge_loop_over disk blob v n segs (g, w1) = (fw, ok)"
        using c True "2.prems"(6) False t(1) fw1 by simp
      moreover have "wf_ivs w1" "b \<le> length g" using copied_lengths [OF cp] "2.prems"(3) fw1 by auto
      ultimately have "same_outside (bytes_of v \<inter> {e..<b} - W) g (fst fw) \<and>
          (ok \<longrightarrow> copied blob (bytes_of v \<inter> {e..<b} - W) (g, w1) fw)"
        using "2.IH" [OF t(3) _ _ "2.prems"(4,5)] by blast
      with copied_then [OF cp, of "bytes_of v \<inter> {e..<b} - W" fw ok] fw1 show ?thesis unfolding S by simp
    qed
  qed
qed

text \<open>
  The merged write over the remote base stands for the newer write over the older one's content,
  when the newer write authored everything past the older one's end or the base ends before it.
\<close>

lemma merge_over_pending_spec:
  assumes "wf_staged src m" and "wf_staged blob (pr_meta p)" and "pr_blob p = Some blob"
    and "{sw_len (pr_meta p)..<sw_len m} \<subseteq> bytes_of (sw_authored m) \<or> sw_base_size (pr_meta p) \<le> sw_len (pr_meta p)"
    and "merge_over_pending disk m src p = (g, Some m')"
  shows "staged_content base g m' =
           map (layered src (bytes_of (sw_authored m)) (sw_len (pr_meta p)) (staged_content base blob (pr_meta p)))
             [0..<sw_len m]"
    and "sw_len m' = sw_len m" and "sw_base_size m' = sw_base_size (pr_meta p)"
    and "sw_based_on m' = sw_based_on (pr_meta p)" and "sw_uid m' = sw_uid m"
    and "(\<And>i. i \<notin> bytes_of (sw_authored m) \<Longrightarrow> file_at src i = 0) \<Longrightarrow> wf_staged g m'"
proof -
  define W where "W = bytes_of (sw_authored m)"
  define E where "E = bytes_of (sw_authored (pr_meta p))"
  define S where "S = E \<inter> {0..<sw_len m} - W"
  have w: "wf_ivs (sw_authored m)" "W \<subseteq> {..<sw_len m}" "length src = sw_len m"
    and v: "wf_ivs (sw_authored (pr_meta p))" "E \<subseteq> {..<sw_len (pr_meta p)}"
    using assms(1,2) by (auto simp: wf_staged_def W_def E_def)
  obtain w' where loop: "merge_loop_over disk blob (sw_authored (pr_meta p)) (sw_len (pr_meta p))
        (segments (sw_authored m) 0 (sw_len m)) (src, sw_authored m) = ((g, w'), True)"
    and m': "m' = m\<lparr>sw_base_size := sw_base_size (pr_meta p), sw_base_mtime := sw_base_mtime (pr_meta p),
        sw_based_on := sw_based_on (pr_meta p), sw_authored := authored_ranges w' (sw_len m),
        sw_complete := covers_file (authored_ranges w' (sw_len m)) (sw_len m)\<rparr>"
    using assms(3,5) of_ranges_wf [OF w(1)] of_ranges_wf [OF v(1)]
    by (auto simp: merge_over_pending_def Let_def split: prod.splits bool.splits)
  have cp: "copied blob S (src, sw_authored m) (g, w')"
    using merge_loop_spec [OF segments_tiles0 [OF w(1) w(2) [unfolded W_def]] w(1) _ v(1) v(2) [unfolded E_def] loop]
      w(3) by (simp add: S_def W_def E_def)
  then have w': "wf_ivs w'" "bytes_of w' = W \<union> S" by (auto simp: copied_def W_def)
  have sub: "bytes_of w' \<subseteq> {..<sw_len m}" using w' w(2) by (auto simp: S_def)
  note ranges = sidecar_ranges [OF w'(1) sub]
  show simple: "sw_len m' = sw_len m" "sw_base_size m' = sw_base_size (pr_meta p)"
    "sw_based_on m' = sw_based_on (pr_meta p)" "sw_uid m' = sw_uid m" using m' by simp_all
  have authored: "sw_authored m' = w'" using m' ranges(1) by simp
  have g_at: "file_at g i = (if i \<in> S then file_at blob i else file_at src i)" for i
    using cp by (auto simp: copied_def same_outside_def)
  have past: "i \<in> W \<or> sw_base_size (pr_meta p) \<le> i" if "i < sw_len m" "sw_len (pr_meta p) \<le> i" for i
    using assms(4) that by (fastforce simp: W_def)
  show "staged_content base g m' =
      map (layered src (bytes_of (sw_authored m)) (sw_len (pr_meta p)) (staged_content base blob (pr_meta p))) [0..<sw_len m]"
  proof -
    have "layered g (W \<union> S) (sw_base_size (pr_meta p)) base i =
        layered src W (sw_len (pr_meta p)) (staged_content base blob (pr_meta p)) i" if "i < sw_len m" for i
      using that past [of i] v(2) g_at [of i]
      by (auto simp: layered_def staged_content_def file_at_map_upt S_def W_def [symmetric] E_def [symmetric])
    then show ?thesis unfolding staged_content_def [of base g m'] authored simple w'(2) W_def [symmetric] by simp
  qed
  assume hole: "\<And>i. i \<notin> bytes_of (sw_authored m) \<Longrightarrow> file_at src i = 0"
  have "length g = sw_len m" using cp w(3) by (simp add: copied_def same_outside_def)
  moreover have "i \<in> bytes_of w' \<or> i < sw_base_size (pr_meta p) \<or> g ! i = 0" if "i < length g" for i
    using g_at [of i] hole [of i] that unfolding w'(2) W_def [symmetric] file_at_def by auto
  moreover have "sw_complete m' = covers_file (authored_ranges w' (sw_len m)) (sw_len m)" using m' by simp
  ultimately show "wf_staged g m'"
    unfolding wf_staged_def authored simple using w'(1) sub ranges(2) by simp
qed

text \<open>A merge that stops has not touched what the newer write authored.\<close>

lemma merge_over_pending_stops:
  assumes "wf_staged src m" and "wf_staged blob (pr_meta p)" and "pr_blob p = Some blob"
    and "merge_over_pending disk m src p = (g, None)"
  shows "staged_content base g m = staged_content base src m"
proof -
  have w: "wf_ivs (sw_authored m)" "bytes_of (sw_authored m) \<subseteq> {..<sw_len m}" "length src = sw_len m"
    and v: "wf_ivs (sw_authored (pr_meta p))" "bytes_of (sw_authored (pr_meta p)) \<subseteq> {..<sw_len (pr_meta p)}"
    using assms(1,2) by (auto simp: wf_staged_def)
  obtain w' where loop: "merge_loop_over disk blob (sw_authored (pr_meta p)) (sw_len (pr_meta p))
        (segments (sw_authored m) 0 (sw_len m)) (src, sw_authored m) = ((g, w'), False)"
    using assms(3,4) of_ranges_wf [OF w(1)] of_ranges_wf [OF v(1)]
    by (auto simp: merge_over_pending_def Let_def split: prod.splits bool.splits)
  from merge_loop_spec [OF segments_tiles0 [OF w(1,2)] w(1) _ v loop] w(3)
  have "file_at g i = file_at src i" if "i \<in> bytes_of (sw_authored m)" for i
    using that by (auto simp: same_outside_def)
  then show ?thesis unfolding staged_content_def by (auto simp: layered_def)
qed

section \<open>A path-based truncate\<close>

lemma copy_chunks_spec:
  assumes "length dst = off" and "off \<le> length blob" and "\<And>i. i < off \<Longrightarrow> file_at dst i = file_at blob i"
  shows "copy_chunks blob off dst = blob"
  using assms
proof (induction blob off dst rule: copy_chunks.induct)
  case (1 blob off dst)
  define chunk where "chunk = take (1024 * 1024) (drop off blob)"
  show ?case
  proof (cases "chunk = []")
    case True
    then have "off = length blob" using "1.prems"(2) by (simp add: chunk_def)
    with "1.prems" have "set_len dst off = blob" by (intro file_eqI) auto
    with True show ?thesis by (subst copy_chunks.simps) (simp add: chunk_def Let_def)
  next
    case False
    have len: "off + length chunk \<le> length blob" using "1.prems"(2) by (simp add: chunk_def)
    have at: "file_at (write_all_at dst off chunk) i = file_at blob i" if "i < off + length chunk" for i
    proof (cases "i < off")
      case False
      then have "chunk ! (i - off) = blob ! i" using that by (simp add: chunk_def)
      then show ?thesis using False that len by (simp add: file_at_def [of blob])
    qed (use "1.prems"(3) [of i] in simp)
    have "copy_chunks blob (off + length chunk) (write_all_at dst off chunk) = blob"
      by (rule "1.IH" [OF chunk_def]) (use False len at "1.prems"(1) in auto)
    with False show ?thesis by (subst copy_chunks.simps) (simp add: chunk_def Let_def)
  qed
qed

lemma copy_pending_for_truncate_eq: "copy_pending_for_truncate blob dst = blob"
  unfolding copy_pending_for_truncate_def by (rule copy_chunks_spec) auto

lemma stage_truncate_fresh:
  assumes "pending u = None" and "length base = bs" and "n \<noteq> bs"
  obtains blob m where "stage_truncate pending u mt bs rv n = Inr (Some (blob, m))"
    and "wf_staged blob m" and "staged_content base blob m = set_len base n" and "sw_len m = n"
proof -
  define blob where "blob = set_len [] n"
  define m where "m = \<lparr>sw_uid = u, sw_len = n, sw_base_size = bs, sw_base_mtime = mt,
     sw_authored = fst (truncate_ranges n bs), sw_complete = snd (truncate_ranges n bs),
     sw_based_on = remote_baseline pending u mt bs rv\<rparr>"
  have "stage_truncate pending u mt bs rv n = Inr (Some (blob, m))"
    using assms by (simp add: stage_truncate_def m_def blob_def)
  moreover have "wf_staged blob m"
    using assms(3)
    by (auto simp: wf_staged_def blob_def m_def truncate_ranges_def wf_ivs_def set_len_def bytes_of_def
        dest: subsetD [of _ _ 0])
  moreover have "staged_content base blob m = set_len base n"
    by (rule file_eqI)
      (use assms in \<open>auto simp: staged_content_def m_def blob_def file_at_map_upt layered_def truncate_ranges_def\<close>)
  moreover have "sw_len m = n" by (simp add: m_def)
  ultimately show ?thesis by (rule that)
qed

lemma stage_truncate_queued:
  assumes "pending u = Some p" and "pr_blob p = Some blob0" and "wf_staged blob0 (pr_meta p)"
    and "sw_complete (pr_meta p)" and "n \<noteq> bs"
  obtains blob m where "stage_truncate pending u mt bs rv n = Inr (Some (blob, m))"
    and "wf_staged blob m" and "staged_content base blob m = set_len blob0 n" and "sw_len m = n"
    and "sw_based_on m = sw_based_on (pr_meta p)"
proof -
  define blob where "blob = set_len blob0 n"
  define m where "m = \<lparr>sw_uid = u, sw_len = n, sw_base_size = sw_len (pr_meta p),
     sw_base_mtime = sw_base_mtime (pr_meta p), sw_authored = (if n = 0 then [] else [(0, n)]),
     sw_complete = True, sw_based_on = sw_based_on (pr_meta p)\<rparr>"
  have st: "stage_truncate pending u mt bs rv n = Inr (Some (blob, m))"
    using assms by (simp add: stage_truncate_def m_def blob_def copy_pending_for_truncate_eq)
  have wf: "wf_staged blob m"
    by (auto simp: wf_staged_def blob_def m_def wf_ivs_def bytes_of_def)
  have "staged_content base blob m = set_len blob0 n"
    using complete_staged_content [OF wf] by (simp add: m_def blob_def)
  moreover have "sw_len m = n" "sw_based_on m = sw_based_on (pr_meta p)" by (simp_all add: m_def)
  ultimately show ?thesis using st wf by (intro that)
qed

end
