(* ===== verification/Staged_Spec.thy ===== *)
theory Staged_Spec
  imports Staged
begin

text \<open>
  What the write path promises to a program: an open handle, the staged write it is released into,
  and the revision the drain uploads all have the bytes a plain file would have after the same
  calls; a truncate by path and the folding of two queued writes keep that; and where \<open>fallocate\<close>
  departs from it.
\<close>

section \<open>The interval set\<close>

text \<open>
  C29. \<open>Intervals\<close> implements a set of byte positions: \<open>add\<close> is union with the range and \<open>clip\<close>
  the intersection with the positions below the length, both keep the vector sorted, merged and
  without empty ranges, and a well-formed vector is the only one with its positions.
\<close>

theorem interval_set_refines_byte_set:
  assumes "wf_ivs w"
  shows "wf_ivs (iv_add w s e) \<and> bytes_of (iv_add w s e) = bytes_of w \<union> {s..<e} \<and>
         wf_ivs (iv_clip w n) \<and> bytes_of (iv_clip w n) = bytes_of w \<inter> {..<n} \<and>
         (\<forall>v. wf_ivs v \<and> bytes_of v = bytes_of (iv_add w s e) \<longrightarrow> v = iv_add w s e)"
proof (intro conjI)
  show "wf_ivs (iv_add w s e)" "wf_ivs (iv_clip w n)" using assms by simp_all
  show "bytes_of (iv_add w s e) = bytes_of w \<union> {s..<e}" using assms by (rule bytes_iv_add)
  show "bytes_of (iv_clip w n) = bytes_of w \<inter> {..<n}" by (rule bytes_iv_clip)
  show "\<forall>v. wf_ivs v \<and> bytes_of v = bytes_of (iv_add w s e) \<longrightarrow> v = iv_add w s e"
    using wf_ivs_unique [OF _ wf_iv_add [OF assms]] by blast
qed

theorem interval_set_refines_byte_set_witness:
  "wf_ivs [(0, 4), (8, 12)] \<and> bytes_of (iv_add [(0, 4), (8, 12)] 4 8) = bytes_of [(0, 4), (8, 12)] \<union> {4..<8} \<and>
   iv_add [(0, 4), (8, 12)] 4 8 = [(0, 12)]"
proof -
  have wf: "wf_ivs [(0, 4), (8, 12)]" by (simp add: wf_ivs_def)
  have "iv_add [(0, 4), (8, 12)] 4 8 = [(0, 12)]" by code_simp
  with wf interval_set_refines_byte_set [OF wf, of 4 8 0] show ?thesis by blast
qed

text \<open>
  \<open>segments\<close> cuts a range into contiguous, non-empty pieces, each wholly authored or wholly
  not, whatever the function read off the pieces.
\<close>

theorem segments_tile_the_range:
  assumes "wf_ivs w" and "start < stop"
    and "\<And>s e f. (s, e, f) \<in> set (segments w start stop) \<Longrightarrow> s < e \<Longrightarrow>
           (if f then {s..<e} \<subseteq> bytes_of w else {s..<e} \<inter> bytes_of w = {}) \<Longrightarrow> out (s, e, f) = map g [s..<e]"
  shows "concat (map out (segments w start stop)) = map g [start..<stop]"
  by (rule tiles_concat [OF segments_tiles [OF assms(1,2)]])
    (use assms(3) tiles_pieces [OF segments_tiles [OF assms(1,2)]] in blast)

theorem segments_tile_the_range_witness:
  "segments [(2, 4)] 1 6 = [(1, 2, False), (2, 4, True), (4, 6, False)] \<and>
   concat (map (\<lambda>(s, e, f). map (\<lambda>i. i \<in> {2..<4}) [s..<e]) (segments [(2, 4)] 1 6)) = map (\<lambda>i. i \<in> {2..<4}) [1..<6]"
proof
  show "segments [(2, 4)] 1 6 = [(1, 2, False), (2, 4, True), (4, 6, False)]" by code_simp
  show "concat (map (\<lambda>(s, e, f). map (\<lambda>i. i \<in> {2..<4}) [s..<e]) (segments [(2, 4)] 1 6)) = map (\<lambda>i. i \<in> {2..<4}) [1..<6]"
    by (rule segments_tile_the_range) (simp_all add: wf_ivs_def)
qed

section \<open>The open handle\<close>

lemma handle_call_keeps:
  "wh_base_size (handle_call h c) = wh_base_size h \<and> wh_uid (handle_call h c) = wh_uid h"
  by (cases c) (simp_all add: call_on_def handle_write_def handle_resize_def record_write_def Let_def)

lemma handle_calls_keep:
  "wh_base_size (foldl handle_call h cs) = wh_base_size h \<and> wh_uid (foldl handle_call h cs) = wh_uid h"
  by (induction cs arbitrary: h) (simp_all add: handle_call_keeps)

text \<open>The handle a program has after opening a file of bytes \<open>base\<close> and some calls.\<close>

definition after_calls :: "byte list \<Rightarrow> uid \<Rightarrow> file_call list \<Rightarrow> write_handle" where
  "after_calls base u cs = foldl handle_call (wh_opened 2 u ''scratch'' (length base) 0 None None) cs"

lemma after_calls_view:
  assumes "list_all nonempty_call cs"
  shows "wh_readable (after_calls base u cs)" and "view base (after_calls base u cs) = foldl plain_call base cs"
    and "wh_base_size (after_calls base u cs) = length base" and "wh_uid (after_calls base u cs) = u"
  using handle.run_simulates [OF conjunct1 [OF wh_opened_fresh [OF refl, of 2 u "''scratch''" base 0 None]] assms, of base]
    wh_opened_fresh [OF refl, of 2 u "''scratch''" base 0 None]
  by (simp_all add: after_calls_def handle_calls_keep) (simp_all add: wh_opened_def)

text \<open>
  C4. A file opened for writing behaves as a plain file: after any sequence of writes and resizes,
  a read of any range returns the bytes the same calls leave in a plain file that started as the
  base, short at the end of the file, whenever the base can be read.
\<close>

theorem open_handle_reads_as_a_plain_file:
  assumes "list_all nonempty_call cs" and "h = after_calls base u cs" and "wh_len h \<le> U64_MAX"
    and "answers base (length base) cb" and "always_answers (length base) cb"
  shows "assemble_open_read (wh_file h) (wh_len h) (wh_base_size h) (wh_written h) off n cb =
           Inr (Some (take n (drop off (foldl plain_call base cs))))"
proof -
  note v = after_calls_view [OF assms(1), of base u, folded assms(2)]
  have w: "wf_ivs (wh_written h)" "bytes_of (wh_written h) \<subseteq> {..<length (wh_file h)}"
    using v(1) by (simp_all add: wh_readable_def wh_inv_def)
  have "map (layered (wh_file h) (bytes_of (wh_written h)) (length base) base) [0..<wh_len h] = foldl plain_call base cs"
    using view_layered [of base h] v(2,3) by simp
  then show ?thesis
    using layered_read [OF w assms(4,3), of off n] assms(5) v(3) by simp
qed

theorem open_handle_reads_as_a_plain_file_witness:
  "assemble_open_read (wh_file (after_calls [1, 2, 3] ''v~f'' [Ftruncate 1, Pwrite 3 [9]])) 4 3
     (wh_written (after_calls [1, 2, 3] ''v~f'' [Ftruncate 1, Pwrite 3 [9]])) 0 8
     (\<lambda>s n. Inr (Some (map (file_at [1, 2, 3]) [s..<s + n]))) = Inr (Some [1, 0, 0, 9])"
proof -
  let ?cs = "[Ftruncate 1, Pwrite 3 [9]]" and ?cb = "\<lambda>s n. Inr (Some (map (file_at [1, 2, 3]) [s..<s + n]))"
  let ?h = "after_calls [1, 2, 3] ''v~f'' ?cs"
  have ok: "list_all nonempty_call ?cs" by (simp add: nonempty_call_def)
  have len: "wh_len ?h = 4" "wh_base_size ?h = 3"
    by (simp_all add: after_calls_def wh_opened_def call_on_def handle_write_def handle_resize_def record_write_def Let_def)
  have cb: "answers [1, 2, 3] (length [1, 2, 3 :: byte]) ?cb" "always_answers (length [1, 2, 3 :: byte]) ?cb"
    by (simp_all add: answers_def always_answers_def)
  have "wh_len ?h \<le> U64_MAX" unfolding len by (simp add: U64_MAX_def)
  from open_handle_reads_as_a_plain_file [OF ok refl this cb, of 0 8]
  show ?thesis unfolding len by (simp add: set_len_def write_all_at_def numeral_2_eq_2)
qed

section \<open>The released write\<close>

text \<open>
  C25. What a program wrote is what is read back and what is uploaded: for any sequence of calls on
  a file of the server, the blob and the sidecar that \<open>queue_revision\<close> makes at release answer
  every read with the bytes of a plain file after the same calls, the gap fill before the upload
  leaves exactly those bytes in the blob, and a blob marked complete holds them already. It does
  not matter which parts the cache could fill nor which of its writes failed.
\<close>

theorem released_write_is_what_was_written:
  assumes "list_all nonempty_call cs" and "parse_node_uid u \<noteq> None"
    and "stage_handle disk cached pending (after_calls base u cs) = (blob, m)" and "sw_len m \<le> U64_MAX"
    and "cache_right base (length base) cached"
    and "remote_right base (length base) remote" and "online (length base) remote"
  shows "read_pending remote \<lparr>pr_path = path, pr_blob = Some blob, pr_meta = m\<rparr> off n =
           Inr (take n (drop off (foldl plain_call base cs))) \<and>
         fill_gaps (\<lambda>_. None) True remote blob (sw_len m) (sw_base_size m) (of_ranges (sw_authored m)) =
           (foldl plain_call base cs, None) \<and>
         (sw_complete m \<longrightarrow> blob = foldl plain_call base cs)"
proof -
  note v = after_calls_view [OF assms(1), of base u]
  have inv: "wh_inv (after_calls base u cs)" using v(1) by (simp add: wh_readable_def)
  have cr: "cache_right base (wh_base_size (after_calls base u cs)) cached" using assms(5) v(3) by simp
  obtain w where m: "sw_base_size m = length base" "sw_uid m = u"
    using stage_handle_fill [OF inv cr assms(3)] v(3,4) by metis
  note st = stage_handle_spec [OF inv cr assms(3)]
  have on: "online (sw_base_size m) remote" "remote_right base (sw_base_size m) remote"
    using assms(6,7) m by simp_all
  obtain g r where g: "fill_gaps (\<lambda>_. None) True remote blob (sw_len m) (sw_base_size m) (of_ranges (sw_authored m)) = (g, r)"
    by fastforce
  then have "r = None" using fill_staged_succeeds [OF on(1), of blob "of_ranges (sw_authored m)"] by simp
  with fill_staged(1) [OF st(1) on(2) g] st(2) v(2) have "g = foldl plain_call base cs" by simp
  moreover have "read_pending remote \<lparr>pr_path = path, pr_blob = Some blob, pr_meta = m\<rparr> off n =
      Inr (take n (drop off (foldl plain_call base cs)))"
    using read_pending_spec [OF st(1) _ _ _ on(2) assms(4), of "\<lparr>pr_path = path, pr_blob = Some blob, pr_meta = m\<rparr>"]
      assms(2) m(2) on(1) st(2) v(2) by auto
  moreover have "sw_complete m \<longrightarrow> blob = foldl plain_call base cs"
    using complete_staged_content [OF st(1)] st(2) v(2) by metis
  ultimately show ?thesis using g \<open>r = None\<close> by simp
qed

definition demo_calls :: "file_call list" where
  "demo_calls = [Ftruncate 2, Pwrite 4 [9]]"

definition demo_staged :: "byte list \<times> staged_write" where
  "demo_staged = stage_handle (\<lambda>_. None) (\<lambda>_ _. None) (\<lambda>_. None) (after_calls [1, 2, 3] ''v~f'' demo_calls)"

lemma demo_staged_eq:
  "demo_staged = ([0, 0, 0, 0, 9], \<lparr>sw_uid = ''v~f'', sw_len = 5, sw_base_size = 3, sw_base_mtime = 0,
     sw_authored = [(2, 5)], sw_complete = False,
     sw_based_on = Some \<lparr>bl_mtime = 0, bl_size = 3, bl_hash = None, bl_revision_id = None\<rparr>\<rparr>)"
proof -
  have h: "after_calls [1, 2, 3] ''v~f'' demo_calls =
      \<lparr>wh_ino = 2, wh_uid = ''v~f'', wh_file = [0, 0, 0, 0, 9], wh_path = ''scratch'', wh_written = [(2, 5)],
       wh_len = 5, wh_base_size = 3, wh_base_mtime = 0, wh_base_revision_id = None, wh_dirty = True, wh_open_count = 0\<rparr>"
    by code_simp
  show ?thesis
    by (simp add: demo_staged_def stage_handle_def h is_local_uid_str_def LOCAL_VOLUME_def fill_gaps_cached_def
        segments_def seg_tail_def authored_ranges_def covers_file_def remote_baseline_def set_len_def Let_def)
qed

theorem released_write_is_what_was_written_witness:
  "read_pending (\<lambda>s n. Inr (map (file_at [1, 2, 3]) [s..<s + n]))
     \<lparr>pr_path = ''b'', pr_blob = Some (fst demo_staged), pr_meta = snd demo_staged\<rparr> 1 3 = Inr [2, 0, 0]"
proof -
  let ?remote = "\<lambda>s n. Inr (map (file_at [1, 2, 3]) [s..<s + n])"
  have cs: "list_all nonempty_call demo_calls" by (simp add: demo_calls_def nonempty_call_def)
  have "read_pending ?remote \<lparr>pr_path = ''b'', pr_blob = Some (fst demo_staged), pr_meta = snd demo_staged\<rparr> 1 3 =
      Inr (take 3 (drop 1 (foldl plain_call [1, 2, 3] demo_calls)))"
  proof (rule released_write_is_what_was_written [OF cs, THEN conjunct1])
    show "stage_handle (\<lambda>_. None) (\<lambda>_ _. None) (\<lambda>_. None) (after_calls [1, 2, 3] ''v~f'' demo_calls) =
        (fst demo_staged, snd demo_staged)"
      by (simp add: demo_staged_def)
  qed (simp_all add: parse_node_uid_def demo_staged_eq U64_MAX_def cache_right_def remote_right_def online_def)
  then show ?thesis by (simp add: demo_calls_def set_len_def write_all_at_def numeral_2_eq_2)
qed


definition demo_newer :: staged_write where
  "demo_newer = \<lparr>sw_uid = ''v~f'', sw_len = 4, sw_base_size = 3, sw_base_mtime = 7, sw_authored = [(3, 4)],
     sw_complete = False, sw_based_on = None\<rparr>"

definition demo_older :: pending_revision where
  "demo_older = \<lparr>pr_path = ''b'', pr_blob = Some [0, 8, 0], pr_meta = \<lparr>sw_uid = ''v~f'', sw_len = 3,
     sw_base_size = 3, sw_base_mtime = 5, sw_authored = [(1, 2)], sw_complete = False, sw_based_on = None\<rparr>\<rparr>"


text \<open>
  A truncate by path queues what \<open>truncate(2)\<close> means: over the server's revision, or over a
  complete revision still queued, the staged write stands for the file cut or extended with zeros,
  it is marked complete only when the blob alone is that content, and an incomplete queued revision
  is refused rather than cut.
\<close>

theorem path_truncate_stages_the_cut_file:
  assumes "n \<noteq> bs" and "pending u = None \<Longrightarrow> length base = bs"
    and "\<And>p. pending u = Some p \<Longrightarrow> (\<exists>old. pr_blob p = Some old \<and> wf_staged old (pr_meta p))"
  shows "case stage_truncate pending u mt bs rv n of
      Inl er \<Rightarrow> er = EIO \<and> (\<exists>p. pending u = Some p \<and> \<not> sw_complete (pr_meta p))
    | Inr None \<Rightarrow> False
    | Inr (Some (blob, m)) \<Rightarrow>
        wf_staged blob m \<and> sw_len m = n \<and>
        staged_content base blob m =
          set_len (case pending u of None \<Rightarrow> base | Some p \<Rightarrow> the (pr_blob p)) n \<and>
        (sw_complete m \<longrightarrow> blob = staged_content base blob m)"
proof (cases "pending u")
  case None
  obtain blob m where "stage_truncate pending u mt bs rv n = Inr (Some (blob, m))" "wf_staged blob m"
      "staged_content base blob m = set_len base n" "sw_len m = n"
    using stage_truncate_fresh [of pending u base bs n mt rv] None assms(1,2) by metis
  with None show ?thesis by simp (metis complete_staged_content)
next
  case (Some p)
  obtain old where old: "pr_blob p = Some old" "wf_staged old (pr_meta p)" using assms(3) [OF Some] by blast
  show ?thesis
  proof (cases "sw_complete (pr_meta p)")
    case True
    obtain blob m where "stage_truncate pending u mt bs rv n = Inr (Some (blob, m))" "wf_staged blob m"
      "staged_content base blob m = set_len old n" "sw_len m = n"
      using stage_truncate_queued [of pending u p old n bs mt rv base] Some old True assms(1) by metis
    with Some old show ?thesis by simp (metis complete_staged_content)
  next
    case False
    with Some assms(1) show ?thesis by (simp add: stage_truncate_def)
  qed
qed

theorem path_truncate_stages_the_cut_file_witness:
  "\<exists>blob m. stage_truncate (\<lambda>_. None) ''v~f'' 0 3 None 5 = Inr (Some (blob, m)) \<and>
     staged_content [1, 2, 3] blob m = [1, 2, 3, 0, 0]"
proof -
  note cut = path_truncate_stages_the_cut_file
    [where pending = "\<lambda>_. None" and u = "''v~f''" and n = 5 and bs = 3 and base = "[1, 2, 3]" and mt = 0 and rv = None]
  have "set_len [1, 2, 3] 5 = [1, 2, 3, 0, 0]" by (simp add: set_len_def numeral_2_eq_2)
  with cut show ?thesis by (auto split: sum.splits option.splits)
qed

section \<open>\<open>fallocate\<close>\<close>



text \<open>
  A hole punched where nothing was written yet cannot be read back: the range counts as
  authored, but the scratch file does not reach it, so the exact read fails with \<open>EIO\<close> until the
  file is closed, while the same read before the call returned the base.
\<close>

theorem punched_hole_fails_to_read:
  assumes "wh_inv h" and "length (wh_file h) \<le> off" and "off < min stop (wh_len h)" and "0 < n"
    and "wh_len h \<le> U64_MAX"
  shows "assemble_open_read (wh_file (handle_falloc Punch off stop h)) (wh_len (handle_falloc Punch off stop h))
           (wh_base_size h) (wh_written (handle_falloc Punch off stop h)) off n cb = Inl EIO"
proof -
  let ?h = "handle_falloc Punch off stop h"
  have wf: "wf_ivs (wh_written h)" using assms(1) by (simp add: wh_inv_def)
  note f = handle_falloc_fields [OF wf, of Punch off stop]
  have len: "length (wh_file ?h) \<le> off" "wh_len ?h = wh_len h" using f(2,4) assms(2) by (simp_all add: plain_falloc_def)
  define b where "b = min (saturating_add off n) (wh_len h)"
  have b: "off < b" using assms(3-5) by (auto simp: b_def saturating_add_def)
  have "off \<in> bytes_of (wh_written ?h)" using f(5) assms(3) by auto
  moreover have t: "tiles (bytes_of (wh_written ?h)) off b (segments (wh_written ?h) off b)"
    using segments_tiles [OF f(1) b] .
  ultimately obtain e r where "segments (wh_written ?h) off b = (off, e, True) # r" "off < e"
    using b by (cases "segments (wh_written ?h) off b") (force split: if_splits)+
  then show ?thesis using assms(3,4) len
    by (auto simp: assemble_open_read_def b_def [symmetric] read_exact_at_def)
qed

theorem punched_hole_fails_to_read_witness:
  "assemble_open_read (wh_file (handle_falloc Punch 1 3 (after_calls [1, 2, 3, 4] ''v~f'' []))) 4 4
     (wh_written (handle_falloc Punch 1 3 (after_calls [1, 2, 3, 4] ''v~f'' []))) 1 2
     (\<lambda>s n. Inr (Some (map (file_at [1, 2, 3, 4]) [s..<s + n]))) = Inl EIO"
proof -
  let ?h = "after_calls [1, 2, 3, 4] ''v~f'' []"
  have inv: "wh_inv ?h" using after_calls_view(1) [of "[]"] by (simp add: wh_readable_def)
  have h: "wh_len ?h = 4" "wh_base_size ?h = 4" "length (wh_file ?h) \<le> 1" "wh_len (handle_falloc Punch 1 3 ?h) = 4"
    by code_simp+
  show ?thesis
    using punched_hole_fails_to_read [OF inv h(3), of 3 2 "\<lambda>s n. Inr (Some (map (file_at [1, 2, 3, 4]) [s..<s + n]))"] h
    by (simp add: U64_MAX_def)
qed

end
