(* ===== verification/Node_Table.thy ===== *)
theory Node_Table
  imports Access "HOL-Library.Product_Lexorder" "HOL-Library.List_Lexorder" "HOL-Library.Char_ord"
begin

text \<open>
  The operations of \<open>crates/pdfs-core/src/db/nodes.rs\<close> beside write-through: the local ids given to
  listed nodes and to nodes made on this machine, reading a folder's children back, what a queued
  change does to a listing, deleting a row, and the publication of shared listings, which withdraws
  what the owner took back (\<open>publish_shared_roots\<close>, \<open>publish_foreign_children\<close>) by tombstones.
\<close>

section \<open>Local ids\<close>

definition lid_of :: "db \<Rightarrow> uid \<Rightarrow> lid option" where
  "lid_of d u = node_lid d u"

definition uid_of_lid :: "db \<Rightarrow> lid \<Rightarrow> uid option" where
  "uid_of_lid d l = map_option nr_uid (row_by_lid d l)"

text \<open>One turn of the loop of \<open>lids_for\<close>: the row the uid has, or a stub without a stored node.\<close>

definition stub_row :: "db \<Rightarrow> node \<Rightarrow> node_row" where
  "stub_row d n = (fresh_row (nodes_seq d + 1) (node_uid n))\<lparr>nr_parent_uid := parent_uid n, nr_name := node_name n,
     nr_is_dir := is_folder n, nr_mtime := modification_time n, nr_trashed := trashed n,
     nr_parent_lid := Option.bind (parent_uid n) (node_lid d)\<rparr>"

definition lid_for :: "db \<Rightarrow> node \<Rightarrow> lid \<times> db" where
  "lid_for d n = (case row_by_uid d (node_uid n) of
      Some r \<Rightarrow> (nr_lid r, d)
    | None \<Rightarrow> (nodes_seq d + 1,
        adopt_children_tx (d\<lparr>nodes := nodes d @ [stub_row d n], nodes_seq := nodes_seq d + 1\<rparr>)
          (node_uid n) (nodes_seq d + 1)))"

fun lids_for :: "db \<Rightarrow> node list \<Rightarrow> lid list \<times> db" where
  "lids_for d [] = ([], d)"
| "lids_for d (n # ns) = (let (l, d1) = lid_for d n; (ls, d2) = lids_for d1 ns in (l # ls, d2))"

definition add_local_row :: "db \<Rightarrow> uid \<Rightarrow> string \<Rightarrow> bool \<Rightarrow> int \<Rightarrow> lid \<times> db" where
  "add_local_row d parent name is_dir mtime =
     (let l = nodes_seq d + 1;
          plid = (case local_lid parent of Some p \<Rightarrow> Some p | None \<Rightarrow> map_option nr_lid (row_by_uid d parent));
          r = (fresh_row l (local_uid l))\<lparr>nr_parent_uid := Some parent, nr_name := name, nr_is_dir := is_dir,
                 nr_mtime := mtime, nr_parent_lid := plid\<rparr>
      in (l, d\<lparr>nodes := nodes d @ [r], nodes_seq := l\<rparr>))"

section \<open>Deleting and listing\<close>

definition delete_node :: "db \<Rightarrow> uid \<Rightarrow> db" where
  "delete_node d u =
     (let d1 = d\<lparr>nodes := delete_where (\<lambda>r. nr_uid r = u) (nodes d)\<rparr>
      in case row_by_uid d u of
           None \<Rightarrow> d1
         | Some r \<Rightarrow> d1\<lparr>nodes_fts := delete_where (\<lambda>f. fst f = nr_lid r) (nodes_fts d)\<rparr>)"

definition set_listed :: "db \<Rightarrow> uid \<Rightarrow> bool \<Rightarrow> db" where
  "set_listed d u b = d\<lparr>nodes := update_where (row_key u) (\<lambda>r. r\<lparr>nr_listed := b\<rparr>) (nodes d)\<rparr>"

definition shown :: "node_row \<Rightarrow> bool" where
  "shown r = (nr_node_json r \<noteq> None \<and> \<not> nr_trashed r)"

definition has_children :: "db \<Rightarrow> uid \<Rightarrow> bool" where
  "has_children d parent = (filter (\<lambda>r. parent_key d parent r \<and> shown r) (nodes d) \<noteq> [])"

definition nodes_now :: "db \<Rightarrow> node_row list \<Rightarrow> node list" where
  "nodes_now d rows = List.map_filter (node_now d) rows"

definition known_children :: "db \<Rightarrow> uid \<Rightarrow> node list" where
  "known_children d parent = nodes_now d (filter (\<lambda>r. parent_key d parent r \<and> shown r) (nodes d))"

definition children_if_listed :: "db \<Rightarrow> uid \<Rightarrow> node list option" where
  "children_if_listed d parent = (case find (row_key parent) (nodes d) of
      None \<Rightarrow> None
    | Some r \<Rightarrow> (if nr_listed r then Some (known_children d parent) else None))"

definition visible_children :: "db \<Rightarrow> uid \<Rightarrow> node list" where
  "visible_children d parent =
     nodes_now d (sort_key (\<lambda>r. (nr_name r, nr_uid r)) (filter (\<lambda>r. parent_key d parent r \<and> shown r) (nodes d)))"

definition queued_children :: "db \<Rightarrow> uid \<Rightarrow> node list \<times> uid list" where
  "queued_children d parent =
     (let names = (\<lambda>p r. po_lid p = Some (nr_lid r) \<or> po_uid p = nr_uid r);
          here = filter (\<lambda>r. parent_key d parent r \<and> shown r \<and>
                   list_ex (\<lambda>p. names p r \<and> po_kind p \<in> {OP_CREATE, OP_MKDIR, OP_RENAME}) (pending_op d)) (nodes d);
          gone = concat (map (\<lambda>p. if po_kind p = OP_RENAME
                   then map nr_uid (filter (\<lambda>r. names p r \<and> \<not> parent_key d parent r) (nodes d)) else [])
                   (pending_op d))
      in (nodes_now d here, remdups gone))"

text \<open>\<open>StoredNode\<close>: every stored node with its flag and local id.\<close>

definition load_all :: "db \<Rightarrow> (node \<times> bool \<times> lid) list" where
  "load_all d = List.map_filter (\<lambda>r. map_option (\<lambda>n. (n, nr_listed r, nr_lid r)) (node_now d r)) (nodes d)"

section \<open>Paths\<close>

text \<open>
  The walk up by local id, at most \<open>k\<close> steps past the first row: \<open>MAX_PATH_DEPTH\<close> of them for a
  stored path, 1024 for a path below a given folder.
\<close>

definition MAX_PATH_DEPTH :: nat where
  "MAX_PATH_DEPTH = 256"

fun walk_up :: "db \<Rightarrow> nat \<Rightarrow> node_row \<Rightarrow> node_row list" where
  "walk_up d 0 r = [r]"
| "walk_up d (Suc k) r = r # (case parent_row d r of None \<Rightarrow> [] | Some p \<Rightarrow> walk_up d k p)"

fun join_slash :: "string list \<Rightarrow> string" where
  "join_slash [] = []"
| "join_slash [s] = s"
| "join_slash (s # t # ts) = s @ ''/'' @ join_slash (t # ts)"

definition walk_path_of :: "db \<Rightarrow> uid \<Rightarrow> string" where
  "walk_path_of d u = (case row_by_uid d u of
      None \<Rightarrow> []
    | Some r \<Rightarrow> join_slash (map nr_name (filter (\<lambda>a. nr_parent_uid a \<noteq> None) (rev (walk_up d MAX_PATH_DEPTH r)))))"

definition path_of :: "db \<Rightarrow> uid \<Rightarrow> string" where
  "path_of d u = (case Option.bind (row_by_uid d u) nr_path of Some p \<Rightarrow> p | None \<Rightarrow> walk_path_of d u)"

definition node_path :: "db \<Rightarrow> uid \<Rightarrow> string option" where
  "node_path d u = (if list_ex (\<lambda>r. nr_uid r = u \<and> nr_node_json r \<noteq> None) (nodes d) then Some (path_of d u) else None)"

definition path_relative_to :: "db \<Rightarrow> uid \<Rightarrow> uid \<Rightarrow> string option" where
  "path_relative_to d anc u = (case row_by_uid d u of
      None \<Rightarrow> None
    | Some r \<Rightarrow> (let chain = walk_up d 1024 r in
        if list_ex (\<lambda>a. nr_uid a = anc) chain
        then Some (join_slash (rev (map nr_name (takeWhile (\<lambda>a. nr_uid a \<noteq> anc) chain)))) else None))"

section \<open>Shared listings\<close>

definition direct_child_uids_tx :: "db \<Rightarrow> uid \<Rightarrow> uid list" where
  "direct_child_uids_tx d parent = map nr_uid (filter (parent_key d parent) (nodes d))"

definition subtree_step :: "db \<Rightarrow> lid \<Rightarrow> lid list" where
  "subtree_step d l = map nr_lid (filter (\<lambda>n. nr_parent_lid n = Some l) (nodes d))"

definition subtree_lids :: "db \<Rightarrow> uid \<Rightarrow> lid list" where
  "subtree_lids d root =
     cte_union (subtree_step d) (length (nodes d)) (map nr_lid (filter (\<lambda>r. nr_uid r = root) (nodes d)))"

text \<open>
  Each row of the subtree loses its place in every listing and in the search index. The statement
  of the loop finds a row by its uid, the subtree by local id; a row has one of each.
\<close>

definition tombstone_row :: "node_row \<Rightarrow> node_row" where
  "tombstone_row r = r\<lparr>nr_trashed := True, nr_listed := False,
     nr_node_json := map_option (\<lambda>n. n\<lparr>trashed := True\<rparr>) (nr_node_json r)\<rparr>"

definition tombstone_subtree_tx :: "db \<Rightarrow> uid \<Rightarrow> db" where
  "tombstone_subtree_tx d root =
     (let ls = subtree_lids d root
      in d\<lparr>nodes := update_where (\<lambda>r. nr_lid r \<in> set ls) tombstone_row (nodes d),
           nodes_fts := delete_where (\<lambda>f. fst f \<in> set ls) (nodes_fts d)\<rparr>)"

definition mark_listed :: "db \<Rightarrow> uid \<Rightarrow> db" where
  "mark_listed d u = d\<lparr>nodes := update_where (\<lambda>r. nr_uid r = u) (\<lambda>r. r\<lparr>nr_listed := True\<rparr>) (nodes d)\<rparr>"

definition tombstone_foreign_subtree :: "db \<Rightarrow> uid \<Rightarrow> db" where
  "tombstone_foreign_subtree d u = set_share_access (tombstone_subtree_tx d u) u Viewer"

fun publish_nodes :: "uid list \<Rightarrow> node list \<Rightarrow> db \<Rightarrow> db option" where
  "publish_nodes present [] d = Some d"
| "publish_nodes present (n # ns) d =
     (if node_uid n \<in> set present then Option.bind (upsert_node_tx d n) (publish_nodes present ns)
      else publish_nodes present ns d)"

definition publish_foreign_children :: "db \<Rightarrow> uid \<Rightarrow> uid list \<Rightarrow> node list \<Rightarrow> (uid list \<times> db) option" where
  "publish_foreign_children d parent accepted materialized =
     (let removed = filter (\<lambda>u. u \<notin> set accepted) (direct_child_uids_tx d parent)
      in map_option (\<lambda>d1. (List.map_filter parse_node_uid removed,
             mark_listed (fold (\<lambda>u e. tombstone_subtree_tx e u) removed d1) parent))
           (publish_nodes accepted materialized d))"

fun publish_roots :: "uid list \<Rightarrow> (node \<times> access) list \<Rightarrow> db \<Rightarrow> db option" where
  "publish_roots present [] d = Some d"
| "publish_roots present ((n, a) # rs) d =
     (if node_uid n \<in> set present
      then Option.bind (upsert_node_tx d n) (\<lambda>d1. publish_roots present rs (set_share_access d1 (node_uid n) a))
      else publish_roots present rs d)"

definition publish_shared_roots :: "db \<Rightarrow> uid \<Rightarrow> uid list \<Rightarrow> (node \<times> access) list \<Rightarrow> (uid list \<times> db) option" where
  "publish_shared_roots d parent accepted roots =
     (let removed = filter (\<lambda>u. u \<notin> set accepted) (direct_child_uids_tx d parent);
          unseen = filter (\<lambda>u. u \<notin> (node_uid \<circ> fst) ` set roots) accepted
      in map_option (\<lambda>d1.
           let d2 = fold (\<lambda>u e. set_share_access e u Viewer) unseen d1;
               d3 = fold (\<lambda>u e. set_share_access (tombstone_subtree_tx e u) u Viewer) removed d2
           in (List.map_filter parse_node_uid removed, mark_listed d3 parent))
         (publish_roots accepted roots d))"

text \<open>
  \<open>publish_virtual_root\<close>: the node, its Viewer authority and the pinned name in one transaction,
  and nothing at all when they are already there.
\<close>

definition publish_virtual_root :: "db \<Rightarrow> string \<Rightarrow> node \<Rightarrow> (bool \<times> db) option" where
  "publish_virtual_root d key n =
     (let unchanged = (case row_by_uid d (node_uid n) of
            None \<Rightarrow> False
          | Some r \<Rightarrow> nr_parent_uid r = parent_uid n \<and> nr_name r = node_name n \<and> nr_is_dir r \<and>
                      nr_trashed r = trashed n) \<and>
          map_of (share_access_tbl d) (node_uid n) = Some (as_db_str Viewer) \<and>
          map_of (sync_state d) key \<noteq> None
      in if unchanged then Some (False, d)
         else map_option (\<lambda>d1. (True, if map_of (sync_state d1) key = None
                                     then d1\<lparr>sync_state := sync_state d1 @ [(key, node_name n)]\<rparr> else d1))
                (upsert_node_tx (set_share_access d (node_uid n) Viewer) n))"

section \<open>Local ids are given once\<close>

text \<open>What every statement here keeps: each row's local id and uid, and the sequence.\<close>

definition row_ids :: "db \<Rightarrow> (lid \<times> uid) list" where
  "row_ids d = map (\<lambda>r. (nr_lid r, nr_uid r)) (nodes d)"

lemma row_ids_update: "(\<And>r. nr_lid (f r) = nr_lid r \<and> nr_uid (f r) = nr_uid r) \<Longrightarrow>
    map (\<lambda>r. (nr_lid r, nr_uid r)) (update_where P f rows) = map (\<lambda>r. (nr_lid r, nr_uid r)) rows"
  by (rule map_update_where_same) simp

lemma wf_nodes_iff:
  "wf_nodes d \<longleftrightarrow> sorted_wrt (<) (map fst (row_ids d)) \<and> (\<forall>p \<in> set (row_ids d). fst p \<le> nodes_seq d) \<and>
     distinct (map snd (row_ids d))"
  by (simp add: wf_nodes_def row_ids_def comp_def)

lemma row_by_uid_ids: "row_by_uid d u = None \<longleftrightarrow> u \<notin> snd ` set (row_ids d)"
  by (force simp: row_by_uid_def row_ids_def find_None_iff)

lemma adopt_children_ids [simp]: "row_ids (adopt_children_tx d u l) = row_ids d"
  "nodes_seq (adopt_children_tx d u l) = nodes_seq d"
  by (simp_all add: adopt_children_tx_def row_ids_def row_ids_update)

lemma lid_for_ids:
  "row_ids (snd (lid_for d n)) = row_ids d @ (if row_by_uid d (node_uid n) = None then [(nodes_seq d + 1, node_uid n)] else [])"
  "nodes_seq (snd (lid_for d n)) = nodes_seq d + (if row_by_uid d (node_uid n) = None then 1 else 0)"
  by (simp_all add: lid_for_def stub_row_def fresh_row_def split: option.split) (simp_all add: row_ids_def)

lemma lid_for_wf: "wf_nodes d \<Longrightarrow> wf_nodes (snd (lid_for d n))"
  by (auto simp: wf_nodes_iff lid_for_ids sorted_wrt_append row_by_uid_ids split: if_splits)

lemma lid_for_row:
  assumes "wf_nodes d"
  shows "(fst (lid_for d n), node_uid n) \<in> set (row_ids (snd (lid_for d n)))"
proof (cases "row_by_uid d (node_uid n)")
  case (Some r)
  then show ?thesis using row_by_uid_Some [OF Some] by (auto simp: lid_for_def row_ids_def)
qed (use lid_for_ids(1) [of d n] in \<open>simp add: lid_for_def\<close>)

lemma lids_for_spec:
  assumes "wf_nodes d"
  shows "wf_nodes (snd (lids_for d ns)) \<and> set (row_ids d) \<subseteq> set (row_ids (snd (lids_for d ns))) \<and>
         length (fst (lids_for d ns)) = length ns \<and>
         set (zip (fst (lids_for d ns)) (map node_uid ns)) \<subseteq> set (row_ids (snd (lids_for d ns)))"
  using assms
proof (induction ns arbitrary: d)
  case (Cons n ns)
  obtain l d1 where one: "lid_for d n = (l, d1)" by (cases "lid_for d n")
  obtain ls d2 where rest: "lids_for d1 ns = (ls, d2)" by (cases "lids_for d1 ns")
  have d1: "wf_nodes d1" "set (row_ids d) \<subseteq> set (row_ids d1)" "(l, node_uid n) \<in> set (row_ids d1)"
    using lid_for_wf [OF Cons.prems, of n] lid_for_ids(1) [of d n] lid_for_row [OF Cons.prems, of n] one by auto
  with Cons.IH [OF d1(1)] one rest show ?case by auto
qed simp

lemma add_local_row_ids:
  "row_ids (snd (add_local_row d parent name is_dir mtime)) = row_ids d @ [(nodes_seq d + 1, local_uid (nodes_seq d + 1))]"
  "nodes_seq (snd (add_local_row d parent name is_dir mtime)) = nodes_seq d + 1"
  by (simp_all add: add_local_row_def Let_def row_ids_def fresh_row_def)

lemma add_local_row_uid:
  assumes "wf_nodes d"
  shows "uid_of_lid (snd (add_local_row d parent name is_dir mtime)) (fst (add_local_row d parent name is_dir mtime)) =
         Some (local_uid (nodes_seq d + 1))"
proof -
  have "find (\<lambda>r. nr_lid r = nodes_seq d + 1) (nodes d) = None"
    using assms by (fastforce simp: wf_nodes_def find_None_iff)
  moreover have "find P (xs @ [y]) = (case find P xs of None \<Rightarrow> (if P y then Some y else None) | Some z \<Rightarrow> Some z)"
    for P and xs :: "node_row list" and y
    by (induction xs) auto
  ultimately show ?thesis
    by (simp add: uid_of_lid_def row_by_lid_def add_local_row_def Let_def fresh_row_def)
qed

section \<open>Tombstones\<close>

interpretation subtree: finite_cte "subtree_step d" "nr_lid ` set (nodes d)" for d
  by unfold_locales (auto simp: subtree_step_def)

definition below :: "db \<Rightarrow> lid \<Rightarrow> lid \<Rightarrow> bool" where
  "below d l m = ((l, m) \<in> (step_rel (subtree_step d))\<^sup>*)"

lemma subtree_lids_below:
  "m \<in> set (subtree_lids d root) \<longleftrightarrow> (\<exists>r \<in> set (nodes d). nr_uid r = root \<and> below d (nr_lid r) m)"
proof -
  have "card (nr_lid ` set (nodes d)) \<le> length (nodes d)"
    by (meson card_image_le card_length finite_set order_trans)
  from subtree.cte_union_reaches [OF this] show ?thesis
    by (auto simp: subtree_lids_def below_def)
qed

text \<open>A row that no listing and no search returns.\<close>

definition hidden :: "db \<Rightarrow> lid \<Rightarrow> bool" where
  "hidden d l = ((\<forall>r \<in> set (nodes d). nr_lid r = l \<longrightarrow> nr_trashed r \<and> \<not> nr_listed r) \<and> l \<notin> fst ` set (nodes_fts d))"

lemma tombstone_row_simps [simp]:
  "nr_lid (tombstone_row r) = nr_lid r" "nr_uid (tombstone_row r) = nr_uid r"
  "nr_parent_lid (tombstone_row r) = nr_parent_lid r" "nr_parent_uid (tombstone_row r) = nr_parent_uid r"
  "nr_trashed (tombstone_row r)" "\<not> nr_listed (tombstone_row r)"
  by (simp_all add: tombstone_row_def)

lemma tombstone_ids [simp]:
  "row_ids (tombstone_subtree_tx d root) = row_ids d" "nodes_seq (tombstone_subtree_tx d root) = nodes_seq d"
  by (simp_all add: tombstone_subtree_tx_def Let_def row_ids_def row_ids_update)

lemma tombstone_hides: "l \<in> set (subtree_lids d root) \<Longrightarrow> hidden (tombstone_subtree_tx d root) l"
  by (auto simp: hidden_def tombstone_subtree_tx_def Let_def set_update_where)

lemma tombstone_keeps_hidden: "hidden d l \<Longrightarrow> hidden (tombstone_subtree_tx d root) l"
  by (auto simp: hidden_def tombstone_subtree_tx_def Let_def set_update_where)

lemma tombstone_keeps_others:
  "l \<notin> set (subtree_lids d root) \<Longrightarrow>
     filter (\<lambda>r. nr_lid r = l) (nodes (tombstone_subtree_tx d root)) = filter (\<lambda>r. nr_lid r = l) (nodes d)"
  by (simp add: tombstone_subtree_tx_def Let_def) (rule filter_update_where_same, auto)

text \<open>The shape of the tree does not change, so neither do the subtrees.\<close>

definition place :: "node_row \<Rightarrow> lid \<times> uid \<times> lid option \<times> uid option" where
  "place r = (nr_lid r, nr_uid r, nr_parent_lid r, nr_parent_uid r)"

definition shape :: "db \<Rightarrow> (lid \<times> uid \<times> lid option \<times> uid option) list" where
  "shape d = map place (nodes d)"

lemma tombstone_shape [simp]: "shape (tombstone_subtree_tx d root) = shape d"
  by (simp add: shape_def tombstone_subtree_tx_def Let_def map_update_where_same place_def)

lemma mark_listed_shape [simp]: "shape (mark_listed d u) = shape d"
  by (simp add: shape_def mark_listed_def map_update_where_same place_def)

lemma shape_determines:
  "row_ids d = map (\<lambda>(l, u, _). (l, u)) (shape d)"
  "subtree_step d l = map fst (filter (\<lambda>(_, _, p, _). p = Some l) (shape d))"
  "node_lid d u = (case local_lid u of
      Some m \<Rightarrow> map_option fst (find (\<lambda>(l, _). l = m) (shape d))
    | None \<Rightarrow> map_option fst (find (\<lambda>(_, v, _). v = u) (shape d)))"
proof -
  show "row_ids d = map (\<lambda>(l, u, _). (l, u)) (shape d)"
    by (simp add: row_ids_def shape_def place_def comp_def)
  show "subtree_step d l = map fst (filter (\<lambda>(_, _, p, _). p = Some l) (shape d))"
    unfolding subtree_step_def shape_def map_filter_key [symmetric] by (simp add: place_def comp_def)
  have k: "fst \<circ> place = nr_lid" by (simp add: fun_eq_iff place_def)
  have "map_option nr_lid (find (\<lambda>r. Q (place r)) (nodes d)) = map_option fst (find Q (shape d))" for Q
    unfolding shape_def find_map_key [symmetric] option.map_comp k ..
  from this [of "\<lambda>(l, _). l = _"] this [of "\<lambda>(_, v, _). v = _"]
  show "node_lid d u = (case local_lid u of
      Some m \<Rightarrow> map_option fst (find (\<lambda>(l, _). l = m) (shape d))
    | None \<Rightarrow> map_option fst (find (\<lambda>(_, v, _). v = u) (shape d)))"
    by (simp add: node_lid_def row_by_lid_def row_by_uid_def place_def split: option.split)
qed

section \<open>What write-through does to the other rows\<close>

text \<open>A row without its stored path, which the descent below a moved folder rewrites.\<close>

definition pathless :: "node_row \<Rightarrow> node_row" where
  "pathless r = r\<lparr>nr_path := None\<rparr>"

lemma reindex_row_pathless [simp]: "map pathless (nodes (reindex_row b s d)) = map pathless (nodes d)"
  by (cases s) (auto simp: reindex_row_def Let_def pathless_def map_update_where_same split: option.split)

lemma reindex_fold_pathless [simp]: "map pathless (nodes (fold (reindex_row b) ss d)) = map pathless (nodes d)"
  by (induction ss arbitrary: d) simp_all

lemma reindex_row_seq [simp]: "nodes_seq (reindex_row b s d) = nodes_seq d"
  by (cases s) (auto simp: reindex_row_def Let_def split: option.split)

lemma reindex_fold_seq [simp]: "nodes_seq (fold (reindex_row b) ss d) = nodes_seq d"
  by (induction ss arbitrary: d) simp_all

definition upserted :: "db \<Rightarrow> node \<Rightarrow> db" where
  "upserted d n =
     (let d1 = insert_or_update d n (fst (place_of d n)) (snd (place_of d n));
          rowid = (case row_by_uid d1 (node_uid n) of Some r \<Rightarrow> nr_lid r | None \<Rightarrow> 0)
      in if row_by_uid d (node_uid n) = None then adopt_children_tx d1 (node_uid n) rowid else d1)"

lemma upsert_row_pathless:
  "map pathless (nodes (upsert_row d n)) = map pathless (nodes (upserted d n))"
  "nodes_seq (upsert_row d n) = nodes_seq (upserted d n)"
  by (simp_all add: upsert_row_def upserted_def Let_def split_beta reindex_subtree_tx_def index_node_def)

lemma pathless_row:
  assumes "map pathless xs = map pathless ys" and "q \<in> set xs"
  obtains r where "r \<in> set ys" and "pathless q = pathless r"
  using assms by (metis (no_types, lifting) image_iff image_set)

lemma pathless_simps [simp]:
  "nr_lid (pathless r) = nr_lid r" "nr_uid (pathless r) = nr_uid r" "nr_parent_uid (pathless r) = nr_parent_uid r"
  "nr_parent_lid (pathless r) = nr_parent_lid r" "nr_trashed (pathless r) = nr_trashed r"
  "nr_listed (pathless r) = nr_listed r" "nr_node_json (pathless r) = nr_node_json r"
  by (simp_all add: pathless_def)

lemma pathless_fields:
  assumes "pathless q = pathless r"
  shows "nr_lid q = nr_lid r \<and> nr_uid q = nr_uid r \<and> nr_parent_uid q = nr_parent_uid r \<and>
     nr_parent_lid q = nr_parent_lid r \<and> nr_trashed q = nr_trashed r \<and> nr_listed q = nr_listed r \<and> nr_node_json q = nr_node_json r"
  by (metis assms pathless_simps)

lemma pathless_ids:
  assumes "map pathless xs = map pathless ys"
  shows "map (\<lambda>r. (nr_lid r, nr_uid r)) xs = map (\<lambda>r. (nr_lid r, nr_uid r)) ys"
proof -
  have "map (\<lambda>r. (nr_lid r, nr_uid r)) zs = map (\<lambda>r. (nr_lid r, nr_uid r)) (map pathless zs)" for zs by simp
  then show ?thesis by (metis assms)
qed

lemma insert_or_update_ids:
  "row_ids (insert_or_update d n plid path) =
     row_ids d @ (if row_by_uid d (node_uid n) = None then [(nodes_seq d + 1, node_uid n)] else [])"
  "nodes_seq (insert_or_update d n plid path) = nodes_seq d + (if row_by_uid d (node_uid n) = None then 1 else 0)"
  by (auto simp: insert_or_update_def row_ids_def stored_row_def fresh_row_def split: option.split intro!: row_ids_update)

lemma upsert_row_ids:
  "row_ids (upsert_row d n) = row_ids d @ (if row_by_uid d (node_uid n) = None then [(nodes_seq d + 1, node_uid n)] else [])"
  "nodes_seq (upsert_row d n) = nodes_seq d + (if row_by_uid d (node_uid n) = None then 1 else 0)"
proof -
  have "row_ids (upsert_row d n) = row_ids (upserted d n)"
    unfolding row_ids_def by (rule pathless_ids) (rule upsert_row_pathless)
  then show "row_ids (upsert_row d n) = row_ids d @ (if row_by_uid d (node_uid n) = None then [(nodes_seq d + 1, node_uid n)] else [])"
    by (simp add: upserted_def Let_def insert_or_update_ids)
  show "nodes_seq (upsert_row d n) = nodes_seq d + (if row_by_uid d (node_uid n) = None then 1 else 0)"
    unfolding upsert_row_pathless(2) by (simp add: upserted_def Let_def insert_or_update_ids)
qed

lemma upsert_row_wf: "wf_nodes d \<Longrightarrow> wf_nodes (upsert_row d n)"
  by (auto simp: wf_nodes_iff upsert_row_ids sorted_wrt_append row_by_uid_ids split: if_splits)

text \<open>Every other row is the row it was, except that a new folder takes in the children waiting for it.\<close>

lemma upsert_row_others:
  assumes "q \<in> set (nodes (upsert_row d n))" and "nr_uid q \<noteq> node_uid n"
  shows "\<exists>r \<in> set (nodes d). nr_lid q = nr_lid r \<and> nr_uid q = nr_uid r \<and> nr_parent_uid q = nr_parent_uid r \<and>
     nr_trashed q = nr_trashed r \<and> nr_listed q = nr_listed r \<and> nr_node_json q = nr_node_json r \<and>
     (nr_parent_lid q = nr_parent_lid r \<or>
      (\<exists>m. nr_parent_lid q = Some m \<and> (m, node_uid n) \<in> set (row_ids (upsert_row d n)) \<and> row_by_uid d (node_uid n) = None))"
proof -
  obtain q2 where q2: "q2 \<in> set (nodes (upserted d n))" "pathless q = pathless q2"
    using pathless_row [OF upsert_row_pathless(1) assms(1)] by blast
  note f = pathless_fields [OF q2(2)]
  let ?d1 = "insert_or_update d n (fst (place_of d n)) (snd (place_of d n))"
  let ?rowid = "case row_by_uid ?d1 (node_uid n) of Some r \<Rightarrow> nr_lid r | None \<Rightarrow> 0"
  have d1: "r \<in> set (nodes d)" if "r \<in> set (nodes ?d1)" "nr_uid r \<noteq> node_uid n" for r
    using that by (auto simp: insert_or_update_def set_update_where stored_row_def fresh_row_def split: option.splits)
  show ?thesis
  proof (cases "row_by_uid d (node_uid n)")
    case (Some r0)
    then have "q2 \<in> set (nodes ?d1)" using q2(1) by (simp add: upserted_def Let_def)
    with d1 f assms(2) show ?thesis by (intro bexI [of _ q2]) auto
  next
    case None
    then have "(nodes_seq d + 1, node_uid n) \<in> set (row_ids (upsert_row d n))" by (simp add: upsert_row_ids)
    moreover have "?rowid = nodes_seq d + 1"
    proof -
      have "find (\<lambda>r. nr_uid r = node_uid n) (xs @ [y]) = (if nr_uid y = node_uid n then Some y else None)"
        if "find (\<lambda>r. nr_uid r = node_uid n) xs = None" for xs and y :: node_row
        using that by (induction xs) (auto split: if_splits)
      with None show ?thesis
        by (simp add: row_by_uid_def insert_or_update_def stored_row_def fresh_row_def)
    qed
    moreover obtain r where "r \<in> set (nodes ?d1)" "q2 = r \<or> q2 = r\<lparr>nr_parent_lid := Some ?rowid\<rparr>"
      using q2(1) None by (auto simp: upserted_def Let_def adopt_children_tx_def set_update_where)
    ultimately show ?thesis using d1 f assms(2) None by (intro bexI [of _ r]) auto
  qed
qed

end
