(* ===== verification/Inodes.thy ===== *)
theory Inodes
  imports Handle Node_Table "HOL-Library.AList"
begin

text \<open>
  The inode bookkeeping of \<open>crates/pdfs-fuse/src/state.rs\<close> (\<open>State\<close>): the maps that give a remote
  node a stable kernel inode, the effective access of every resident node, and the write-throughs a
  mutation owes the database, which the guard applies once the lock is released. A hash map is the
  list of its entries in the order it iterates them, which is left open. The database is a separate
  value: a mutation reads it, and only the allocation of local ids changes it under the lock.
\<close>

section \<open>Inode numbers\<close>

definition ROOT_INO :: nat where
  "ROOT_INO = 1"

definition FALLBACK_INO :: nat where
  "FALLBACK_INO = 2 ^ 48"

definition lid_ino :: "lid \<Rightarrow> nat" where
  "lid_ino l = nat \<bar>l\<bar> + ROOT_INO"

definition ino_lid :: "nat \<Rightarrow> lid option" where
  "ino_lid ino = (if ino > ROOT_INO \<and> ino < FALLBACK_INO then Some (int (ino - ROOT_INO)) else None)"

definition volume_id :: "uid \<Rightarrow> string" where
  "volume_id u = takeWhile (\<lambda>c. c \<noteq> CHR ''~'') u"

definition VIRTUAL_VOLUME :: string where
  "VIRTUAL_VOLUME = ''virtual''"

definition is_virtual_uid :: "uid \<Rightarrow> bool" where
  "is_virtual_uid u = (volume_id u = VIRTUAL_VOLUME)"

section \<open>State\<close>

record entry =
  en_uid :: uid
  en_parent :: nat
  en_node :: node
  en_access :: access
  en_lookup_count :: nat
  en_open_count :: nat
  en_unlinked :: bool

datatype db_write =
    Upsert "node list"
  | Delete uid
  | SetListed uid bool
  | SetShareAccess uid access

record state =
  entries :: "(nat \<times> entry) list"
  by_uid :: "(uid \<times> nat) list"
  children :: "(nat \<times> nat list) list"
  roots :: "nat list"
  next_ino :: nat
  active_writes :: "(nat \<times> write_handle) list"
  releasing :: "nat list"
  handles :: "(nat \<times> nat) list"
  next_fh :: nat
  access_changes :: "nat list"
  st_share_access :: "(uid \<times> access) list"
  outbox :: "db_write list"

definition state_new :: "(uid \<times> access) list \<Rightarrow> state" where
  "state_new shares = \<lparr>entries = [], by_uid = [], children = [], roots = [], next_ino = FALLBACK_INO,
     active_writes = [], releasing = [], handles = [], next_fh = 1, access_changes = [],
     st_share_access = shares, outbox = []\<rparr>"

abbreviation entry_of :: "state \<Rightarrow> nat \<Rightarrow> entry option" where
  "entry_of st \<equiv> map_of (entries st)"

abbreviation ino_of :: "state \<Rightarrow> uid \<Rightarrow> nat option" where
  "ino_of st \<equiv> map_of (by_uid st)"

definition push_write :: "db_write \<Rightarrow> state \<Rightarrow> state" where
  "push_write w st = st\<lparr>outbox := outbox st @ [w]\<rparr>"

definition put_entry :: "nat \<Rightarrow> entry \<Rightarrow> state \<Rightarrow> state" where
  "put_entry ino e st = st\<lparr>entries := AList.update ino e (entries st)\<rparr>"

text \<open>\<open>kids.retain(|&k| k != ino)\<close> on one directory's listing, if it has one.\<close>

definition drop_child :: "nat \<Rightarrow> nat \<Rightarrow> state \<Rightarrow> state" where
  "drop_child parent ino st = (case map_of (children st) parent of
      None \<Rightarrow> st
    | Some kids \<Rightarrow> st\<lparr>children := AList.update parent (filter (\<lambda>k. k \<noteq> ino) kids) (children st)\<rparr>)"

section \<open>Write-through\<close>

text \<open>\<open>DbWrite::apply\<close>: an error is logged, and the row stays as it was.\<close>

fun apply_write :: "db \<Rightarrow> db_write \<Rightarrow> db" where
  "apply_write d (Upsert ns) = (case upsert_nodes d ns of Some d' \<Rightarrow> d' | None \<Rightarrow> d)"
| "apply_write d (Delete u) = delete_node d u"
| "apply_write d (SetListed u b) = set_listed d u b"
| "apply_write d (SetShareAccess u a) = set_share_access d u a"

text \<open>The drop of the guard: the lock goes first, then the writes, in order.\<close>

definition drop_guard :: "db \<Rightarrow> state \<Rightarrow> db \<times> state" where
  "drop_guard d st = (foldl apply_write d (outbox st), st\<lparr>outbox := []\<rparr>)"

section \<open>Access\<close>

definition require_writable :: "state \<Rightarrow> nat \<Rightarrow> errno + unit" where
  "require_writable st ino = (case entry_of st ino of
      Some e \<Rightarrow> (if writable (en_access e) then Inr () else Inl EACCES)
    | None \<Rightarrow> Inl ENOENT)"

definition access_by_uid :: "state \<Rightarrow> uid \<Rightarrow> access option" where
  "access_by_uid st u = map_option en_access (Option.bind (ino_of st u) (entry_of st))"

definition take_access_changes :: "state \<Rightarrow> nat list \<times> state" where
  "take_access_changes st = (access_changes st, st\<lparr>access_changes := []\<rparr>)"

definition note_changes :: "nat list \<Rightarrow> state \<Rightarrow> state" where
  "note_changes inos st = st\<lparr>access_changes := remdups (access_changes st @ inos)\<rparr>"

definition is_own_volume :: "state \<Rightarrow> uid \<Rightarrow> bool" where
  "is_own_volume st u = list_ex (\<lambda>ino. case entry_of st ino of
      Some r \<Rightarrow> volume_id (en_uid r) = volume_id u | None \<Rightarrow> False) (roots st)"

definition access_of :: "state \<Rightarrow> nat \<Rightarrow> access \<Rightarrow> access" where
  "access_of st ino dflt = (case entry_of st ino of Some e \<Rightarrow> en_access e | None \<Rightarrow> dflt)"

definition access_for_node :: "nat \<Rightarrow> node \<Rightarrow> state \<Rightarrow> access \<times> state" where
  "access_for_node parent n st =
     (let parent_access = access_of st parent Owner;
          stored = map_of (st_share_access st) (node_uid n);
          is_new_share_root = (membership n \<noteq> None \<and> parent_access = Owner)
      in if stored \<noteq> None \<or> is_new_share_root
         then let a = (case membership n of
                         None \<Rightarrow> (case stored of Some s \<Rightarrow> s | None \<Rightarrow> Viewer)
                       | Some role \<Rightarrow> access_for role parent_access True)
              in (a, (push_write (SetShareAccess (node_uid n) a) st)
                       \<lparr>st_share_access := AList.update (node_uid n) a (st_share_access st)\<rparr>)
         else (parent_access, st))"

text \<open>\<open>resident_children\<close>: the children of a directory by their own parent field.\<close>

definition kids_of :: "(nat \<times> entry) list \<Rightarrow> nat \<Rightarrow> nat list" where
  "kids_of es p = map fst (filter (\<lambda>(ino, e). en_parent e \<noteq> ino \<and> en_parent e = p) es)"

lemma kids_of_keys: "set (kids_of es p) \<subseteq> set (map fst es)"
  by (auto simp: kids_of_def)

text \<open>
  The breadth-first descent several operations run: an inode met again is skipped, \<open>f\<close> visits one
  and says whether to go on below it. \<open>kids\<close> is taken before the loop, which changes no parent field.
\<close>

function walk_down :: "(nat \<times> entry) list \<Rightarrow> (nat \<Rightarrow> 's \<Rightarrow> bool \<times> 's) \<Rightarrow> nat list \<Rightarrow> nat list \<Rightarrow> 's \<Rightarrow> 's" where
  "walk_down tree f [] seen s = s"
| "walk_down tree f (p # queue) seen s =
     (if p \<in> set seen then walk_down tree f queue seen s
      else case f p s of
             (down, s') \<Rightarrow> walk_down tree f (queue @ (if down then kids_of tree p else [])) (p # seen) s')"
  by pat_completeness auto

definition with_kids :: "(nat \<times> entry) list \<Rightarrow> nat set" where
  "with_kids tree = en_parent ` snd ` set tree"

lemma kids_of_with: "kids_of tree p \<noteq> [] \<Longrightarrow> p \<in> with_kids tree"
  by (force simp: kids_of_def with_kids_def filter_empty_conv)

lemma walk_less:
  assumes "p \<notin> set seen"
  shows "((card (with_kids tree - set (p # seen)), length (queue @ (if down then kids_of tree p else []))),
          (card (with_kids tree - set seen), length (p # queue))) \<in> less_than <*lex*> less_than"
proof (cases "p \<in> with_kids tree")
  case True
  then have "with_kids tree - set (p # seen) \<subset> with_kids tree - set seen" using assms by auto
  then show ?thesis by (simp add: with_kids_def psubset_card_mono)
next
  case False
  then have "with_kids tree - set (p # seen) = with_kids tree - set seen" "kids_of tree p = []"
    using kids_of_with by auto
  then show ?thesis by (simp only: in_lex_prod) simp
qed

termination walk_down
proof (relation "inv_image (less_than <*lex*> less_than)
    (\<lambda>(tree, f, queue, seen, s). (card (with_kids tree - set seen), length queue))", goal_cases)
  case 3
  then show ?case by (simp only: in_inv_image prod.case) (rule walk_less)
qed auto

text \<open>
  \<open>recompute_descendant_access\<close>: a child takes the access recorded for it as a share root, or its
  parent's. The state is the entries and the inodes that changed.
\<close>

definition set_access :: "nat \<Rightarrow> access \<Rightarrow> (nat \<times> entry) list \<times> nat list \<Rightarrow> (nat \<times> entry) list \<times> nat list" where
  "set_access ino a = (\<lambda>(es, changed). case map_of es ino of
      None \<Rightarrow> (es, changed)
    | Some e \<Rightarrow> (if en_access e \<noteq> a then (AList.update ino (e\<lparr>en_access := a\<rparr>) es, changed @ [ino]) else (es, changed)))"

definition inherit :: "(uid \<times> access) list \<Rightarrow> access \<Rightarrow> nat \<Rightarrow> (nat \<times> entry) list \<times> nat list \<Rightarrow> (nat \<times> entry) list \<times> nat list" where
  "inherit shares parent_access child s = (case map_of (fst s) child of
      None \<Rightarrow> s
    | Some e \<Rightarrow> set_access child (case map_of shares (en_uid e) of Some a \<Rightarrow> a | None \<Rightarrow> parent_access) s)"

definition recompute_visit :: "(uid \<times> access) list \<Rightarrow> (nat \<times> entry) list \<Rightarrow> nat \<Rightarrow>
    (nat \<times> entry) list \<times> nat list \<Rightarrow> bool \<times> (nat \<times> entry) list \<times> nat list" where
  "recompute_visit shares tree p s = (case map_of (fst s) p of
      None \<Rightarrow> (False, s)
    | Some e \<Rightarrow> (True, fold (inherit shares (en_access e)) (kids_of tree p) s))"

definition recompute_descendant_access :: "nat \<Rightarrow> state \<Rightarrow> nat list \<times> state" where
  "recompute_descendant_access root st =
     (case walk_down (entries st) (recompute_visit (st_share_access st) (entries st)) [root] [] (entries st, []) of
        (es, changed) \<Rightarrow> (changed, st\<lparr>entries := es\<rparr>))"

text \<open>The two downgrades: Viewer for every inode below, nested authorities included.\<close>

definition viewer_visit :: "nat \<Rightarrow> (nat \<times> entry) list \<times> nat list \<Rightarrow> bool \<times> (nat \<times> entry) list \<times> nat list" where
  "viewer_visit ino s = (True, set_access ino Viewer s)"

definition downgrade_shared_subtree :: "uid \<Rightarrow> state \<Rightarrow> nat list \<times> state" where
  "downgrade_shared_subtree u st =
     (let st1 = st\<lparr>st_share_access := AList.update u Viewer (st_share_access st)\<rparr>
      in case ino_of st u of
           None \<Rightarrow> ([], st1)
         | Some root \<Rightarrow>
             (case walk_down (entries st) viewer_visit [root] [] (entries st, []) of
                (es, changed) \<Rightarrow> (changed, st1\<lparr>entries := es\<rparr>)))"

definition downgrade_known_shared_access :: "state \<Rightarrow> nat list \<times> state" where
  "downgrade_known_shared_access st =
     (let shares = map (\<lambda>(u, _). (u, Viewer)) (st_share_access st);
          tops = map fst (filter (\<lambda>(ino, e). en_parent e \<noteq> ino \<and>
                    (en_access e \<noteq> Owner \<or> membership (en_node e) \<noteq> None \<or> map_of shares (en_uid e) \<noteq> None))
                  (entries st))
      in case walk_down (entries st) viewer_visit tops [] (entries st, []) of
           (es, changed) \<Rightarrow> (changed, st\<lparr>st_share_access := shares, entries := es\<rparr>))"

definition hide_subtree_mem :: "uid \<Rightarrow> state \<Rightarrow> state" where
  "hide_subtree_mem u st = (case ino_of st u of
      None \<Rightarrow> st
    | Some ino \<Rightarrow> (case entry_of st ino of
          None \<Rightarrow> st
        | Some e \<Rightarrow>
            (let st1 = drop_child (en_parent e) ino (put_entry ino (e\<lparr>en_node := (en_node e)\<lparr>trashed := True\<rparr>\<rparr>) st)
             in st1\<lparr>children := AList.delete ino (children st1)\<rparr>)))"

definition hide_shared_root :: "uid \<Rightarrow> state \<Rightarrow> nat list \<times> state" where
  "hide_shared_root u st = (case downgrade_shared_subtree u st of
      (changed, st1) \<Rightarrow> (changed, hide_subtree_mem u st1))"

definition hide_foreign_subtree :: "uid \<Rightarrow> state \<Rightarrow> state" where
  "hide_foreign_subtree u st = hide_subtree_mem u st"

text \<open>
  \<open>hydrate_access\<close>: the access of an inode from its own share row, its parent's access or, with no
  parent resident, what is recorded above it. The memo answers an inode resolved before; an inode on
  the path being resolved is a loop in the parents and answers \<open>Unknown\<close>. The fuel is the number of
  entries, one for each inode a path may visit (\<open>resolve_fuel_enough\<close>).
\<close>

definition orphan_access :: "state \<Rightarrow> entry \<Rightarrow> access" where
  "orphan_access st e = (case Option.bind (parent_uid (en_node e)) (map_of (st_share_access st)) of
      Some a \<Rightarrow> a
    | None \<Rightarrow> (if is_own_volume st (en_uid e) then Owner else Unknown))"

fun resolve :: "nat \<Rightarrow> state \<Rightarrow> nat \<Rightarrow> (nat \<times> access) list \<Rightarrow> nat list \<Rightarrow> access \<times> (nat \<times> access) list" where
  "resolve 0 st ino memo visiting = (Unknown, memo)"
| "resolve (Suc k) st ino memo visiting =
     (case map_of memo ino of
        Some a \<Rightarrow> (a, memo)
      | None \<Rightarrow> (case entry_of st ino of
            None \<Rightarrow> (Unknown, memo)
          | Some e \<Rightarrow>
              (if ino \<in> set visiting then (Unknown, memo)
               else let (a, memo') =
                      (if en_parent e = ino then (Owner, memo)
                       else case map_of (st_share_access st) (en_uid e) of
                              Some s \<Rightarrow> (s, memo)
                            | None \<Rightarrow>
                                (if entry_of st (en_parent e) = None then (orphan_access st e, memo)
                                 else case resolve k st (en_parent e) memo (ino # visiting) of
                                        (pa, m) \<Rightarrow>
                                          (case membership (en_node e) of
                                             None \<Rightarrow> (pa, m)
                                           | Some role \<Rightarrow> (if pa \<noteq> Owner then (pa, m) else (access_for role pa True, m)))))
                    in (a, (ino, a) # memo'))))"

definition hydrate_access :: "state \<Rightarrow> state" where
  "hydrate_access st =
     (let memo = fold (\<lambda>ino m. snd (resolve (Suc (length (entries st))) st ino m [])) (map fst (entries st)) [];
          st1 = st\<lparr>entries := map (\<lambda>(ino, e). (ino, case map_of memo ino of Some a \<Rightarrow> e\<lparr>en_access := a\<rparr> | None \<Rightarrow> e)) (entries st)\<rparr>;
          discovered = List.map_filter (\<lambda>(ino, e).
             (let pa = access_of st1 (en_parent e) Unknown
              in if en_parent e = ino then None
                 else case membership (en_node e) of
                        None \<Rightarrow> None
                      | Some role \<Rightarrow>
                          (if pa = Owner \<and> map_of (st_share_access st1) (en_uid e) = None
                           then Some (en_uid e, access_for role pa True) else None))) (entries st1)
      in fold (\<lambda>(u, a) s. (push_write (SetShareAccess u a) s)\<lparr>st_share_access := AList.update u a (st_share_access s)\<rparr>)
           discovered st1)"

section \<open>Interning\<close>

text \<open>
  The inodes of nodes that have no entry yet: from their local ids in one transaction, or numbered
  for this run when the database fails (\<open>db_ok\<close>) or the node is virtual.
\<close>

fun run_inos :: "node list \<Rightarrow> state \<Rightarrow> (uid \<times> nat) list \<times> state" where
  "run_inos [] st = ([], st)"
| "run_inos (n # ns) st =
     (case run_inos ns (st\<lparr>next_ino := next_ino st + 1\<rparr>) of
        (m, st') \<Rightarrow> ((node_uid n, next_ino st) # m, st'))"

definition new_inos :: "bool \<Rightarrow> node list \<Rightarrow> db \<times> state \<Rightarrow> (uid \<times> nat) list \<times> db \<times> state" where
  "new_inos db_ok ns = (\<lambda>(d, st).
     let virtuals = filter (\<lambda>n. is_virtual_uid (node_uid n)) ns;
         stored = filter (\<lambda>n. \<not> is_virtual_uid (node_uid n)) ns;
         (inos, d1, st1) =
           (if db_ok then (case lids_for d stored of (ls, d') \<Rightarrow> (zip (map node_uid stored) (map lid_ino ls), d', st))
            else (case run_inos stored st of (m, st') \<Rightarrow> (m, d, st')));
         (vinos, st2) = run_inos virtuals st1
     in (inos @ vinos, d1, st2))"

text \<open>\<open>inos_for\<close>: the numbers of the stored nodes of a listing, asked for before the lock is taken.\<close>

definition inos_for :: "bool \<Rightarrow> db \<Rightarrow> node list \<Rightarrow> (uid \<times> nat) list \<times> db" where
  "inos_for db_ok d ns =
     (let stored = filter (\<lambda>n. \<not> is_virtual_uid (node_uid n)) ns
      in if stored = [] \<or> \<not> db_ok then ([], d)
         else case lids_for d stored of (ls, d') \<Rightarrow> (zip (map node_uid stored) (map lid_ino ls), d'))"

definition keep_revision_mtime :: "state \<Rightarrow> node \<Rightarrow> node" where
  "keep_revision_mtime st n = (case Option.bind (ino_of st (node_uid n)) (entry_of st) of
      None \<Rightarrow> n
    | Some e \<Rightarrow> (case (node_kind n, node_kind (en_node e)) of
          (File t sz (Some now) sha, File t' size_was (Some was) sha_was) \<Rightarrow>
            (if now = was
             then n\<lparr>modification_time := modification_time (en_node e),
                    node_kind := File t (if sz = None then size_was else sz) (Some now)
                                   (if sha = None then sha_was else sha)\<rparr>
             else n)
        | _ \<Rightarrow> n))"

definition with_claimed_size :: "int \<Rightarrow> node \<Rightarrow> node" where
  "with_claimed_size s n = (case node_kind n of
      Folder \<Rightarrow> n | File t _ rv sha \<Rightarrow> n\<lparr>node_kind := File t (Some s) rv sha\<rparr>)"

definition keep_open_write_size :: "state \<Rightarrow> nat \<Rightarrow> node \<Rightarrow> node" where
  "keep_open_write_size st ino n = (case (map_of (active_writes st) ino, entry_of st ino) of
      (Some aw, Some e) \<Rightarrow>
        (if is_folder n then n
         else (with_claimed_size (int (wh_len aw)) n)\<lparr>modification_time := modification_time (en_node e)\<rparr>)
    | _ \<Rightarrow> n)"

definition new_entry :: "nat \<Rightarrow> nat \<Rightarrow> node \<Rightarrow> access \<Rightarrow> state \<Rightarrow> state" where
  "new_entry ino parent n a st =
     (put_entry ino \<lparr>en_uid = node_uid n, en_parent = parent, en_node = n, en_access = a, en_lookup_count = 1,
        en_open_count = 0, en_unlinked = False\<rparr> st)\<lparr>by_uid := AList.update (node_uid n) ino (by_uid st)\<rparr>"

definition refresh_entry :: "nat \<Rightarrow> nat \<Rightarrow> node \<Rightarrow> access \<Rightarrow> state \<Rightarrow> state" where
  "refresh_entry ino parent n a st = (case entry_of st ino of
      None \<Rightarrow> st
    | Some e \<Rightarrow>
        (let st1 = put_entry ino (e\<lparr>en_node := keep_open_write_size st ino n, en_parent := parent, en_access := a\<rparr>) st
         in if en_access e \<noteq> a
            then (case recompute_descendant_access ino (note_changes [ino] st1) of
                    (desc, st2) \<Rightarrow> note_changes desc st2)
            else st1))"

definition intern_mem_at :: "bool \<Rightarrow> nat \<Rightarrow> node \<Rightarrow> access \<Rightarrow> nat option \<Rightarrow> db \<times> state \<Rightarrow> nat \<times> db \<times> state" where
  "intern_mem_at db_ok parent n a given = (\<lambda>(d, st). case ino_of st (node_uid n) of
      Some ino \<Rightarrow> (ino, d, refresh_entry ino parent n a st)
    | None \<Rightarrow> (case given of
          Some ino \<Rightarrow> (ino, d, new_entry ino parent n a st)
        | None \<Rightarrow> (case new_inos db_ok [n] (d, st) of
              (m, d1, st1) \<Rightarrow> (let ino = (case map_of m (node_uid n) of Some i \<Rightarrow> i | None \<Rightarrow> 0)
                             in (ino, d1, new_entry ino parent n a st1)))))"

definition intern_mem :: "bool \<Rightarrow> nat \<Rightarrow> node \<Rightarrow> db \<times> state \<Rightarrow> nat \<times> db \<times> state" where
  "intern_mem db_ok parent n = (\<lambda>(d, st). case access_for_node parent n st of
      (a, st1) \<Rightarrow> intern_mem_at db_ok parent n a None (d, st1))"

definition intern :: "bool \<Rightarrow> nat \<Rightarrow> node \<Rightarrow> db \<times> state \<Rightarrow> nat \<times> db \<times> state" where
  "intern db_ok parent n = (\<lambda>(d, st). let n' = keep_revision_mtime st n in
     intern_mem db_ok parent n' (d, push_write (Upsert [n']) st))"

definition intern_from_db :: "bool \<Rightarrow> nat \<Rightarrow> node \<Rightarrow> db \<times> state \<Rightarrow> nat \<times> db \<times> state" where
  "intern_from_db db_ok parent n = intern_mem db_ok parent n"

definition intern_published_share_root :: "bool \<Rightarrow> nat \<Rightarrow> node \<Rightarrow> access \<Rightarrow> db \<times> state \<Rightarrow> nat \<times> db \<times> state" where
  "intern_published_share_root db_ok parent n a = (\<lambda>(d, st).
     intern_mem_at db_ok parent n a None (d, st\<lparr>st_share_access := AList.update (node_uid n) a (st_share_access st)\<rparr>))"

fun intern_each :: "bool \<Rightarrow> nat \<Rightarrow> node list \<Rightarrow> (uid \<times> nat) list \<Rightarrow> db \<times> state \<Rightarrow> nat list \<times> db \<times> state" where
  "intern_each db_ok parent [] inos ds = ([], ds)"
| "intern_each db_ok parent (n # ns) inos (d, st) =
     (case access_for_node parent n st of
        (a, st1) \<Rightarrow> (case intern_mem_at db_ok parent n a (map_of inos (node_uid n)) (d, st1) of
            (ino, ds1) \<Rightarrow> (case intern_each db_ok parent ns (AList.delete (node_uid n) inos) ds1 of
                (inodes, ds2) \<Rightarrow> (ino # inodes, ds2))))"

definition intern_batch_with_inos :: "bool \<Rightarrow> nat \<Rightarrow> node list \<Rightarrow> (uid \<times> nat) list \<Rightarrow> db \<times> state \<Rightarrow> nat list \<times> db \<times> state" where
  "intern_batch_with_inos db_ok parent ns0 inos = (\<lambda>(d, st).
     let ns = map (keep_revision_mtime st) ns0;
         st1 = push_write (Upsert ns) st;
         fresh = filter (\<lambda>n. ino_of st (node_uid n) = None \<and> map_of inos (node_uid n) = None) ns;
         (extra, d2, st2) = (if fresh = [] then ([], d, st1) else new_inos db_ok fresh (d, st1))
     in intern_each db_ok parent ns (fold (\<lambda>(u, i) m. AList.update u i m) extra inos) (d2, st2))"

definition install_root :: "bool \<Rightarrow> node \<Rightarrow> db \<times> state \<Rightarrow> nat \<times> db \<times> state" where
  "install_root db_ok n = (\<lambda>(d, st).
     let d1 = delete_share_access (if db_ok then (case upsert_nodes d [n] of Some d' \<Rightarrow> d' | None \<Rightarrow> d) else d) (node_uid n);
         st1 = st\<lparr>st_share_access := AList.delete (node_uid n) (st_share_access st)\<rparr>;
         (ino, d2, st2) = (case ino_of st1 (node_uid n) of
             Some i \<Rightarrow> (i, d1, st1)
           | None \<Rightarrow> (case new_inos db_ok [n] (d1, st1) of
                 (m, d', st') \<Rightarrow> (case map_of m (node_uid n) of Some i \<Rightarrow> i | None \<Rightarrow> 0, d', st')));
         st3 = (case entry_of st2 ino of
             Some e \<Rightarrow> (if en_parent e \<noteq> ino then drop_child (en_parent e) ino st2 else st2)
           | None \<Rightarrow> st2);
         looked = (case entry_of st3 ino of Some e \<Rightarrow> max (en_lookup_count e) 1 | None \<Rightarrow> 1);
         st4 = put_entry ino \<lparr>en_uid = node_uid n, en_parent = ino, en_node = n, en_access = Owner,
                 en_lookup_count = looked, en_open_count = 0, en_unlinked = False\<rparr> st3
     in (ino, d2, st4\<lparr>by_uid := AList.update (node_uid n) ino (by_uid st4), roots := List.insert ino (roots st4)\<rparr>))"

section \<open>Forgetting, renaming, sizes\<close>

definition forget_mem :: "uid \<Rightarrow> state \<Rightarrow> (nat \<times> string) option \<times> state" where
  "forget_mem u st = (case ino_of st u of
      None \<Rightarrow> (None, st)
    | Some ino \<Rightarrow>
        (let st1 = st\<lparr>by_uid := AList.delete u (by_uid st)\<rparr>
         in case entry_of st1 ino of
              None \<Rightarrow> (None, st1)
            | Some e \<Rightarrow>
                (let st2 = st1\<lparr>entries := AList.delete ino (entries st1), children := AList.delete ino (children st1)\<rparr>
                 in (Some (en_parent e, node_name (en_node e)), drop_child (en_parent e) ino st2))))"

definition forget :: "uid \<Rightarrow> state \<Rightarrow> (nat \<times> string) option \<times> state" where
  "forget u st = forget_mem u (push_write (Delete u) st)"

text \<open>\<open>forget_or_unlink\<close> and \<open>unlink_mem\<close>: a node with open handles keeps its inode, unlinked.\<close>

definition unlink_or :: "(uid \<Rightarrow> state \<Rightarrow> (nat \<times> string) option \<times> state) \<Rightarrow> uid \<Rightarrow> state \<Rightarrow> (nat \<times> string) option \<times> state" where
  "unlink_or closed u st = (case Option.bind (ino_of st u) (\<lambda>ino. map_option (\<lambda>e. (ino, e)) (entry_of st ino)) of
      Some (ino, e) \<Rightarrow>
        (if en_open_count e > 0
         then (Some (en_parent e, node_name (en_node e)),
               drop_child (en_parent e) ino (put_entry ino (e\<lparr>en_unlinked := True\<rparr>) st))
         else closed u st)
    | None \<Rightarrow> closed u st)"

definition forget_or_unlink :: "uid \<Rightarrow> state \<Rightarrow> (nat \<times> string) option \<times> state" where
  "forget_or_unlink = unlink_or forget"

definition unlink_mem :: "uid \<Rightarrow> state \<Rightarrow> (nat \<times> string) option \<times> state" where
  "unlink_mem = unlink_or forget_mem"

definition forget_lookup :: "nat \<Rightarrow> nat \<Rightarrow> state \<Rightarrow> (nat \<times> string) option \<times> state" where
  "forget_lookup ino nlookup st = (case entry_of st ino of
      None \<Rightarrow> (None, st)
    | Some e \<Rightarrow>
        (let e' = e\<lparr>en_lookup_count := en_lookup_count e - nlookup\<rparr>; st1 = put_entry ino e' st
         in if en_lookup_count e' = 0 \<and> en_open_count e' = 0 \<and> en_unlinked e' then forget (en_uid e') st1 else (None, st1)))"

definition release_unlinked_entry :: "nat \<Rightarrow> state \<Rightarrow> uid option \<times> state" where
  "release_unlinked_entry ino st = (case entry_of st ino of
      None \<Rightarrow> (None, st)
    | Some e \<Rightarrow>
        (let e' = e\<lparr>en_open_count := en_open_count e - 1\<rparr>; st1 = put_entry ino e' st
         in if en_open_count e' \<noteq> 0 \<or> \<not> en_unlinked e' then (None, st1)
            else (Some (en_uid e'), snd (forget_mem (en_uid e') st1))))"

definition invalidate_listing :: "nat \<Rightarrow> state \<Rightarrow> state" where
  "invalidate_listing ino st =
     (let st1 = st\<lparr>children := AList.delete ino (children st)\<rparr>
      in case entry_of st1 ino of None \<Rightarrow> st1 | Some e \<Rightarrow> push_write (SetListed (en_uid e) False) st1)"

definition record_listed :: "uid \<Rightarrow> state \<Rightarrow> state" where
  "record_listed u st = push_write (SetListed u True) st"

definition write_through :: "node \<Rightarrow> state \<Rightarrow> state" where
  "write_through n st = push_write (Upsert [n]) st"

definition add_child :: "nat \<Rightarrow> nat \<Rightarrow> state \<Rightarrow> state" where
  "add_child parent ino st = (case map_of (children st) parent of
      None \<Rightarrow> st
    | Some kids \<Rightarrow> (if ino \<in> set kids then st else st\<lparr>children := AList.update parent (kids @ [ino]) (children st)\<rparr>))"

definition rename_in_place :: "nat \<Rightarrow> nat \<Rightarrow> uid \<Rightarrow> string \<Rightarrow> state \<Rightarrow> state" where
  "rename_in_place ino new_parent new_parent_uid name st = (case entry_of st ino of
      None \<Rightarrow> st
    | Some e \<Rightarrow>
        (let a = (case map_of (st_share_access st) (en_uid e) of Some s \<Rightarrow> s | None \<Rightarrow> access_of st new_parent Owner);
             n = (en_node e)\<lparr>node_name := name, parent_uid := Some new_parent_uid\<rparr>;
             st1 = put_entry ino (e\<lparr>en_parent := new_parent, en_access := a, en_node := n\<rparr>) st;
             st2 = (if en_parent e \<noteq> new_parent then add_child new_parent ino (drop_child (en_parent e) ino st1) else st1)
         in snd (recompute_descendant_access ino (push_write (Upsert [n]) st2))))"

definition relocate :: "nat \<Rightarrow> nat \<Rightarrow> nat \<Rightarrow> uid \<Rightarrow> string \<Rightarrow> state \<Rightarrow> state" where
  "relocate ino from to to_uid name st =
     (let st1 = invalidate_listing to (rename_in_place ino to to_uid name st)
      in if from \<noteq> to then invalidate_listing from st1 else st1)"

definition set_size :: "nat \<Rightarrow> nat \<Rightarrow> state \<Rightarrow> state" where
  "set_size ino n st = (case entry_of st ino of
      None \<Rightarrow> st | Some e \<Rightarrow> put_entry ino (e\<lparr>en_node := with_claimed_size (int n) (en_node e)\<rparr>) st)"

definition touch_mtime :: "nat \<Rightarrow> int \<Rightarrow> state \<Rightarrow> state" where
  "touch_mtime ino secs st = (case entry_of st ino of
      None \<Rightarrow> st | Some e \<Rightarrow> put_entry ino (e\<lparr>en_node := (en_node e)\<lparr>modification_time := secs\<rparr>\<rparr>) st)"

definition record_pending_write :: "nat \<Rightarrow> nat \<Rightarrow> int \<Rightarrow> state \<Rightarrow> node option \<times> state" where
  "record_pending_write ino n mtime st =
     (let st1 = touch_mtime ino mtime (set_size ino n st) in (map_option en_node (entry_of st1 ino), st1))"

section \<open>Questions about the tree\<close>

definition st_has_children :: "bool \<Rightarrow> db \<Rightarrow> state \<Rightarrow> nat \<Rightarrow> bool" where
  "st_has_children db_ok d st parent = (case map_of (children st) parent of
      Some kids \<Rightarrow> kids \<noteq> []
    | None \<Rightarrow> (case entry_of st parent of Some e \<Rightarrow> db_ok \<and> has_children d (en_uid e) | None \<Rightarrow> False))"

text \<open>The climb of \<open>is_ancestor_of\<close>: it ends at inode 0, at an inode seen before, or outside the tree.\<close>

function climb :: "(nat \<times> entry) list \<Rightarrow> nat \<Rightarrow> nat list \<Rightarrow> nat \<Rightarrow> bool" where
  "climb es anc visited target = (case map_of es target of
      None \<Rightarrow> False
    | Some e \<Rightarrow>
        (if en_parent e = anc then True
         else if en_parent e = 0 \<or> en_parent e \<in> set visited then False
         else climb es anc (en_parent e # visited) (en_parent e)))"
  by pat_completeness auto
termination
proof (relation "measure (\<lambda>(es, anc, visited, target). card (with_kids es - set visited))", goal_cases)
  case (2 es anc visited target e)
  then have "en_parent e \<in> with_kids es - set visited"
    by (auto simp: with_kids_def dest!: map_of_SomeD intro!: image_eqI [of _ en_parent e] image_eqI [of _ snd "(target, e)"])
  then have "with_kids es - set (en_parent e # visited) \<subset> with_kids es - set visited" by auto
  then show ?case by (simp add: with_kids_def psubset_card_mono)
qed simp

declare climb.simps [simp del]

definition is_ancestor_of :: "state \<Rightarrow> nat \<Rightarrow> nat \<Rightarrow> bool" where
  "is_ancestor_of st anc target = (anc = target \<or> climb (entries st) anc [target] target)"

text \<open>
  The climb of \<open>owns_visible_uid\<close> to one of the mounted roots: every node on the way is on the same
  volume, linked, not trashed, known under its own uid, and listed by the parent it names.
\<close>

definition visible_here :: "state \<Rightarrow> uid \<Rightarrow> nat \<Rightarrow> entry \<Rightarrow> bool" where
  "visible_here st u ino e = (volume_id (en_uid e) = volume_id u \<and> \<not> en_unlinked e \<and> \<not> trashed (en_node e) \<and>
     en_uid e = node_uid (en_node e) \<and> ino_of st (en_uid e) = Some ino)"

definition linked_to :: "state \<Rightarrow> nat \<Rightarrow> entry \<Rightarrow> entry \<Rightarrow> bool" where
  "linked_to st ino e p = (parent_uid (en_node e) = Some (en_uid p) \<and>
     (case map_of (children st) (en_parent e) of None \<Rightarrow> True | Some kids \<Rightarrow> ino \<in> set kids))"

function owns_climb :: "state \<Rightarrow> uid \<Rightarrow> nat list \<Rightarrow> nat list \<Rightarrow> nat \<Rightarrow> bool" where
  "owns_climb st u tops seen ino =
     (if ino \<in> set seen then False
      else case entry_of st ino of
             None \<Rightarrow> False
           | Some e \<Rightarrow>
               (if \<not> visible_here st u ino e then False
                else if ino \<in> set tops then True
                else if en_parent e = 0 \<or> en_parent e = ino then False
                else case entry_of st (en_parent e) of
                       None \<Rightarrow> False
                     | Some p \<Rightarrow> linked_to st ino e p \<and> owns_climb st u tops (ino # seen) (en_parent e)))"
  by pat_completeness auto
termination
proof (relation "measure (\<lambda>(st, u, tops, seen, ino). card (set (map fst (entries st)) - set seen))", goal_cases)
  case (2 st u tops seen ino e p)
  then have "ino \<in> set (map fst (entries st)) - set seen" by (force dest: map_of_SomeD)
  then have "set (map fst (entries st)) - set (ino # seen) \<subset> set (map fst (entries st)) - set seen" by auto
  then show ?case by (simp add: psubset_card_mono del: set_map)
qed simp

declare owns_climb.simps [simp del]

definition owns_visible_uid :: "state \<Rightarrow> uid \<Rightarrow> nat list \<Rightarrow> bool" where
  "owns_visible_uid st u tops = (case ino_of st u of None \<Rightarrow> False | Some ino \<Rightarrow> owns_climb st u tops [] ino)"

end
