(* ===== verification/Node_Table_Spec.thy ===== *)
theory Node_Table_Spec
  imports Node_Table
begin

text \<open>
  What the node table promises: local ids are given once and name their rows, a node made on this
  machine is found under its stand-in, and a published listing of a shared folder shows only what
  the owner lists, with everything below a withdrawn child hidden from listings and from search.
\<close>

section \<open>Local ids\<close>

lemma row_ids_unique:
  assumes "wf_nodes d" and "(l, u) \<in> set (row_ids d)"
  shows "(l, v) \<in> set (row_ids d) \<Longrightarrow> v = u" and "(m, u) \<in> set (row_ids d) \<Longrightarrow> m = l"
proof -
  have "distinct (map fst (row_ids d))" "distinct (map snd (row_ids d))"
    using assms(1) sorted_wrt_less_distinct by (auto simp: wf_nodes_iff)
  then show "(l, v) \<in> set (row_ids d) \<Longrightarrow> v = u" "(m, u) \<in> set (row_ids d) \<Longrightarrow> m = l"
    using assms(2) by (metis (no_types, opaque_lifting) distinct_map fst_conv inj_onD snd_conv)+
qed

text \<open>
  \<open>lids_for\<close> gives each node of a listing a local id in one transaction: the id is the one its
  row has, it names that uid alone, a node listed twice gets the same id, no row that was there
  loses its id, and the ids stay distinct and ascending.
\<close>

theorem lids_name_their_rows:
  assumes "wf_nodes d" and "lids_for d ns = (ls, d')"
  shows "wf_nodes d' \<and> set (row_ids d) \<subseteq> set (row_ids d') \<and> length ls = length ns \<and>
         (\<forall>i < length ns. row_by_lid d' (ls ! i) \<noteq> None \<and> uid_of_lid d' (ls ! i) = Some (node_uid (ns ! i)) \<and>
           (\<forall>j < length ns. ls ! i = ls ! j \<longleftrightarrow> node_uid (ns ! i) = node_uid (ns ! j)))"
proof -
  have spec: "wf_nodes d'" "set (row_ids d) \<subseteq> set (row_ids d')" "length ls = length ns"
      "set (zip ls (map node_uid ns)) \<subseteq> set (row_ids d')"
    using lids_for_spec [OF assms(1), of ns] assms(2) by auto
  have mem: "(ls ! i, node_uid (ns ! i)) \<in> set (row_ids d')" if "i < length ns" for i
    using spec(3,4) that by (auto simp: set_zip)
  have row: "row_by_lid d' l \<noteq> None \<and> uid_of_lid d' l = Some u" if lu: "(l, u) \<in> set (row_ids d')" for l u
  proof -
    obtain r where "r \<in> set (nodes d')" "nr_lid r = l" using lu by (auto simp: row_ids_def)
    then obtain q where q: "row_by_lid d' l = Some q"
      unfolding row_by_lid_def by (metis (mono_tags, lifting) find_None_iff option.exhaust)
    then have "(l, nr_uid q) \<in> set (row_ids d')" by (auto simp: row_ids_def dest: row_by_lid_Some)
    with row_ids_unique(1) [OF spec(1) lu] q show ?thesis by (simp add: uid_of_lid_def)
  qed
  have "ls ! i = ls ! j \<longleftrightarrow> node_uid (ns ! i) = node_uid (ns ! j)" if "i < length ns" "j < length ns" for i j
    using row_ids_unique [OF spec(1) mem [OF that(1)]] mem [OF that(2)] by metis
  with spec row mem show ?thesis by blast
qed

definition demo_node :: "uid \<Rightarrow> uid option \<Rightarrow> node" where
  "demo_node u p = \<lparr>node_uid = u, parent_uid = p, node_name = u, node_kind = Folder, creation_time = 0,
     modification_time = 0, trashed = False, membership = None\<rparr>"

theorem lids_name_their_rows_witness:
  "fst (lids_for empty_db [demo_node ''v~a'' None, demo_node ''v~b'' (Some ''v~a''), demo_node ''v~a'' None]) = [1, 2, 1] \<and>
   uid_of_lid (snd (lids_for empty_db [demo_node ''v~a'' None, demo_node ''v~b'' (Some ''v~a''), demo_node ''v~a'' None])) 2 = Some ''v~b''"
proof -
  let ?ns = "[demo_node ''v~a'' None, demo_node ''v~b'' (Some ''v~a''), demo_node ''v~a'' None]"
  obtain ls d' where r: "lids_for empty_db ?ns = (ls, d')" by fastforce
  have wf: "wf_nodes empty_db" by (simp add: wf_nodes_def empty_db_def)
  have fst: "fst (lids_for empty_db ?ns) = [1, 2, 1]" by code_simp
  then have "ls = [1, 2, 1]" using r by simp
  with lids_name_their_rows [OF wf r] have "uid_of_lid d' 2 = Some (node_uid (?ns ! 1))"
    by (auto simp: numeral_eq_Suc less_Suc_eq_0_disj)
  with fst r show ?thesis by (simp add: demo_node_def)
qed

text \<open>
  A node made on this machine gets a row of its own: its local id is new, it is found under
  the stand-in of that id by local id and by uid, and the row of no other node changes. The id
  names the stand-in already: \<open>uid_of_lid\<close> answers with it, not with nothing.
\<close>

theorem local_row_is_found_by_its_stand_in:
  assumes "wf_nodes d" and "0 \<le> nodes_seq d" and "nodes_seq d + 1 < 2 ^ 63"
    and "add_local_row d parent name is_dir mtime = (l, d')"
    and "local_uid l \<notin> nr_uid ` set (nodes d)"
  shows "wf_nodes d' \<and> row_by_lid d l = None \<and> lid_of d' (local_uid l) = Some l \<and>
         uid_of_lid d' l = Some (local_uid l) \<and>
         (\<forall>u. u \<noteq> local_uid l \<longrightarrow> local_lid u = None \<longrightarrow> row_by_uid d' u = row_by_uid d u)"
proof -
  have l: "l = nodes_seq d + 1" using assms(4) by (simp add: add_local_row_def Let_def)
  have d': "d' = snd (add_local_row d parent name is_dir mtime)" using assms(4) by simp
  have "row_by_lid d l = None"
    using assms(1) l by (fastforce simp: wf_nodes_def row_by_lid_def find_None_iff)
  moreover have uid: "uid_of_lid d' l = Some (local_uid l)"
    using add_local_row_uid [OF assms(1), of parent name is_dir mtime] assms(4) l by simp
  moreover have "lid_of d' (local_uid l) = Some l"
  proof -
    obtain r where "row_by_lid d' l = Some r" using uid by (auto simp: uid_of_lid_def)
    with assms(2,3) l show ?thesis by (auto simp: lid_of_def node_lid_def dest: row_by_lid_Some)
  qed
  moreover have "wf_nodes d'"
    using assms(1,5) l unfolding wf_nodes_iff d' add_local_row_ids
    by (fastforce simp: sorted_wrt_append row_ids_def)
  moreover have "row_by_uid d' u = row_by_uid d u" if "u \<noteq> local_uid l" for u
  proof -
    have "find P (xs @ [y]) = find P xs" if "\<not> P y" for P :: "node_row \<Rightarrow> bool" and xs y
      using that by (induction xs) auto
    then show ?thesis
      using that l unfolding d' by (simp add: row_by_uid_def add_local_row_def Let_def fresh_row_def)
  qed
  ultimately show ?thesis by blast
qed

theorem local_row_is_found_by_its_stand_in_witness:
  "lid_of (snd (add_local_row empty_db ''v~r'' ''f'' False 7)) ''local~1'' = Some 1"
proof -
  obtain l d' where r: "add_local_row empty_db ''v~r'' ''f'' False 7 = (l, d')" by fastforce
  have l: "l = 1" using r by (simp add: add_local_row_def Let_def empty_db_def)
  have u: "local_uid 1 = ''local~1''" by code_simp
  have "lid_of d' (local_uid l) = Some l"
    using local_row_is_found_by_its_stand_in [OF _ _ _ r] by (simp add: wf_nodes_def empty_db_def)
  with r l u show ?thesis by simp
qed

section \<open>Shared listings\<close>

text \<open>The children of a folder whose row has local id \<open>pl\<close>, as the publication goes on.\<close>

definition only_known :: "lid \<Rightarrow> uid \<Rightarrow> uid list \<Rightarrow> uid set \<Rightarrow> db \<Rightarrow> bool" where
  "only_known pl parent accepted old d =
     (wf_nodes d \<and> (pl, parent) \<in> set (row_ids d) \<and>
      (\<forall>q \<in> set (nodes d). nr_parent_lid q = Some pl \<longrightarrow> nr_uid q \<in> set accepted \<union> old))"

lemma only_known_upsert:
  assumes "only_known pl parent accepted old d" and "node_uid n \<in> set accepted" and "parent \<notin> set accepted"
  shows "only_known pl parent accepted old (upsert_row d n)"
proof -
  have wf: "wf_nodes d" and pl: "(pl, parent) \<in> set (row_ids d)" using assms(1) by (auto simp: only_known_def)
  have wf': "wf_nodes (upsert_row d n)" using wf by (rule upsert_row_wf)
  have pl': "(pl, parent) \<in> set (row_ids (upsert_row d n))" using pl by (simp add: upsert_row_ids)
  have "nr_uid q \<in> set accepted \<union> old" if q: "q \<in> set (nodes (upsert_row d n))" "nr_parent_lid q = Some pl" for q
  proof (cases "nr_uid q = node_uid n")
    case False
    obtain r where r: "r \<in> set (nodes d)" "nr_uid q = nr_uid r"
      and "nr_parent_lid q = nr_parent_lid r \<or> (\<exists>m. nr_parent_lid q = Some m \<and> (m, node_uid n) \<in> set (row_ids (upsert_row d n)))"
      using upsert_row_others [OF q(1) False] by blast
    moreover have "(pl, node_uid n) \<notin> set (row_ids (upsert_row d n))"
      using row_ids_unique(1) [OF wf' pl'] assms(2,3) by blast
    ultimately have "nr_parent_lid r = Some pl" using q(2) by auto
    with r assms(1) show ?thesis by (auto simp: only_known_def)
  qed (use assms(2) in simp)
  with wf' pl' show ?thesis by (auto simp: only_known_def)
qed

lemma publish_nodes_known:
  assumes "only_known pl parent accepted old d" and "parent \<notin> set accepted"
    and "list_all (\<lambda>n. local_lid (node_uid n) = None) ns" and "publish_nodes accepted ns d = Some d1"
  shows "only_known pl parent accepted old d1"
  using assms
proof (induction ns arbitrary: d)
  case (Cons n ns)
  then have up: "upsert_node_tx d n = Some (upsert_row d n)"
    by (simp add: upsert_node_tx_def landed_uid_real)
  with Cons only_known_upsert [OF Cons.prems(1) _ Cons.prems(2)] show ?case
    by (cases "node_uid n \<in> set accepted") auto
qed simp

lemma fold_tombstone:
  assumes "u \<in> set us" and "(l, u) \<in> set (row_ids d)" and "below d l m"
  shows "hidden (fold (\<lambda>u e. tombstone_subtree_tx e u) us d) m"
  using assms
proof (induction us arbitrary: d)
  case (Cons v us)
  have sh: "shape (tombstone_subtree_tx d v) = shape d" by simp
  have same: "row_ids (tombstone_subtree_tx d v) = row_ids d" "below (tombstone_subtree_tx d v) = below d"
    by (simp_all add: fun_eq_iff below_def step_rel_def shape_determines(2) sh)
  have keep: "hidden e m \<Longrightarrow> hidden (fold (\<lambda>u e. tombstone_subtree_tx e u) us e) m" for e
    by (induction us arbitrary: e) (auto intro: tombstone_keeps_hidden)
  show ?case
  proof (cases "u = v")
    case True
    then have "m \<in> set (subtree_lids d v)"
      using Cons.prems(2,3) by (force simp: subtree_lids_below row_ids_def)
    then show ?thesis using keep tombstone_hides by simp
  next
    case False
    with Cons.prems Cons.IH [of "tombstone_subtree_tx d v"] same show ?thesis by simp
  qed
qed simp

lemma fold_tombstone_shape: "shape (fold (\<lambda>u e. tombstone_subtree_tx e u) us d) = shape d"
  by (induction us arbitrary: d) simp_all

lemma parent_key_lid:
  assumes "wf_nodes d" and "(pl, parent) \<in> set (row_ids d)" and "local_lid parent = None"
  shows "parent_key d parent r \<longleftrightarrow> nr_parent_lid r = Some pl"
proof -
  have "row_by_uid d parent \<noteq> None" by (metis assms(2) image_eqI row_by_uid_ids snd_conv)
  then obtain q where q: "row_by_uid d parent = Some q" by blast
  then have "(nr_lid q, parent) \<in> set (row_ids d)" by (auto simp: row_ids_def dest: row_by_uid_Some)
  then have "nr_lid q = pl" using row_ids_unique(2) [OF assms(1,2)] by blast
  with q assms(3) show ?thesis by (simp add: parent_key_def node_lid_def)
qed

text \<open>
  C30. Publishing a shared folder's listing withdraws what its owner took back: afterwards every
  row that a listing of the folder would show has a uid the owner listed, and every withdrawn
  child, with everything below it, is trashed in the table and gone from the search index.
\<close>

theorem published_listing_shows_only_what_the_owner_lists:
  assumes "wf_nodes d" and "(pl, parent) \<in> set (row_ids d)" and "local_lid parent = None" and "parent \<notin> set accepted"
    and "list_all (\<lambda>n. local_lid (node_uid n) = None) materialized"
    and "publish_foreign_children d parent accepted materialized = Some (removed, d')"
  shows "list_all (\<lambda>r. parent_key d' parent r \<and> shown r \<longrightarrow> nr_uid r \<in> set accepted) (nodes d') \<and>
         (\<forall>u l m. u \<in> set (direct_child_uids_tx d parent) - set accepted \<and> (l, u) \<in> set (row_ids d') \<and> below d' l m \<longrightarrow>
            list_all (\<lambda>r. nr_lid r = m \<longrightarrow> nr_trashed r) (nodes d') \<and> m \<notin> fst ` set (nodes_fts d'))"
proof -
  define gone where "gone = filter (\<lambda>u. u \<notin> set accepted) (direct_child_uids_tx d parent)"
  obtain d1 where d1: "publish_nodes accepted materialized d = Some d1"
    and d': "d' = mark_listed (fold (\<lambda>u e. tombstone_subtree_tx e u) gone d1) parent"
    using assms(6) by (auto simp: publish_foreign_children_def Let_def gone_def)
  let ?e = "fold (\<lambda>u e. tombstone_subtree_tx e u) gone d1"
  have "only_known pl parent accepted (set gone) d"
    using assms(1,2) parent_key_lid [OF assms(1-3)]
    by (auto simp: only_known_def gone_def direct_child_uids_tx_def)
  from publish_nodes_known [OF this assms(4,5) d1] have known: "only_known pl parent accepted (set gone) d1" .
  have shape: "shape d' = shape d1" unfolding d' by (simp add: fold_tombstone_shape)
  then have ids: "row_ids d' = row_ids d1" and step: "subtree_step d' = subtree_step d1"
    by (simp_all add: fun_eq_iff shape_determines(1,2))
  have nlid: "node_lid d' parent = node_lid d1 parent"
    unfolding shape_determines(3) shape ..
  have wf': "wf_nodes d1" "(pl, parent) \<in> set (row_ids d1)" using known by (auto simp: only_known_def)
  have hid: "list_all (\<lambda>r. nr_lid r = m \<longrightarrow> nr_trashed r) (nodes d') \<and> m \<notin> fst ` set (nodes_fts d')"
    if "u \<in> set gone" "(l, u) \<in> set (row_ids d')" "below d' l m" for u l m
  proof -
    have "hidden ?e m"
      by (rule fold_tombstone [OF that(1), of l]) (use that ids step in \<open>simp_all add: below_def\<close>)
    then show ?thesis
      unfolding d' by (auto simp: hidden_def mark_listed_def list_all_iff set_update_where)
  qed
  have "nr_uid r \<in> set accepted" if r: "r \<in> set (nodes d')" "parent_key d' parent r" "shown r" for r
  proof (rule ccontr)
    assume "nr_uid r \<notin> set accepted"
    have lu: "(nr_lid r, nr_uid r) \<in> set (row_ids d')" using r(1) by (auto simp: row_ids_def)
    have "place r \<in> set (shape d1)" using r(1) shape [symmetric] by (auto simp: shape_def)
    then obtain q where "q \<in> set (nodes d1)" "nr_uid q = nr_uid r" "nr_parent_lid q = nr_parent_lid r"
      by (auto simp: shape_def place_def)
    moreover have "parent_key d' parent r \<longleftrightarrow> nr_parent_lid r = Some pl"
      using parent_key_lid [OF wf' assms(3), of r] nlid by (simp add: parent_key_def)
    ultimately have "nr_uid r \<in> set gone"
      using known \<open>nr_uid r \<notin> set accepted\<close> r(2) by (auto simp: only_known_def)
    from hid [OF this lu] have "nr_trashed r" using r(1) by (auto simp: below_def list_all_iff)
    with r(3) show False by (simp add: shown_def)
  qed
  then have "list_all (\<lambda>r. parent_key d' parent r \<and> shown r \<longrightarrow> nr_uid r \<in> set accepted) (nodes d')"
    by (auto simp: list_all_iff)
  moreover have "u \<in> set gone" if "u \<in> set (direct_child_uids_tx d parent) - set accepted" for u
    using that by (simp add: gone_def)
  ultimately show ?thesis using hid by blast
qed

definition shared_demo :: db where
  "shared_demo = the (upsert_nodes empty_db [demo_node ''v~r'' None, demo_node ''v~a'' (Some ''v~r''),
     demo_node ''v~b'' (Some ''v~r''), demo_node ''v~c'' (Some ''v~b'')])"

definition shared_published :: "uid list \<times> db" where
  "shared_published = the (publish_foreign_children shared_demo ''v~r'' [''v~a''] [demo_node ''v~a'' (Some ''v~r'')])"

theorem published_listing_shows_only_what_the_owner_lists_witness:
  "fst shared_published = [''v~b''] \<and> list_ex (\<lambda>r. nr_uid r = ''v~c'' \<and> nr_lid r = 4) (nodes (snd shared_published)) \<and>
   4 \<notin> fst ` set (nodes_fts (snd shared_published))"
proof -
  obtain gone d' where r: "shared_published = (gone, d')" by fastforce
  have "publish_foreign_children shared_demo ''v~r'' [''v~a''] [demo_node ''v~a'' (Some ''v~r'')] \<noteq> None" by code_simp
  then have pub: "publish_foreign_children shared_demo ''v~r'' [''v~a''] [demo_node ''v~a'' (Some ''v~r'')] = Some (gone, d')"
    using r by (auto simp: shared_published_def)
  have pre: "wf_nodes shared_demo" "(1, ''v~r'') \<in> set (row_ids shared_demo)" "local_lid ''v~r'' = None" "''v~r'' \<notin> set [''v~a'']"
    "list_all (\<lambda>n. local_lid (node_uid n) = None) [demo_node ''v~a'' (Some ''v~r'')]"
    by code_simp+
  have child: "''v~b'' \<in> set (direct_child_uids_tx shared_demo ''v~r'') - set [''v~a'']" by code_simp
  have "(3, ''v~b'') \<in> set (row_ids (snd shared_published))" by code_simp
  moreover have "4 \<in> set (subtree_step (snd shared_published) 3)" by code_simp
  moreover have snd: "snd shared_published = d'" unfolding r by (rule snd_conv)
  ultimately have "(3, ''v~b'') \<in> set (row_ids d')" "below d' 3 4"
    unfolding snd below_def step_rel_def by (auto intro: r_into_rtrancl)
  with published_listing_shows_only_what_the_owner_lists [OF pre pub] child have "4 \<notin> fst ` set (nodes_fts d')"
    by blast
  moreover have "fst shared_published = [''v~b'']" "list_ex (\<lambda>r. nr_uid r = ''v~c'' \<and> nr_lid r = 4) (nodes (snd shared_published))"
    by code_simp+
  ultimately show ?thesis unfolding snd by blast
qed

end
