(* ===== verification/Inodes_Spec.thy ===== *)
theory Inodes_Spec
  imports Inodes Node_Table_Spec
begin

text \<open>
  What the inode bookkeeping promises: in every state the mount can reach, uids and inodes name
  each other, no two nodes share an inode, and an inode taken from a local id is one no other row
  has; a withdrawn share leaves nothing below it writable; the ancestor test is reachability; and a
  uid counts as visible only through a chain of visible folders up to a mounted root.
\<close>

section \<open>Inode numbers\<close>

text \<open>
  Inodes and local ids correspond: \<open>ino_lid\<close> undoes \<open>lid_ino\<close> on every id below the fallback
  range, distinct ids give distinct inodes, none of them is the root's inode or one that is numbered
  for this run, and every inode in the range is the inode of its local id.
\<close>

theorem inode_of_local_id_round_trip:
  assumes "0 < l" and "lid_ino l < FALLBACK_INO"
  shows "ino_lid (lid_ino l) = Some l \<and> lid_ino l \<noteq> ROOT_INO \<and>
         (\<forall>m. 0 < m \<longrightarrow> lid_ino m = lid_ino l \<longrightarrow> m = l) \<and>
         (\<forall>ino k. ino_lid ino = Some k \<longrightarrow> lid_ino k = ino \<and> 0 < k)"
  using assms by (auto simp: ino_lid_def lid_ino_def ROOT_INO_def split: if_splits)

theorem inode_of_local_id_round_trip_witness: "ino_lid (lid_ino 41) = Some 41 \<and> lid_ino 41 = 42"
  using inode_of_local_id_round_trip [of 41] by (simp add: lid_ino_def ROOT_INO_def FALLBACK_INO_def)

section \<open>Uids and inodes name each other\<close>

definition maps_agree :: "(nat \<times> entry) list \<Rightarrow> (uid \<times> nat) list \<Rightarrow> bool" where
  "maps_agree es us =
     ((\<forall>u i. map_of us u = Some i \<longrightarrow> (\<exists>e. map_of es i = Some e \<and> en_uid e = u)) \<and>
      (\<forall>i e. map_of es i = Some e \<longrightarrow> map_of us (en_uid e) = Some i \<and> node_uid (en_node e) = en_uid e))"

text \<open>
  An inode is numbered for this run, or it comes from a local id that was given out and that no row
  of another node has.
\<close>

definition number_ok :: "db \<Rightarrow> nat \<Rightarrow> nat \<Rightarrow> uid \<Rightarrow> bool" where
  "number_ok d next i u = ((FALLBACK_INO \<le> i \<and> i < next) \<or>
     (\<exists>l. i = lid_ino l \<and> 0 < l \<and> l \<le> nodes_seq d \<and> (\<forall>v. (l, v) \<in> set (row_ids d) \<longrightarrow> v = u)))"

definition db_ids_ok :: "db \<Rightarrow> bool" where
  "db_ids_ok d = (wf_nodes d \<and> (\<forall>p \<in> set (row_ids d). 0 < fst p) \<and> lid_ino (nodes_seq d) < FALLBACK_INO \<and> 0 \<le> nodes_seq d)"

definition inodes_ok :: "db \<times> state \<Rightarrow> bool" where
  "inodes_ok = (\<lambda>(d, st). wf_nodes d \<and> (\<forall>p \<in> set (row_ids d). 0 < fst p) \<and> 0 \<le> nodes_seq d \<and>
     FALLBACK_INO \<le> next_ino st \<and> maps_agree (entries st) (by_uid st) \<and>
     (\<forall>i e. entry_of st i = Some e \<longrightarrow> number_ok d (next_ino st) i (en_uid e)))"

text \<open>Changing what is recorded of a node, but not its uid, keeps all of it.\<close>

definition same_names :: "(nat \<times> entry) list \<Rightarrow> (nat \<times> entry) list \<Rightarrow> bool" where
  "same_names es es' = (\<forall>i. map_option (\<lambda>e. (en_uid e, node_uid (en_node e))) (map_of es' i) =
                           map_option (\<lambda>e. (en_uid e, node_uid (en_node e))) (map_of es i))"

lemma same_names_refl [simp]: "same_names es es"
  by (simp add: same_names_def)

lemma same_names_trans: "same_names es es1 \<Longrightarrow> same_names es1 es2 \<Longrightarrow> same_names es es2"
  by (simp add: same_names_def)

lemma same_names_update:
  "map_of es i = Some e \<Longrightarrow> en_uid e' = en_uid e \<Longrightarrow> node_uid (en_node e') = node_uid (en_node e) \<Longrightarrow>
     same_names es (AList.update i e' es)"
  by (auto simp: same_names_def update_conv')

lemma same_names_Some:
  assumes "same_names es es'"
  shows "map_of es' i = Some e' \<Longrightarrow> \<exists>e. map_of es i = Some e \<and> en_uid e = en_uid e' \<and> node_uid (en_node e) = node_uid (en_node e')"
    and "map_of es i = Some e \<Longrightarrow> \<exists>e'. map_of es' i = Some e' \<and> en_uid e' = en_uid e \<and> node_uid (en_node e') = node_uid (en_node e)"
  using assms [unfolded same_names_def, THEN spec, of i] by (auto simp: map_option_case split: option.splits)

lemma inodes_ok_same:
  assumes "inodes_ok (d, st)" and "same_names (entries st) (entries st')" and "by_uid st' = by_uid st"
    and "next_ino st' = next_ino st"
  shows "inodes_ok (d, st')"
proof -
  have ok: "maps_agree (entries st) (by_uid st)"
    and num: "\<And>i e. entry_of st i = Some e \<Longrightarrow> number_ok d (next_ino st) i (en_uid e)"
    using assms(1) by (auto simp: inodes_ok_def)
  have "\<exists>e. map_of (entries st') i = Some e \<and> en_uid e = u" if "map_of (by_uid st) u = Some i" for u i
    using that ok same_names_Some(2) [OF assms(2), of i] unfolding maps_agree_def by blast
  moreover have "map_of (by_uid st) (en_uid e) = Some i \<and> node_uid (en_node e) = en_uid e \<and> number_ok d (next_ino st) i (en_uid e)"
    if ie: "map_of (entries st') i = Some e" for i e
  proof -
    obtain e0 where e0: "entry_of st i = Some e0" "en_uid e0 = en_uid e" "node_uid (en_node e0) = node_uid (en_node e)"
      using same_names_Some(1) [OF assms(2) ie] by blast
    then have "ino_of st (en_uid e0) = Some i \<and> node_uid (en_node e0) = en_uid e0"
      using ok unfolding maps_agree_def by blast
    with e0 num [OF e0(1)] show ?thesis by simp
  qed
  ultimately show ?thesis
    using assms(1,3,4) unfolding inodes_ok_def maps_agree_def by auto
qed

section \<open>The descent\<close>

lemma walk_down_inv:
  assumes "P s" and "\<And>p s. P s \<Longrightarrow> P (snd (f p s))"
  shows "P (walk_down tree f queue seen s)"
  using assms
proof (induction tree f queue seen s rule: walk_down.induct)
  case (2 tree f p queue seen s)
  obtain b s' where f: "f p s = (b, s')" by (cases "f p s")
  with "2.prems"(2) [OF "2.prems"(1), of p] have "P s'" by simp
  with 2 f show ?case by (cases "p \<in> set seen") auto
qed simp

lemma set_access_names: "same_names es (fst s) \<Longrightarrow> same_names es (fst (set_access i a s))"
proof (cases "map_of (fst s) i")
  case (Some e)
  then have "same_names (fst s) (AList.update i (e\<lparr>en_access := a\<rparr>) (fst s))" by (rule same_names_update) simp_all
  then show "same_names es (fst s) \<Longrightarrow> ?thesis"
    using Some by (auto simp: set_access_def split_beta intro: same_names_trans)
qed (simp add: set_access_def split_beta)

lemma inherit_names: "same_names es (fst s) \<Longrightarrow> same_names es (fst (inherit shares a i s))"
  by (auto simp: inherit_def set_access_names split: option.split)

lemma fold_inherit_names: "same_names es (fst s) \<Longrightarrow> same_names es (fst (fold (inherit shares a) inos s))"
proof (induction inos arbitrary: s)
  case (Cons i inos)
  then show ?case using inherit_names by (metis fold_simps(2))
qed simp

lemma recompute_names: "same_names es (fst (walk_down tree (recompute_visit shares tree) q seen (es, [])))"
  by (rule walk_down_inv) (auto simp: recompute_visit_def fold_inherit_names split: option.split)

lemma viewer_names: "same_names es (fst (walk_down tree viewer_visit q seen (es, [])))"
  by (rule walk_down_inv) (auto simp: viewer_visit_def set_access_names)

lemma recompute_same:
  "same_names (entries st) (entries (snd (recompute_descendant_access i st)))"
  "by_uid (snd (recompute_descendant_access i st)) = by_uid st"
  "next_ino (snd (recompute_descendant_access i st)) = next_ino st"
  using recompute_names [of "entries st" "entries st" "st_share_access st" "[i]" "[]"]
  by (auto simp: recompute_descendant_access_def split: prod.split)

section \<open>Changes of the database keep the numbers\<close>

definition ids_step :: "db \<Rightarrow> db \<Rightarrow> bool" where
  "ids_step d d' = (wf_nodes d' \<and> nodes_seq d \<le> nodes_seq d' \<and>
     (\<forall>l v. (l, v) \<in> set (row_ids d') \<longrightarrow> (l, v) \<in> set (row_ids d) \<or> nodes_seq d < l))"

lemma ids_step_refl: "wf_nodes d \<Longrightarrow> ids_step d d"
  by (simp add: ids_step_def)

lemma ids_step_trans: "ids_step d e \<Longrightarrow> ids_step e f \<Longrightarrow> ids_step d f"
  unfolding ids_step_def by (meson le_less_trans order_trans)

lemma ids_step_same: "wf_nodes d \<Longrightarrow> row_ids d' = row_ids d \<Longrightarrow> nodes_seq d' = nodes_seq d \<Longrightarrow> ids_step d d'"
  by (auto simp: ids_step_def wf_nodes_iff)

lemma ids_step_append:
  assumes "wf_nodes d'" and "row_ids d' = row_ids d @ (if c then [(nodes_seq d + 1, u)] else [])"
    and "nodes_seq d' = nodes_seq d + (if c then 1 else 0)"
  shows "ids_step d d'"
  using assms by (auto simp: ids_step_def split: if_splits)

lemma ids_step_lids:
  assumes "wf_nodes d"
  shows "ids_step d (snd (lids_for d ns))"
  using assms
proof (induction ns arbitrary: d)
  case (Cons n ns)
  have one: "ids_step d (snd (lid_for d n))"
    by (rule ids_step_append [OF lid_for_wf [OF Cons.prems]]) (rule lid_for_ids)+
  with Cons.IH [OF lid_for_wf [OF Cons.prems, of n]] ids_step_trans show ?case
    by (auto simp: Let_def split_beta)
qed (simp add: ids_step_refl)

lemma ids_step_upsert_row: "wf_nodes d \<Longrightarrow> ids_step d (upsert_row d n)"
  by (rule ids_step_append [OF upsert_row_wf]) (simp_all add: upsert_row_ids)

lemma ids_step_upsert_fuel: "wf_nodes d \<Longrightarrow> upsert_node_fuel k d n = Some d' \<Longrightarrow> ids_step d d'"
  by (induction k d n rule: upsert_node_fuel.induct) (auto simp: ids_step_upsert_row split: option.splits)

lemma ids_step_upsert: "wf_nodes d \<Longrightarrow> upsert_nodes d ns = Some d' \<Longrightarrow> ids_step d d'"
proof (induction ns arbitrary: d)
  case (Cons n ns)
  then obtain e where e: "upsert_node_tx d n = Some e" "upsert_nodes e ns = Some d'"
    by (auto split: Option.bind_splits)
  then have "ids_step d e" using Cons.prems(1) ids_step_upsert_fuel unfolding upsert_node_tx_def by blast
  with Cons.IH [OF _ e(2)] show ?case by (meson ids_step_def ids_step_trans)
qed (simp add: ids_step_refl)

lemma sorted_wrt_filter_map: "sorted_wrt R (map f xs) \<Longrightarrow> sorted_wrt R (map f (filter P xs))"
  by (induction xs) auto

lemma ids_step_delete: "wf_nodes d \<Longrightarrow> ids_step d (delete_node d u)"
proof -
  assume wf: "wf_nodes d"
  have ids: "row_ids (delete_node d u) = filter (\<lambda>(_, v). v \<noteq> u) (row_ids d)" "nodes_seq (delete_node d u) = nodes_seq d"
    by (auto simp: delete_node_def Let_def row_ids_def delete_where_def filter_map comp_def split: option.split)
  with wf show ?thesis
    unfolding ids_step_def wf_nodes_iff
    by (auto simp: sorted_wrt_filter_map distinct_map_filter)
qed

lemma ids_step_listed: "wf_nodes d \<Longrightarrow> ids_step d (set_listed d u b)"
  by (rule ids_step_same) (simp_all add: set_listed_def row_ids_def row_ids_update)

lemma ids_step_share [simp]: "wf_nodes d \<Longrightarrow> ids_step d (set_share_access d u a)"
  "wf_nodes d \<Longrightarrow> ids_step d (delete_share_access d u)"
  by (rule ids_step_same, simp_all add: set_share_access_def delete_share_access_def row_ids_def)+

lemma ids_step_write: "wf_nodes d \<Longrightarrow> ids_step d (apply_write d w)"
  by (cases w) (auto simp: ids_step_delete ids_step_listed ids_step_refl ids_step_upsert split: option.split)

lemma ids_step_writes: "wf_nodes d \<Longrightarrow> ids_step d (foldl apply_write d ws)"
proof (induction ws arbitrary: d)
  case (Cons w ws)
  have one: "ids_step d (apply_write d w)" using Cons.prems by (rule ids_step_write)
  then have "wf_nodes (apply_write d w)" by (simp add: ids_step_def)
  from ids_step_trans [OF one Cons.IH [OF this]] show ?case by simp
qed (simp add: ids_step_refl)

lemma number_ok_step: "ids_step d d' \<Longrightarrow> number_ok d n i u \<Longrightarrow> n \<le> n' \<Longrightarrow> number_ok d' n' i u"
  unfolding number_ok_def ids_step_def by (metis leD order_trans less_le_trans)

lemma inodes_ok_step:
  assumes "inodes_ok (d, st)" and "ids_step d d'"
  shows "inodes_ok (d', st)"
proof -
  have "0 < l" if "(l, v) \<in> set (row_ids d')" for l v
    using assms that unfolding inodes_ok_def ids_step_def by fastforce
  moreover have "number_ok d' (next_ino st) i (en_uid e)" if "entry_of st i = Some e" for i e
    using assms(1) that number_ok_step [OF assms(2) _ order_refl] unfolding inodes_ok_def by blast
  ultimately show ?thesis
    using assms unfolding inodes_ok_def ids_step_def by auto
qed

section \<open>New entries\<close>

text \<open>An inode that is free for a uid: its number may be the uid's, and no entry of another uid has it.\<close>

definition fresh_ino :: "db \<Rightarrow> state \<Rightarrow> nat \<Rightarrow> uid \<Rightarrow> bool" where
  "fresh_ino d st i u = (number_ok d (next_ino st) i u \<and> (\<forall>e. entry_of st i = Some e \<longrightarrow> en_uid e = u))"

lemma lid_ino_inj: "0 < l \<Longrightarrow> 0 < m \<Longrightarrow> lid_ino l = lid_ino m \<Longrightarrow> l = m"
  by (simp add: lid_ino_def)

lemma lid_ino_bound: "0 \<le> l \<Longrightarrow> l \<le> m \<Longrightarrow> lid_ino m < n \<Longrightarrow> lid_ino l < n"
  by (simp add: lid_ino_def)

lemma fresh_ino_free:
  assumes "inodes_ok (d, st)" and "fresh_ino d st i u" and "ino_of st u = None"
  shows "entry_of st i = None" and "number_ok d (next_ino st) i u"
proof -
  show "number_ok d (next_ino st) i u" using assms(2) by (simp add: fresh_ino_def)
  show "entry_of st i = None"
  proof (cases "entry_of st i")
    case (Some e)
    then have "ino_of st (en_uid e) = Some i" using assms(1) by (auto simp: inodes_ok_def maps_agree_def)
    moreover have "en_uid e = u" using Some assms(2) by (simp add: fresh_ino_def)
    ultimately show ?thesis using assms(3) by simp
  qed simp
qed

lemma new_entry_fields [simp]:
  "entries (new_entry ino parent n a st) = AList.update ino \<lparr>en_uid = node_uid n, en_parent = parent, en_node = n,
     en_access = a, en_lookup_count = 1, en_open_count = 0, en_unlinked = False\<rparr> (entries st)"
  "by_uid (new_entry ino parent n a st) = AList.update (node_uid n) ino (by_uid st)"
  "next_ino (new_entry ino parent n a st) = next_ino st"
  by (simp_all add: new_entry_def put_entry_def)

lemma inodes_ok_put:
  assumes "inodes_ok (d, st)" and "entry_of st i = None" and "ino_of st u = None" and "number_ok d (next_ino st) i u"
    and "en_uid e = u" and "node_uid (en_node e) = u"
    and "entries st' = AList.update i e (entries st)" and "by_uid st' = AList.update u i (by_uid st)"
    and "next_ino st' = next_ino st"
  shows "inodes_ok (d, st')"
proof -
  have "maps_agree (entries st) (by_uid st)" using assms(1) by (simp add: inodes_ok_def)
  then have "maps_agree (entries st') (by_uid st')"
    using assms(2,3,5-8) unfolding maps_agree_def by (fastforce simp: update_conv' split: if_splits)
  with assms show ?thesis
    unfolding inodes_ok_def by (auto simp: update_conv' split: if_splits)
qed

lemma inodes_ok_new:
  assumes "inodes_ok (d, st)" and "fresh_ino d st ino (node_uid n)" and "ino_of st (node_uid n) = None"
  shows "inodes_ok (d, new_entry ino parent n a st)"
  by (rule inodes_ok_put [OF assms(1) fresh_ino_free(1) [OF assms] assms(3) fresh_ino_free(2) [OF assms]]) simp_all

text \<open>What is not a name can change.\<close>

lemma inodes_ok_fields:
  assumes "inodes_ok (d, st)" and "entries st' = entries st" and "by_uid st' = by_uid st" and "next_ino st' = next_ino st"
  shows "inodes_ok (d, st')"
  by (rule inodes_ok_same [OF assms(1)]) (use assms in simp_all)

lemma push_write_fields [simp]:
  "entries (push_write w st) = entries st" "by_uid (push_write w st) = by_uid st" "next_ino (push_write w st) = next_ino st"
  "children (push_write w st) = children st" "st_share_access (push_write w st) = st_share_access st"
  by (simp_all add: push_write_def)

lemma drop_child_fields [simp]:
  "entries (drop_child p i st) = entries st" "by_uid (drop_child p i st) = by_uid st" "next_ino (drop_child p i st) = next_ino st"
  by (simp_all add: drop_child_def split: option.split)

lemma add_child_fields [simp]:
  "entries (add_child p i st) = entries st" "by_uid (add_child p i st) = by_uid st" "next_ino (add_child p i st) = next_ino st"
  by (simp_all add: add_child_def split: option.split)

lemma note_changes_fields [simp]:
  "entries (note_changes c st) = entries st" "by_uid (note_changes c st) = by_uid st" "next_ino (note_changes c st) = next_ino st"
  by (simp_all add: note_changes_def)

lemma access_for_node_fields [simp]:
  "entries (snd (access_for_node p n st)) = entries st" "by_uid (snd (access_for_node p n st)) = by_uid st"
  "next_ino (snd (access_for_node p n st)) = next_ino st"
  by (simp_all add: access_for_node_def Let_def)

lemma with_claimed_size_uid [simp]: "node_uid (with_claimed_size s n) = node_uid n"
  by (simp add: with_claimed_size_def split: node_kind.split)

lemma keep_open_write_size_uid [simp]: "node_uid (keep_open_write_size st i n) = node_uid n"
  by (simp add: keep_open_write_size_def split: option.split)

lemma keep_revision_mtime_uid [simp]: "node_uid (keep_revision_mtime st n) = node_uid n"
  by (simp add: keep_revision_mtime_def split: option.split node_kind.split)

section \<open>Allocating inodes\<close>

lemma run_inos_fields:
  "entries (snd (run_inos ns st)) = entries st \<and> by_uid (snd (run_inos ns st)) = by_uid st \<and>
   next_ino (snd (run_inos ns st)) = next_ino st + length ns \<and>
   fst (run_inos ns st) = zip (map node_uid ns) [next_ino st..<next_ino st + length ns]"
proof (induction ns arbitrary: st)
  case (Cons n ns)
  have "[next_ino st..<next_ino st + Suc (length ns)] = next_ino st # [Suc (next_ino st)..<next_ino st + Suc (length ns)]"
    by (rule upt_conv_Cons) simp
  with Cons [of "st\<lparr>next_ino := next_ino st + 1\<rparr>"] show ?case by (simp add: split_beta del: upt_Suc)
qed simp

lemma number_ok_mono: "number_ok d n i u \<Longrightarrow> n \<le> n' \<Longrightarrow> number_ok d n' i u"
  unfolding number_ok_def by (meson order_less_le_trans)

lemma inodes_ok_next:
  assumes "inodes_ok (d, st)" and "entries st' = entries st" and "by_uid st' = by_uid st" and "next_ino st \<le> next_ino st'"
  shows "inodes_ok (d, st')"
proof -
  have "number_ok d (next_ino st') i u" if "number_ok d (next_ino st) i u" for i u
    using number_ok_mono [OF that assms(4)] .
  with assms show ?thesis unfolding inodes_ok_def by auto
qed

text \<open>While local ids stay below the fallback range, a number of it is the number of no row.\<close>

lemma number_ok_cases:
  assumes "number_ok d next i u" and "lid_ino (nodes_seq d) < FALLBACK_INO"
  obtains "FALLBACK_INO \<le> i" "i < next"
    | l where "i = lid_ino l" "0 < l" "l \<le> nodes_seq d" "i < FALLBACK_INO" "\<And>v. (l, v) \<in> set (row_ids d) \<Longrightarrow> v = u"
proof -
  have "lid_ino l < FALLBACK_INO" if "0 < l" "l \<le> nodes_seq d" for l
    using that assms(2) by (simp add: lid_ino_def)
  with assms(1) that show ?thesis unfolding number_ok_def by blast
qed

text \<open>
  What an allocation hands out: to each uid an inode that is free for it, no two the same, and none
  that another uid could have had before.
\<close>

definition hands_out :: "db \<times> state \<Rightarrow> (uid \<times> nat) list \<Rightarrow> db \<times> state \<Rightarrow> bool" where
  "hands_out = (\<lambda>(d, st) inos (d', st'). \<forall>u i. (u, i) \<in> set inos \<longrightarrow> fresh_ino d' st' i u \<and>
     (\<forall>v. (v, i) \<in> set inos \<or> number_ok d (next_ino st) i v \<longrightarrow> v = u))"

lemma run_hands_out:
  assumes "inodes_ok (d, st)" and "lid_ino (nodes_seq d) < FALLBACK_INO" and "run_inos ns st = (m, st1)"
  shows "hands_out (d, st) m (d, st1)" and "inodes_ok (d, st1)" and "(u, i) \<in> set m \<Longrightarrow> next_ino st \<le> i"
    and "fst ` set m = node_uid ` set ns"
proof -
  have r: "entries st1 = entries st" "by_uid st1 = by_uid st" "next_ino st1 = next_ino st + length ns"
    "m = zip (map node_uid ns) [next_ino st..<next_ino st + length ns]"
    using run_inos_fields [of ns st] assms(3) by auto
  have fb: "FALLBACK_INO \<le> next_ino st" using assms(1) by (simp add: inodes_ok_def)
  have num: "next_ino st \<le> i \<and> i < next_ino st1 \<and> u = node_uid (ns ! (i - next_ino st))" if "(u, i) \<in> set m" for u i
    using that unfolding r(3,4) by (auto simp: set_zip)
  show "(u, i) \<in> set m \<Longrightarrow> next_ino st \<le> i" using num by blast
  have new: "\<not> number_ok d (next_ino st) i v" if "next_ino st \<le> i" for i v
    using number_ok_cases [OF _ assms(2), of "next_ino st" i v] that fb by (metis leD order_trans)
  then have free: "entry_of st1 i = None" if "next_ino st \<le> i" for i
  proof (cases "entry_of st i")
    case (Some e)
    then have "number_ok d (next_ino st) i (en_uid e)" using assms(1) by (simp add: inodes_ok_def)
    with new [OF that] show ?thesis by blast
  qed (simp add: r(1))
  show "hands_out (d, st) m (d, st1)"
    unfolding hands_out_def fresh_ino_def number_ok_def [of _ "next_ino st1"] split_conv
    using num new free fb by (metis dual_order.trans option.distinct(1))
  show "inodes_ok (d, st1)" by (rule inodes_ok_next [OF assms(1)]) (use r in simp_all)
  have "map fst m = map node_uid ns" unfolding r(4) by simp
  then show "fst ` set m = node_uid ` set ns" by (metis image_set)
qed

lemma lids_hand_out:
  assumes "inodes_ok (d, st)" and "lids_for d ns = (ls, d1)" and "lid_ino (nodes_seq d1) < FALLBACK_INO"
  shows "hands_out (d, st) (zip (map node_uid ns) (map lid_ino ls)) (d1, st)" and "inodes_ok (d1, st)"
    and "(u, i) \<in> set (zip (map node_uid ns) (map lid_ino ls)) \<Longrightarrow> i < FALLBACK_INO"
    and "fst ` set (zip (map node_uid ns) (map lid_ino ls)) = node_uid ` set ns"
proof -
  have wf: "wf_nodes d" and spec: "wf_nodes d1" "length ls = length ns" "set (zip ls (map node_uid ns)) \<subseteq> set (row_ids d1)"
    using assms(1) lids_for_spec [of d ns] assms(2) by (auto simp: inodes_ok_def)
  have st: "ids_step d d1" using ids_step_lids [OF wf, of ns] assms(2) by simp
  show ok1: "inodes_ok (d1, st)" by (rule inodes_ok_step [OF assms(1) st])
  have pos: "0 < l \<and> l \<le> nodes_seq d1" if "(l, v) \<in> set (row_ids d1)" for l v
    using ok1 spec(1) that by (fastforce simp: inodes_ok_def wf_nodes_iff)
  have row: "\<exists>l. i = lid_ino l \<and> (l, v) \<in> set (row_ids d1)" if "(v, i) \<in> set (zip (map node_uid ns) (map lid_ino ls))" for v i
    using that spec(3) by (force simp: set_zip)
  show small: "i < FALLBACK_INO" if "(u, i) \<in> set (zip (map node_uid ns) (map lid_ino ls))" for u i
    using row [OF that] pos assms(3) by (fastforce simp: lid_ino_def)
  have one: "v = u" if lu: "(l, u) \<in> set (row_ids d1)" "number_ok d1 nx (lid_ino l) v" "lid_ino l < FALLBACK_INO" for l u v nx
    using number_ok_cases [OF lu(2) assms(3)] lu pos [OF lu(1)] lid_ino_inj by (metis leD)
  have ok: "number_ok d1 nx (lid_ino l) u" if "(l, u) \<in> set (row_ids d1)" for l u nx
    using that pos row_ids_unique(1) [OF spec(1) that] unfolding number_ok_def by blast
  have "fresh_ino d1 st i u \<and> (\<forall>v. (v, i) \<in> set (zip (map node_uid ns) (map lid_ino ls)) \<or> number_ok d (next_ino st) i v \<longrightarrow> v = u)"
    if ui: "(u, i) \<in> set (zip (map node_uid ns) (map lid_ino ls))" for u i
  proof -
    obtain l where l: "i = lid_ino l" "(l, u) \<in> set (row_ids d1)" using row [OF ui] by blast
    have all: "v = u" if "number_ok d1 (next_ino st) i v" for v using one l small [OF ui] that by blast
    have "number_ok d1 (next_ino st) i v" if "(v, i) \<in> set (zip (map node_uid ns) (map lid_ino ls))" for v
      using row [OF that] ok by blast
    moreover have "number_ok d1 (next_ino st) i (en_uid e)" if "entry_of st i = Some e" for e
      using ok1 that by (simp add: inodes_ok_def)
    ultimately show ?thesis
      using all ok [OF l(2)] l(1) number_ok_step [OF st _ order_refl] unfolding fresh_ino_def by metis
  qed
  then show "hands_out (d, st) (zip (map node_uid ns) (map lid_ino ls)) (d1, st)" unfolding hands_out_def split_conv by blast
  have "map fst (zip (map node_uid ns) (map lid_ino ls)) = map node_uid ns" using spec(2) by simp
  then show "fst ` set (zip (map node_uid ns) (map lid_ino ls)) = node_uid ` set ns" by (metis image_set)
qed

lemma hands_out_weaken:
  assumes "hands_out (d, st) m (d1, st1)" and "inodes_ok (d1, st1)" and "lid_ino (nodes_seq d1) < FALLBACK_INO"
    and "run_inos ns st1 = (m', st2)" and "(u, i) \<in> set m"
  shows "fresh_ino d1 st2 i u"
proof -
  have "entries st2 = entries st1" "next_ino st1 \<le> next_ino st2" using run_inos_fields [of ns st1] assms(4) by auto
  with assms(1,5) show ?thesis
    unfolding hands_out_def fresh_ino_def split_conv using number_ok_mono by metis
qed

lemma new_inos_ids: "wf_nodes d \<Longrightarrow> ids_step d (fst (snd (new_inos b ns (d, st))))"
  using ids_step_lids [of d "filter (\<lambda>n. \<not> is_virtual_uid (node_uid n)) ns"]
  by (auto simp: new_inos_def Let_def ids_step_refl split: prod.splits)

text \<open>\<open>new_inos\<close>: stored nodes by their rows (or for this run when the database fails), virtual ones for this run.\<close>

lemma new_inos_hands_out:
  assumes "inodes_ok (d, st)" and "new_inos b ns (d, st) = (m, d2, st2)" and "lid_ino (nodes_seq d2) < FALLBACK_INO"
    and "lid_ino (nodes_seq d) < FALLBACK_INO"
  shows "hands_out (d, st) m (d2, st2)" and "inodes_ok (d2, st2)" and "fst ` set m = node_uid ` set ns"
    and "entries st2 = entries st" and "by_uid st2 = by_uid st" and "ids_step d d2" and "next_ino st \<le> next_ino st2"
proof -
  let ?S = "filter (\<lambda>n. \<not> is_virtual_uid (node_uid n)) ns" and ?V = "filter (\<lambda>n. is_virtual_uid (node_uid n)) ns"
  have wf: "wf_nodes d" using assms(1) by (simp add: inodes_ok_def)
  obtain m1 st1 m2 where m: "m = m1 @ m2" and run2: "run_inos ?V st1 = (m2, st2)"
    and m1: "if b then \<exists>ls. lids_for d ?S = (ls, d2) \<and> m1 = zip (map node_uid ?S) (map lid_ino ls) \<and> st1 = st
             else run_inos ?S st = (m1, st1) \<and> d2 = d"
    using assms(2) unfolding new_inos_def Let_def
    by (cases "lids_for d ?S"; cases "run_inos ?S st") (auto split: prod.splits if_splits)
  have first: "hands_out (d, st) m1 (d2, st1) \<and> inodes_ok (d2, st1) \<and> fst ` set m1 = node_uid ` set ?S \<and>
      entries st1 = entries st \<and> by_uid st1 = by_uid st \<and> ids_step d d2 \<and> next_ino st \<le> next_ino st1 \<and> (\<forall>u i. (u, i) \<in> set m1 \<longrightarrow> i < next_ino st1)"
  proof (cases b)
    case True
    then obtain ls where ls: "lids_for d ?S = (ls, d2)" "m1 = zip (map node_uid ?S) (map lid_ino ls)" "st1 = st" using m1 by auto
    have "FALLBACK_INO \<le> next_ino st" using assms(1) by (simp add: inodes_ok_def)
    with lids_hand_out [OF assms(1) ls(1) assms(3)] ls ids_step_lids [OF wf, of ?S] show ?thesis
      by (fastforce simp del: set_filter)
  next
    case False
    then have run: "run_inos ?S st = (m1, st1)" "d2 = d" using m1 by auto
    with run_hands_out [OF assms(1,4) run(1)] run_inos_fields [of ?S st] ids_step_refl [OF wf] show ?thesis
      by (auto simp: set_zip simp del: set_filter)
  qed
  note second = run_hands_out [OF _ assms(3) run2]
  have st2: "entries st2 = entries st1" "by_uid st2 = by_uid st1" "next_ino st1 \<le> next_ino st2"
    using run_inos_fields [of ?V st1] run2 by auto
  have ok1: "inodes_ok (d2, st1)" using first by blast
  show "inodes_ok (d2, st2)" by (rule second(2) [OF ok1])
  show "entries st2 = entries st" "by_uid st2 = by_uid st" "ids_step d d2" "next_ino st \<le> next_ino st2"
    using st2 first by auto
  have "fst ` set m = node_uid ` set ?S \<union> node_uid ` set ?V" using first second(4) [OF ok1] unfolding m by (metis image_Un set_append)
  then show "fst ` set m = node_uid ` set ns" by auto
  have late: "next_ino st1 \<le> i" if "(u, i) \<in> set m2" for u i using second(3) [OF ok1 that] .
  have old: "number_ok d2 (next_ino st1) i v" if "number_ok d (next_ino st) i v" for i v
    using number_ok_step [of d d2] first that by blast
  show "hands_out (d, st) m (d2, st2)"
    using first second(1) [OF ok1] hands_out_weaken [OF _ ok1 assms(3) run2] late old
    unfolding m hands_out_def split_conv set_append Un_iff by (metis leD)
qed

section \<open>Operations that keep every name\<close>

definition keeps_names :: "state \<Rightarrow> state \<Rightarrow> bool" where
  "keeps_names st st' = (same_names (entries st) (entries st') \<and> by_uid st' = by_uid st \<and> next_ino st' = next_ino st)"

lemma keeps_names_trans: "keeps_names st st1 \<Longrightarrow> keeps_names st1 st2 \<Longrightarrow> keeps_names st st2"
  unfolding keeps_names_def by (metis same_names_trans)

lemma keeps_names_ok: "inodes_ok (d, st) \<Longrightarrow> keeps_names st st' \<Longrightarrow> inodes_ok (d, st')"
  unfolding keeps_names_def using inodes_ok_same by blast

lemma keeps_names_fresh: "fresh_ino d st i u \<Longrightarrow> keeps_names st st' \<Longrightarrow> fresh_ino d st' i u"
  unfolding fresh_ino_def keeps_names_def by (metis same_names_Some(1))

lemma keeps_names_fields [intro]:
  "entries st' = entries st \<Longrightarrow> by_uid st' = by_uid st \<Longrightarrow> next_ino st' = next_ino st \<Longrightarrow> keeps_names st st'"
  by (simp add: keeps_names_def)

lemma keeps_names_put:
  assumes "entry_of st i = Some e" and "en_uid e' = en_uid e" and "node_uid (en_node e') = node_uid (en_node e)"
  shows "keeps_names st (put_entry i e' st)"
  using same_names_update [OF assms] by (simp add: keeps_names_def put_entry_def)

lemma keeps_names_recompute: "keeps_names st (snd (recompute_descendant_access i st))"
  using recompute_same [where st = st and i = i] by (simp add: keeps_names_def)

lemma keeps_names_note [simp]: "keeps_names st (note_changes c st)" "keeps_names st (push_write w st)"
  "keeps_names st (drop_child p i st)" "keeps_names st (add_child p i st)" "keeps_names st (snd (access_for_node p n st))"
  "keeps_names st (invalidate_listing i st)" "keeps_names st (record_listed u st)" "keeps_names st (write_through n st)"
  by (rule keeps_names_fields; simp add: invalidate_listing_def record_listed_def write_through_def Let_def split: option.split)+

text \<open>An inode found under a uid is that of an entry with this uid, on the entry and on its node.\<close>

lemma ino_entry:
  assumes "inodes_ok (d, st)" and "ino_of st u = Some i"
  obtains e where "entry_of st i = Some e" "en_uid e = u" "node_uid (en_node e) = u"
proof -
  have ag: "maps_agree (entries st) (by_uid st)" using assms(1) by (simp add: inodes_ok_def)
  then obtain e where "entry_of st i = Some e" "en_uid e = u" using assms(2) unfolding maps_agree_def by blast
  with ag that show ?thesis unfolding maps_agree_def by blast
qed

lemma refresh_keeps_names:
  assumes "inodes_ok (d, st)" and "ino_of st (node_uid n) = Some ino"
  shows "keeps_names st (refresh_entry ino parent n a st)"
proof -
  obtain e where e: "entry_of st ino = Some e" "en_uid e = node_uid n" "node_uid (en_node e) = node_uid n"
    using ino_entry [OF assms] .
  define st1 where "st1 = put_entry ino (e\<lparr>en_node := keep_open_write_size st ino n, en_parent := parent, en_access := a\<rparr>) st"
  have one: "keeps_names st st1" unfolding st1_def by (rule keeps_names_put [OF e(1)]) (simp_all add: e)
  have "keeps_names st1 (note_changes c (snd (recompute_descendant_access ino (note_changes [ino] st1))))" for c
    by (rule keeps_names_trans [OF _ keeps_names_note(1)], rule keeps_names_trans [OF _ keeps_names_recompute]) simp
  with one show ?thesis
    using keeps_names_trans [OF one]
    by (auto simp: refresh_entry_def e(1) Let_def st1_def [symmetric] split_beta)
qed

lemma rename_keeps_names: "keeps_names st (rename_in_place ino p pu name st)"
proof (cases "entry_of st ino")
  case (Some e)
  define a where "a = (case map_of (st_share_access st) (en_uid e) of Some s \<Rightarrow> s | None \<Rightarrow> access_of st p Owner)"
  define n where "n = (en_node e)\<lparr>node_name := name, parent_uid := Some pu\<rparr>"
  define st1 where "st1 = put_entry ino (e\<lparr>en_parent := p, en_access := a, en_node := n\<rparr>) st"
  define st2 where "st2 = (if en_parent e \<noteq> p then add_child p ino (drop_child (en_parent e) ino st1) else st1)"
  have "keeps_names st st1" unfolding st1_def by (rule keeps_names_put [OF Some]) (simp_all add: n_def)
  moreover have "keeps_names st1 st2" unfolding st2_def by (auto intro: keeps_names_trans [of _ "drop_child (en_parent e) ino st1"])
  moreover have "keeps_names st2 (snd (recompute_descendant_access ino (push_write (Upsert [n]) st2)))"
    by (rule keeps_names_trans [OF _ keeps_names_recompute]) simp
  ultimately have "keeps_names st (snd (recompute_descendant_access ino (push_write (Upsert [n]) st2)))"
    using keeps_names_trans by blast
  then show ?thesis
    unfolding rename_in_place_def Some Let_def option.case(2) st2_def st1_def n_def a_def .
qed (auto simp: rename_in_place_def)

lemma relocate_keeps_names: "keeps_names st (relocate ino from_ino to_ino pu name st)"
  unfolding relocate_def Let_def
  using rename_keeps_names keeps_names_note(6) keeps_names_trans by (smt (verit, best))

lemma size_keeps_names: "keeps_names st (set_size ino n st)" "keeps_names st (touch_mtime ino t st)"
  by (auto simp: set_size_def touch_mtime_def intro: keeps_names_put split: option.split)

lemma pending_write_keeps_names: "keeps_names st (snd (record_pending_write ino n t st))"
  by (simp add: record_pending_write_def Let_def keeps_names_trans [OF size_keeps_names(1) size_keeps_names(2)])

lemma viewer_keeps_names:
  "walk_down (entries st) viewer_visit q seen (entries st, []) = (es, c) \<Longrightarrow> same_names (entries st) es"
  using viewer_names [of "entries st" "entries st" q seen] by simp

lemma downgrade_keeps_names: "keeps_names st (snd (downgrade_shared_subtree u st))"
  "keeps_names st (snd (downgrade_known_shared_access st))"
  by (auto simp: downgrade_shared_subtree_def downgrade_known_shared_access_def Let_def keeps_names_def
      simp del: walk_down.simps split: option.split prod.split dest: viewer_keeps_names)

lemma hide_keeps_names: "keeps_names st (hide_subtree_mem u st)"
proof (cases "Option.bind (ino_of st u) (entry_of st)")
  case None
  then show ?thesis by (auto simp: hide_subtree_mem_def split: option.splits)
next
  case (Some e)
  then obtain i where i: "ino_of st u = Some i" "entry_of st i = Some e" by (auto simp: bind_eq_Some_conv)
  have "keeps_names st (put_entry i (e\<lparr>en_node := (en_node e)\<lparr>trashed := True\<rparr>\<rparr>) st)"
    by (rule keeps_names_put [OF i(2)]) simp_all
  then have "keeps_names st (drop_child (en_parent e) i (put_entry i (e\<lparr>en_node := (en_node e)\<lparr>trashed := True\<rparr>\<rparr>) st))"
    by (rule keeps_names_trans) simp
  with i show ?thesis by (simp add: hide_subtree_mem_def Let_def keeps_names_def)
qed

lemma hide_root_keeps_names: "keeps_names st (snd (hide_shared_root u st))"
  using keeps_names_trans [OF downgrade_keeps_names(1) hide_keeps_names] by (simp add: hide_shared_root_def split_beta)

lemma hydrate_keeps_names: "keeps_names st (hydrate_access st)"
proof -
  have put: "entries (fold (\<lambda>(u, a) s. (push_write (SetShareAccess u a) s)\<lparr>st_share_access := AList.update u a (st_share_access s)\<rparr>) xs s) = entries s"
    "by_uid (fold (\<lambda>(u, a) s. (push_write (SetShareAccess u a) s)\<lparr>st_share_access := AList.update u a (st_share_access s)\<rparr>) xs s) = by_uid s"
    "next_ino (fold (\<lambda>(u, a) s. (push_write (SetShareAccess u a) s)\<lparr>st_share_access := AList.update u a (st_share_access s)\<rparr>) xs s) = next_ino s"
    for xs :: "(uid \<times> access) list" and s by (induction xs arbitrary: s) (auto simp: push_write_def)
  have "same_names es (map (\<lambda>(ino, e). (ino, case map_of m ino of Some a \<Rightarrow> e\<lparr>en_access := a\<rparr> | None \<Rightarrow> e)) es)" for es and m :: "(nat \<times> access) list"
    by (induction es) (auto simp: same_names_def split: option.split)
  then show ?thesis by (simp add: hydrate_access_def Let_def keeps_names_def put)
qed

section \<open>Interning\<close>

lemma new_entry_ok:
  assumes "inodes_ok (d, st)" and "fresh_ino d st i (node_uid n)" and "ino_of st (node_uid n) = None"
  shows "inodes_ok (d, new_entry i p n a st)" and "ino_of (new_entry i p n a st) (node_uid n) = Some i"
    and "\<And>v. ino_of st v \<noteq> None \<Longrightarrow> ino_of (new_entry i p n a st) v \<noteq> None"
    and "\<And>j v. fresh_ino d st j v \<Longrightarrow> j \<noteq> i \<Longrightarrow> fresh_ino d (new_entry i p n a st) j v"
  using inodes_ok_new [OF assms] by (auto simp: update_conv' fresh_ino_def)

lemma intern_at_ok:
  assumes "inodes_ok (d, st)" and "intern_mem_at b p n a given (d, st) = (i, d', st')"
    and "lid_ino (nodes_seq d') < FALLBACK_INO"
    and "case given of Some j \<Rightarrow> fresh_ino d st j (node_uid n) | None \<Rightarrow> lid_ino (nodes_seq d) < FALLBACK_INO"
  shows "inodes_ok (d', st') \<and> ino_of st' (node_uid n) = Some i"
proof (cases "ino_of st (node_uid n)")
  case (Some j)
  then have "d' = d" "i = j" "st' = refresh_entry j p n a st" using assms(2) by (auto simp: intern_mem_at_def)
  moreover have "keeps_names st st'" using refresh_keeps_names [OF assms(1) Some] \<open>st' = _\<close> by simp
  ultimately show ?thesis using keeps_names_ok [OF assms(1)] Some by (simp add: keeps_names_def)
next
  case none: None
  show ?thesis
  proof (cases given)
    case (Some j)
    with assms none show ?thesis using new_entry_ok(1,2) [OF assms(1) _ none] by (auto simp: intern_mem_at_def)
  next
    case None
    obtain m d1 st1 where r: "new_inos b [n] (d, st) = (m, d1, st1)" by (cases "new_inos b [n] (d, st)") auto
    with None none assms(2) have d1: "d' = d1" and i: "i = (case map_of m (node_uid n) of Some i \<Rightarrow> i | None \<Rightarrow> 0)"
      and st': "st' = new_entry i p n a st1"
      by (auto simp: intern_mem_at_def Let_def)
    note hand = new_inos_hands_out [OF assms(1) r]
    have lid: "lid_ino (nodes_seq d) < FALLBACK_INO" using assms(4) None by simp
    have "node_uid n \<in> fst ` set m" using hand(3) [OF _ lid] assms(3) d1 by simp
    then have "map_of m (node_uid n) = Some i" using i by (metis map_of_eq_None_iff option.case(2) option.exhaust)
    then have "fresh_ino d1 st1 i (node_uid n)"
      using hand(1) [OF _ lid] assms(3) d1 unfolding hands_out_def by (auto dest: map_of_SomeD)
    moreover have "ino_of st1 (node_uid n) = None" using hand(5) [OF _ lid] assms(3) d1 none by simp
    ultimately show ?thesis using new_entry_ok(1,2) [OF hand(2) [OF _ lid]] assms(3) d1 st' by simp
  qed
qed

text \<open>
  A batch: the numbers given beforehand are free for their uids and differ, every node has an inode
  or a number, and each node interned leaves the rest that way.
\<close>

definition provided :: "db \<Rightarrow> state \<Rightarrow> (uid \<times> nat) list \<Rightarrow> bool" where
  "provided d st inos = (\<forall>u i. map_of inos u = Some i \<longrightarrow> fresh_ino d st i u \<and> (\<forall>v. map_of inos v = Some i \<longrightarrow> v = u))"

lemma provided_step: "provided d st inos \<Longrightarrow> ids_step d d' \<Longrightarrow> provided d' st inos"
  unfolding provided_def fresh_ino_def using number_ok_step [OF _ _ order_refl] by blast

lemma inos_for_provided:
  assumes "inodes_ok (d, st)" and "inos_for b d ns = (inos, d1)" and "lid_ino (nodes_seq d1) < FALLBACK_INO"
  shows "provided d1 st inos \<and> ids_step d d1"
proof (cases "filter (\<lambda>n. \<not> is_virtual_uid (node_uid n)) ns = [] \<or> \<not> b")
  case True
  then have "inos = []" "d1 = d" using assms(2) by (auto simp: inos_for_def)
  then show ?thesis using assms(1) by (simp add: provided_def ids_step_refl inodes_ok_def)
next
  case False
  define stored where "stored = filter (\<lambda>n. \<not> is_virtual_uid (node_uid n)) ns"
  obtain ls where ls: "lids_for d stored = (ls, d1)" "inos = zip (map node_uid stored) (map lid_ino ls)"
    using assms(2) False unfolding inos_for_def stored_def by (auto simp: Let_def split: prod.splits)
  have "ids_step d d1" using ids_step_lids [of d stored] assms(1) ls(1) by (simp add: inodes_ok_def)
  with lids_hand_out(1) [OF assms(1) ls(1) assms(3)] show ?thesis
    unfolding ls(2) provided_def hands_out_def by (auto dest!: map_of_SomeD)
qed

lemma intern_each_ok:
  assumes "inodes_ok (d, st)" and "provided d st inos"
    and "\<And>n. n \<in> set ns \<Longrightarrow> ino_of st (node_uid n) \<noteq> None \<or> map_of inos (node_uid n) \<noteq> None"
  shows "inodes_ok (snd (intern_each b p ns inos (d, st))) \<and> fst (snd (intern_each b p ns inos (d, st))) = d \<and>
         map Some (fst (intern_each b p ns inos (d, st))) = map (\<lambda>n. ino_of (snd (snd (intern_each b p ns inos (d, st)))) (node_uid n)) ns \<and>
         (\<forall>u i. ino_of st u = Some i \<longrightarrow> ino_of (snd (snd (intern_each b p ns inos (d, st)))) u = Some i)"
  using assms
proof (induction ns arbitrary: inos st)
  case (Cons n ns)
  obtain a st1 where a: "access_for_node p n st = (a, st1)" by (cases "access_for_node p n st")
  have k1: "keeps_names st st1" using keeps_names_note(5) [of st p n] a by simp
  have ok1: "inodes_ok (d, st1)" and fresh1: "\<And>i u. fresh_ino d st i u \<Longrightarrow> fresh_ino d st1 i u"
    and same1: "ino_of st1 = ino_of st"
    using keeps_names_ok [OF Cons.prems(1) k1] keeps_names_fresh [OF _ k1] k1 by (auto simp: keeps_names_def)
  let ?u = "node_uid n"
  obtain i st2 where at: "intern_mem_at b p n a (map_of inos ?u) (d, st1) = (i, d, st2)"
    and ok2: "inodes_ok (d, st2)" "ino_of st2 ?u = Some i"
    and grow: "\<And>v j. ino_of st v = Some j \<Longrightarrow> ino_of st2 v = Some j"
    and keep: "\<And>j v. map_of inos v = Some j \<Longrightarrow> v \<noteq> ?u \<Longrightarrow> fresh_ino d st2 j v"
  proof (cases "ino_of st1 ?u")
    case (Some j)
    have kr: "keeps_names st1 (refresh_entry j p n a st1)" by (rule refresh_keeps_names [OF ok1 Some])
    then have "ino_of (refresh_entry j p n a st1) = ino_of st1" by (simp add: keeps_names_def)
    with that [of j "refresh_entry j p n a st1"] Some keeps_names_ok [OF ok1 kr] keeps_names_fresh [OF _ kr] fresh1 same1 Cons.prems(2)
    show thesis unfolding provided_def intern_mem_at_def by fastforce
  next
    case None
    then obtain j where j: "map_of inos ?u = Some j" using Cons.prems(3) [of n] same1 by auto
    have fr: "fresh_ino d st1 j ?u" using Cons.prems(2) j fresh1 unfolding provided_def by blast
    note new = new_entry_ok [OF ok1 fr None, where p = p and a = a]
    have "fresh_ino d (new_entry j p n a st1) k v" if "map_of inos v = Some k" "v \<noteq> ?u" for k v
      using new(4) that Cons.prems(2) j fresh1 unfolding provided_def by metis
    moreover have "ino_of (new_entry j p n a st1) v = Some k" if "ino_of st v = Some k" for k v
      using that None same1 by (auto simp: update_conv')
    ultimately show thesis
      using that [of j "new_entry j p n a st1"] None j new(1,2) by (simp add: intern_mem_at_def)
  qed
  let ?rest = "AList.delete ?u inos"
  have "provided d st2 ?rest"
    using Cons.prems(2) keep unfolding provided_def by (auto simp: delete_conv' split: if_splits)
  moreover have "ino_of st2 (node_uid m) \<noteq> None \<or> map_of ?rest (node_uid m) \<noteq> None" if "m \<in> set ns" for m
    using Cons.prems(3) [of m] that grow ok2(2) by (cases "node_uid m = ?u") (auto simp: delete_conv')
  ultimately have ih: "inodes_ok (snd (intern_each b p ns ?rest (d, st2))) \<and> fst (snd (intern_each b p ns ?rest (d, st2))) = d \<and>
      map Some (fst (intern_each b p ns ?rest (d, st2))) = map (\<lambda>n. ino_of (snd (snd (intern_each b p ns ?rest (d, st2)))) (node_uid n)) ns \<and>
      (\<forall>u i. ino_of st2 u = Some i \<longrightarrow> ino_of (snd (snd (intern_each b p ns ?rest (d, st2)))) u = Some i)"
    using Cons.IH [OF ok2(1)] by blast
  obtain inodes d3 st3 where r: "intern_each b p ns ?rest (d, st2) = (inodes, d3, st3)" by (cases "intern_each b p ns ?rest (d, st2)") auto
  have "intern_each b p (n # ns) inos (d, st) = (i # inodes, d3, st3)" by (simp add: a at r)
  with ih r ok2(2) grow show ?case by (auto simp del: intern_each.simps)
qed simp

lemma keep_mtime_uids [simp]: "node_uid \<circ> keep_revision_mtime st = node_uid"
  by (simp add: comp_def)

lemma map_of_fold_update:
  "map_of (fold (\<lambda>(u, i) m. AList.update u i m) extra inos) u = Some i \<Longrightarrow> (u, i) \<in> set extra \<or> map_of inos u = Some i"
proof (induction extra arbitrary: inos)
  case (Cons x extra)
  from Cons.IH [of "AList.update (fst x) (snd x) inos"] Cons.prems show ?case
    by (cases x) (auto simp: update_conv' split: if_splits)
qed simp

lemma map_of_fold_update_None:
  "map_of (fold (\<lambda>(u, i) m. AList.update u i m) extra inos) u = None \<longleftrightarrow> u \<notin> fst ` set extra \<and> map_of inos u = None"
  by (induction extra arbitrary: inos) (auto simp: update_conv' split: if_splits prod.splits)

lemma provided_extra:
  assumes "provided d st inos" and "hands_out (d, st) extra (d2, st2)" and "ids_step d d2" and "entries st2 = entries st"
    and "next_ino st \<le> next_ino st2"
  shows "provided d2 st2 (fold (\<lambda>(u, i) m. AList.update u i m) extra inos)"
proof -
  have old: "fresh_ino d2 st2 i u" if "fresh_ino d st i u" for i u
    using that assms(4) number_ok_step [OF assms(3) _ assms(5)] unfolding fresh_ino_def by auto
  have "fresh_ino d2 st2 i u \<and> (\<forall>v. map_of (fold (\<lambda>(u, i) m. AList.update u i m) extra inos) v = Some i \<longrightarrow> v = u)"
    if "map_of (fold (\<lambda>(u, i) m. AList.update u i m) extra inos) u = Some i" for u i
  proof (cases "(u, i) \<in> set extra")
    case True
    have "v = u" if "map_of inos v = Some i" for v
      using that True assms(1,2) unfolding provided_def hands_out_def fresh_ino_def split_conv by blast
    with True assms(2) show ?thesis unfolding hands_out_def split_conv using map_of_fold_update by metis
  next
    case False
    then have u: "map_of inos u = Some i" using map_of_fold_update that by metis
    have "v = u" if "(v, i) \<in> set extra" for v
      using that u assms(1,2) unfolding provided_def hands_out_def fresh_ino_def split_conv by metis
    moreover have "v = u" if "map_of inos v = Some i" for v using that u assms(1) unfolding provided_def by blast
    ultimately show ?thesis using old u assms(1) unfolding provided_def using map_of_fold_update by metis
  qed
  then show ?thesis unfolding provided_def by blast
qed

lemma intern_at_ids: "wf_nodes d \<Longrightarrow> ids_step d (fst (snd (intern_mem_at b p n a given (d, st))))"
  using new_inos_ids [of d b "[n]" st]
  by (auto simp: intern_mem_at_def Let_def ids_step_refl split: option.split prod.splits)

lemma intern_each_ids: "wf_nodes d \<Longrightarrow> ids_step d (fst (snd (intern_each b p ns inos (d, st))))"
proof (induction ns arbitrary: d st inos)
  case (Cons n ns)
  obtain a st1 where a: "access_for_node p n st = (a, st1)" by (cases "access_for_node p n st")
  obtain i d2 st2 where at: "intern_mem_at b p n a (map_of inos (node_uid n)) (d, st1) = (i, d2, st2)"
    by (metis prod.exhaust)
  have one: "ids_step d d2" using intern_at_ids [OF Cons.prems, of b p n a "map_of inos (node_uid n)" st1] at by simp
  then have "wf_nodes d2" by (simp add: ids_step_def)
  from ids_step_trans [OF one Cons.IH [OF this]] show ?case by (simp add: a at split_beta)
qed (simp add: ids_step_refl)

lemma batch_ok:
  assumes "inodes_ok (d, st)" and "provided d st inos"
    and "intern_batch_with_inos b p ns inos (d, st) = (r, d', st')" and "lid_ino (nodes_seq d') < FALLBACK_INO"
  shows "inodes_ok (d', st') \<and> map Some r = map (\<lambda>n. ino_of st' (node_uid n)) ns \<and>
         (\<forall>u i. ino_of st u = Some i \<longrightarrow> ino_of st' u = Some i)"
proof -
  define ns1 where "ns1 = map (keep_revision_mtime st) ns"
  define st1 where "st1 = push_write (Upsert ns1) st"
  define need where "need = filter (\<lambda>n. ino_of st (node_uid n) = None \<and> map_of inos (node_uid n) = None) ns1"
  obtain extra d2 st2 where ex: "(extra, d2, st2) = (if need = [] then ([], d, st1) else new_inos b need (d, st1))"
    by (metis prod.exhaust)
  let ?all = "fold (\<lambda>(u, i) m. AList.update u i m) extra inos"
  have run: "intern_each b p ns1 ?all (d2, st2) = (r, d', st')"
    using assms(3) ex [symmetric] unfolding intern_batch_with_inos_def Let_def ns1_def st1_def need_def by simp
  have wf: "wf_nodes d" using assms(1) by (simp add: inodes_ok_def)
  have s2: "ids_step d d2" using new_inos_ids [OF wf, of b need st1] ex ids_step_refl [OF wf] by (metis fst_conv snd_conv)
  then have "wf_nodes d2" by (simp add: ids_step_def)
  from intern_each_ids [OF this, of b p ns1 ?all st2] s2 run have "nodes_seq d \<le> nodes_seq d2" "nodes_seq d2 \<le> nodes_seq d'"
    by (auto simp: ids_step_def)
  then have small: "lid_ino (nodes_seq d) < FALLBACK_INO" "lid_ino (nodes_seq d2) < FALLBACK_INO"
    using lid_ino_bound [OF _ _ assms(4)] assms(1) by (auto simp: inodes_ok_def)
  have k1: "keeps_names st st1" unfolding st1_def by simp
  then have ok1: "inodes_ok (d, st1)" "provided d st1 inos"
    using keeps_names_ok [OF assms(1) k1] assms(2) keeps_names_fresh [OF _ k1] unfolding provided_def by blast+
  have two: "inodes_ok (d2, st2) \<and> provided d2 st2 ?all \<and> by_uid st2 = by_uid st \<and> fst ` set extra = node_uid ` set need"
  proof (cases "need = []")
    case True
    then have "extra = []" "d2 = d" "st2 = st1" using ex by auto
    with ok1 k1 True show ?thesis by (simp add: keeps_names_def)
  next
    case False
    then have new: "new_inos b need (d, st1) = (extra, d2, st2)" using ex by simp
    note hand = new_inos_hands_out [OF ok1(1) new small(2,1)]
    from provided_extra [OF ok1(2) hand(1,6,4,7)] hand k1 show ?thesis by (simp add: keeps_names_def)
  qed
  have "ino_of st2 (node_uid n) \<noteq> None \<or> map_of ?all (node_uid n) \<noteq> None" if "n \<in> set ns1" for n
    using that two unfolding map_of_fold_update_None need_def by auto
  from intern_each_ok [where d = d2 and st = st2 and inos = ?all and ns = ns1 and b = b and p = p, OF _ _ this] two run have "inodes_ok (d', st') \<and>
      map Some r = map (\<lambda>n. ino_of st' (node_uid n)) ns1 \<and> (\<forall>u i. ino_of st2 u = Some i \<longrightarrow> ino_of st' u = Some i)"
    by auto
  with two show ?thesis by (auto simp: ns1_def comp_def)
qed

section \<open>Roots, forgetting, unlinking\<close>

text \<open>The invariant reads the maps only through lookups.\<close>

lemma inodes_ok_map_of:
  assumes "inodes_ok (d, st)" and "entry_of st' = entry_of st" and "ino_of st' = ino_of st" and "next_ino st' = next_ino st"
  shows "inodes_ok (d, st')"
  using assms unfolding inodes_ok_def maps_agree_def by simp

lemma inodes_ok_put_same:
  assumes "inodes_ok (d, st)" and "ino_of st u = Some i" and "en_uid e' = u" and "node_uid (en_node e') = u"
  shows "keeps_names st (put_entry i e' st)"
  using ino_entry [OF assms(1,2)] keeps_names_put assms(3,4) by metis

lemma install_root_ok:
  assumes "inodes_ok (d, st)" and "install_root b n (d, st) = (i, d', st')" and "lid_ino (nodes_seq d') < FALLBACK_INO"
  shows "inodes_ok (d', st') \<and> ino_of st' (node_uid n) = Some i"
proof -
  define u where "u = node_uid n"
  define d1 where "d1 = delete_share_access (if b then (case upsert_nodes d [n] of Some d' \<Rightarrow> d' | None \<Rightarrow> d) else d) u"
  define st1 where "st1 = st\<lparr>st_share_access := AList.delete u (st_share_access st)\<rparr>"
  obtain j d2 st2 where alloc: "(j, d2, st2) = (case ino_of st1 u of
             Some i \<Rightarrow> (i, d1, st1)
           | None \<Rightarrow> (case new_inos b [n] (d1, st1) of
                 (m, d', st') \<Rightarrow> (case map_of m u of Some i \<Rightarrow> i | None \<Rightarrow> 0, d', st')))"
    by (metis prod.exhaust)
  define st3 where "st3 = (case entry_of st2 j of
             Some e \<Rightarrow> (if en_parent e \<noteq> j then drop_child (en_parent e) j st2 else st2)
           | None \<Rightarrow> st2)"
  define looked where "looked = (case entry_of st3 j of Some e \<Rightarrow> max (en_lookup_count e) 1 | None \<Rightarrow> 1)"
  define e where "e = \<lparr>en_uid = u, en_parent = j, en_node = n, en_access = Owner,
                 en_lookup_count = looked, en_open_count = 0, en_unlinked = False\<rparr>"
  have eq: "install_root b n (d, st) = (j, d2, (put_entry j e st3)\<lparr>by_uid := AList.update u j (by_uid (put_entry j e st3)),
       roots := List.insert j (roots (put_entry j e st3))\<rparr>)"
    unfolding install_root_def Let_def split_conv e_def looked_def st3_def
      alloc [symmetric, unfolded st1_def d1_def u_def] u_def st1_def d1_def by (rule refl)
  have res: "i = j" "d' = d2" "st' = (put_entry j e st3)\<lparr>by_uid := AList.update u j (by_uid (put_entry j e st3)),
       roots := List.insert j (roots (put_entry j e st3))\<rparr>"
    using assms(2) unfolding eq by auto
  have k3: "keeps_names st2 st3" unfolding st3_def by (auto split: option.split)
  have eu: "en_uid e = u" "node_uid (en_node e) = u" by (simp_all add: e_def u_def)
  have wf: "wf_nodes d" and nn: "0 \<le> nodes_seq d" using assms(1) by (auto simp: inodes_ok_def)
  have "ids_step d (if b then (case upsert_nodes d [n] of Some d' \<Rightarrow> d' | None \<Rightarrow> d) else d)"
    using ids_step_upsert [OF wf, of "[n]"] ids_step_refl [OF wf] by (auto simp del: upsert_nodes.simps split: option.split)
  moreover from this have "ids_step (if b then (case upsert_nodes d [n] of Some d' \<Rightarrow> d' | None \<Rightarrow> d) else d) d1"
    unfolding d1_def by (intro ids_step_share(2)) (simp add: ids_step_def)
  ultimately have s1: "ids_step d d1" by (rule ids_step_trans)
  have ok1: "inodes_ok (d1, st1)"
    by (rule inodes_ok_step [OF keeps_names_ok [OF assms(1)] s1]) (auto simp: st1_def)
  show ?thesis
  proof (cases "ino_of st1 u")
    case (Some k)
    then have "j = k" "d2 = d1" "st2 = st1" using alloc by auto
    then have ok3: "inodes_ok (d2, st3)" "ino_of st3 u = Some j" using k3 keeps_names_ok [OF ok1] Some by (auto simp: keeps_names_def)
    then have "keeps_names st3 (put_entry j e st3)" using inodes_ok_put_same eu by metis
    then have "inodes_ok (d2, put_entry j e st3)" "ino_of (put_entry j e st3) u = Some j"
      using keeps_names_ok [OF ok3(1)] ok3(2) by (auto simp: keeps_names_def)
    then have "inodes_ok (d2, st')" unfolding res(3)
      by (auto intro!: inodes_ok_map_of [of d2 "put_entry j e st3"] simp: update_conv')
    then show ?thesis using res by (simp add: update_conv' u_def)
  next
    case None
    obtain m where new: "new_inos b [n] (d1, st1) = (m, d2, st2)" "j = (case map_of m u of Some i \<Rightarrow> i | None \<Rightarrow> 0)"
      using alloc None by (auto split: prod.splits)
    have "ids_step d1 d2" using new_inos_ids [of d1 b "[n]" st1] new(1) ok1 by (simp add: inodes_ok_def)
    then have small: "lid_ino (nodes_seq d2) < FALLBACK_INO" "lid_ino (nodes_seq d1) < FALLBACK_INO"
      using assms(3) res(2) lid_ino_bound ok1 by (auto simp: ids_step_def inodes_ok_def)
    note hand = new_inos_hands_out [OF ok1 new(1) small]
    have "u \<in> fst ` set m" using hand(3) by (simp add: u_def)
    then have "map_of m u = Some j" using new(2) by (metis map_of_eq_None_iff option.case(2) option.exhaust)
    then have "fresh_ino d2 st2 j u" using hand(1) unfolding hands_out_def by (auto dest: map_of_SomeD)
    then have fr: "fresh_ino d2 st3 j u" by (rule keeps_names_fresh [OF _ k3])
    have ok3: "inodes_ok (d2, st3)" by (rule keeps_names_ok [OF hand(2) k3])
    have no: "ino_of st3 u = None" using k3 hand(5) None by (simp add: keeps_names_def)
    have "inodes_ok (d2, st')"
      by (rule inodes_ok_put [OF ok3 fresh_ino_free(1) [OF ok3 fr no] no fresh_ino_free(2) [OF ok3 fr no] eu])
        (simp_all add: res(3) put_entry_def)
    then show ?thesis using res by (simp add: update_conv' u_def put_entry_def)
  qed
qed

lemma forget_mem_ok:
  assumes "inodes_ok (d, st)"
  shows "inodes_ok (d, snd (forget_mem u st))"
proof (cases "ino_of st u")
  case (Some i)
  then obtain e where e: "entry_of st i = Some e" "en_uid e = u" using ino_entry [OF assms] by metis
  have "entries (snd (forget_mem u st)) = AList.delete i (entries st)" "by_uid (snd (forget_mem u st)) = AList.delete u (by_uid st)"
    "next_ino (snd (forget_mem u st)) = next_ino st"
    using Some e by (simp_all add: forget_mem_def Let_def)
  moreover have "maps_agree (AList.delete i (entries st)) (AList.delete u (by_uid st))"
  proof -
    have ag: "\<And>v k. ino_of st v = Some k \<Longrightarrow> \<exists>x. entry_of st k = Some x \<and> en_uid x = v"
      "\<And>k x. entry_of st k = Some x \<Longrightarrow> ino_of st (en_uid x) = Some k \<and> node_uid (en_node x) = en_uid x"
      using assms unfolding inodes_ok_def maps_agree_def by blast+
    have "\<exists>x. map_of (AList.delete i (entries st)) k = Some x \<and> en_uid x = v" if "map_of (AList.delete u (by_uid st)) v = Some k" for v k
    proof -
      from that have v: "v \<noteq> u" "ino_of st v = Some k" by (auto simp: delete_conv' split: if_splits)
      with ag(1) e have "k \<noteq> i" by fastforce
      with ag(1) [OF v(2)] show ?thesis by (simp add: delete_conv')
    qed
    moreover have "map_of (AList.delete u (by_uid st)) (en_uid x) = Some k \<and> node_uid (en_node x) = en_uid x"
      if "map_of (AList.delete i (entries st)) k = Some x" for k x
    proof -
      from that have k: "k \<noteq> i" "entry_of st k = Some x" by (auto simp: delete_conv' split: if_splits)
      with ag(2) Some have "en_uid x \<noteq> u" by fastforce
      with ag(2) [OF k(2)] show ?thesis by (simp add: delete_conv')
    qed
    ultimately show ?thesis unfolding maps_agree_def by blast
  qed
  ultimately show ?thesis using assms unfolding inodes_ok_def by (auto simp: delete_conv' split: if_splits)
qed (use assms in \<open>simp add: forget_mem_def\<close>)

lemma unlink_or_ok:
  assumes "inodes_ok (d, st)" and "inodes_ok (d, snd (closed u st))"
  shows "inodes_ok (d, snd (unlink_or closed u st))"
proof (cases "Option.bind (ino_of st u) (\<lambda>ino. map_option (\<lambda>e. (ino, e)) (entry_of st ino))")
  case (Some ie)
  then obtain i e where ie: "ie = (i, e)" "entry_of st i = Some e" by (auto simp: bind_eq_Some_conv)
  have "keeps_names st (put_entry i (e\<lparr>en_unlinked := True\<rparr>) st)" by (rule keeps_names_put [OF ie(2)]) simp_all
  then have "keeps_names st (drop_child (en_parent e) i (put_entry i (e\<lparr>en_unlinked := True\<rparr>) st))"
    by (rule keeps_names_trans) simp
  from keeps_names_ok [OF assms(1) this] assms(2) show ?thesis by (simp add: unlink_or_def Some ie(1))
qed (use assms(2) in \<open>simp add: unlink_or_def\<close>)

lemma forget_ok: "inodes_ok (d, st) \<Longrightarrow> inodes_ok (d, snd (forget u st))"
  unfolding forget_def using forget_mem_ok keeps_names_ok keeps_names_note(2) by metis

lemma count_keeps_names: "entry_of st i = Some e \<Longrightarrow> keeps_names st (put_entry i (e\<lparr>en_lookup_count := c\<rparr>) st)"
  "entry_of st i = Some e \<Longrightarrow> keeps_names st (put_entry i (e\<lparr>en_open_count := c\<rparr>) st)"
  by (simp_all add: keeps_names_put)

lemma forget_lookup_ok:
  assumes "inodes_ok (d, st)"
  shows "inodes_ok (d, snd (forget_lookup i k st))"
proof (cases "entry_of st i")
  case (Some e)
  have "inodes_ok (d, put_entry i (e\<lparr>en_lookup_count := c\<rparr>) st)" for c
    by (rule keeps_names_ok [OF assms count_keeps_names(1) [OF Some]])
  then show ?thesis using forget_ok by (simp add: forget_lookup_def Some Let_def)
qed (use assms in \<open>simp add: forget_lookup_def\<close>)

lemma release_ok:
  assumes "inodes_ok (d, st)"
  shows "inodes_ok (d, snd (release_unlinked_entry i st))"
proof (cases "entry_of st i")
  case (Some e)
  have "inodes_ok (d, put_entry i (e\<lparr>en_open_count := c\<rparr>) st)" for c
    by (rule keeps_names_ok [OF assms count_keeps_names(2) [OF Some]])
  then show ?thesis using forget_mem_ok by (simp add: release_unlinked_entry_def Some Let_def)
qed (use assms in \<open>simp add: release_unlinked_entry_def\<close>)

lemma drop_guard_ok: "inodes_ok (d, st) \<Longrightarrow> inodes_ok (drop_guard d st)"
  unfolding drop_guard_def
  by (rule inodes_ok_step [OF keeps_names_ok ids_step_writes]) (auto simp: inodes_ok_def)

section \<open>The mount as a transition system\<close>

text \<open>
  A step is one operation under the state lock, or the release of the lock with its writes. Numbers
  for a listing are asked of the database before the lock is taken (\<open>inos_for\<close>), so a batch comes with
  numbers that are free for their uids when it runs; a change of the database elsewhere is one that
  gives no row the local id of another. Local ids stay below the fallback range.
\<close>

inductive inode_step :: "db \<times> state \<Rightarrow> db \<times> state \<Rightarrow> bool" where
  intern: "intern b p n (d, st) = (i, d', st') \<Longrightarrow> lid_ino (nodes_seq d') < FALLBACK_INO \<Longrightarrow> inode_step (d, st) (d', st')"
| intern_from_db: "intern_from_db b p n (d, st) = (i, d', st') \<Longrightarrow> lid_ino (nodes_seq d') < FALLBACK_INO \<Longrightarrow> inode_step (d, st) (d', st')"
| share_root: "intern_published_share_root b p n a (d, st) = (i, d', st') \<Longrightarrow> lid_ino (nodes_seq d') < FALLBACK_INO \<Longrightarrow> inode_step (d, st) (d', st')"
| batch: "intern_batch_with_inos b p ns inos (d, st) = (r, d', st') \<Longrightarrow> provided d st inos \<Longrightarrow> lid_ino (nodes_seq d') < FALLBACK_INO \<Longrightarrow>
    inode_step (d, st) (d', st')"
| install_root: "install_root b n (d, st) = (i, d', st') \<Longrightarrow> lid_ino (nodes_seq d') < FALLBACK_INO \<Longrightarrow> inode_step (d, st) (d', st')"
| forget: "inode_step (d, st) (d, snd (forget u st))"
| forget_mem: "inode_step (d, st) (d, snd (forget_mem u st))"
| forget_or_unlink: "inode_step (d, st) (d, snd (forget_or_unlink u st))"
| unlink_mem: "inode_step (d, st) (d, snd (unlink_mem u st))"
| forget_lookup: "inode_step (d, st) (d, snd (forget_lookup i k st))"
| release: "inode_step (d, st) (d, snd (release_unlinked_entry i st))"
| relocate: "inode_step (d, st) (d, relocate i f t tu name st)"
| rename: "inode_step (d, st) (d, rename_in_place i p pu name st)"
| listed: "inode_step (d, st) (d, record_listed u st)"
| invalidate: "inode_step (d, st) (d, invalidate_listing i st)"
| written: "inode_step (d, st) (d, snd (record_pending_write i k t st))"
| downgrade: "inode_step (d, st) (d, snd (downgrade_shared_subtree u st))"
| downgrade_all: "inode_step (d, st) (d, snd (downgrade_known_shared_access st))"
| hide_root: "inode_step (d, st) (d, snd (hide_shared_root u st))"
| hide_subtree: "inode_step (d, st) (d, hide_foreign_subtree u st)"
| hydrate: "inode_step (d, st) (d, hydrate_access st)"
| unlock: "inode_step (d, st) (drop_guard d st)"
| elsewhere: "ids_step d d' \<Longrightarrow> inode_step (d, st) (d', st)"

definition inode_init :: "db \<times> state \<Rightarrow> bool" where
  "inode_init = (\<lambda>(d, st). wf_nodes d \<and> (\<forall>p \<in> set (row_ids d). 0 < fst p) \<and> 0 \<le> nodes_seq d \<and> (\<exists>shares. st = state_new shares))"

lemma intern_mem_ok:
  assumes "inodes_ok (d, st)" and "intern_mem b p n (d, st) = (i, d', st')" and "lid_ino (nodes_seq d') < FALLBACK_INO"
  shows "inodes_ok (d', st') \<and> ino_of st' (node_uid n) = Some i"
proof -
  obtain a st1 where a: "access_for_node p n st = (a, st1)" by (cases "access_for_node p n st")
  have ok1: "inodes_ok (d, st1)" using keeps_names_ok [OF assms(1) keeps_names_note(5) [of st p n]] a by simp
  have run: "intern_mem_at b p n a None (d, st1) = (i, d', st')" using assms(2) a by (simp add: intern_mem_def)
  have "ids_step d d'" using intern_at_ids [of d b p n a None st1] run ok1 by (simp add: inodes_ok_def)
  then have "lid_ino (nodes_seq d) < FALLBACK_INO"
    using lid_ino_bound [OF _ _ assms(3)] ok1 by (simp add: ids_step_def inodes_ok_def)
  with intern_at_ok [OF ok1 run assms(3)] show ?thesis by simp
qed

lemma intern_ok:
  assumes "inodes_ok (d, st)" and "intern b p n (d, st) = (i, d', st')" and "lid_ino (nodes_seq d') < FALLBACK_INO"
  shows "inodes_ok (d', st') \<and> ino_of st' (node_uid n) = Some i"
  using intern_mem_ok [OF keeps_names_ok [OF assms(1) keeps_names_note(2)] _ assms(3)] assms(2)
  by (metis (no_types, lifting) case_prod_conv intern_def keep_revision_mtime_uid)

lemma share_root_ok:
  assumes "inodes_ok (d, st)" and "intern_published_share_root b p n a (d, st) = (i, d', st')"
    and "lid_ino (nodes_seq d') < FALLBACK_INO"
  shows "inodes_ok (d', st')"
proof -
  define st1 where "st1 = st\<lparr>st_share_access := AList.update (node_uid n) a (st_share_access st)\<rparr>"
  have ok1: "inodes_ok (d, st1)" by (rule keeps_names_ok [OF assms(1)]) (auto simp: st1_def)
  have run: "intern_mem_at b p n a None (d, st1) = (i, d', st')"
    using assms(2) by (simp add: intern_published_share_root_def st1_def)
  have "ids_step d d'" using intern_at_ids [of d b p n a None st1] run ok1 by (simp add: inodes_ok_def)
  then have "lid_ino (nodes_seq d) < FALLBACK_INO"
    using lid_ino_bound [OF _ _ assms(3)] ok1 by (simp add: ids_step_def inodes_ok_def)
  with intern_at_ok [OF ok1 run assms(3)] show ?thesis by simp
qed

lemma inode_step_ok: "inode_step s t \<Longrightarrow> inodes_ok s \<Longrightarrow> inodes_ok t"
proof (induction rule: inode_step.induct)
  case (intern b p n d st i d' st')
  then show ?case using intern_ok by blast
next
  case (intern_from_db b p n d st i d' st')
  then show ?case using intern_mem_ok unfolding intern_from_db_def by blast
next
  case (share_root b p n a d st i d' st')
  then show ?case using share_root_ok by blast
next
  case (batch b p ns inos d st r d' st')
  then show ?case using batch_ok by blast
next
  case (install_root b n d st i d' st')
  then show ?case using install_root_ok by blast
next
  case (forget_or_unlink d st u)
  then show ?case unfolding forget_or_unlink_def by (blast intro: unlink_or_ok forget_ok)
next
  case (unlink_mem d st u)
  then show ?case unfolding unlink_mem_def by (blast intro: unlink_or_ok forget_mem_ok)
next
  case (hide_subtree d st u)
  then show ?case unfolding hide_foreign_subtree_def by (blast intro: keeps_names_ok hide_keeps_names)
qed (blast intro: forget_ok forget_mem_ok forget_lookup_ok release_ok drop_guard_ok inodes_ok_step keeps_names_ok
      relocate_keeps_names rename_keeps_names keeps_names_note(6,7) pending_write_keeps_names downgrade_keeps_names
      hide_root_keeps_names hydrate_keeps_names)+

lemma inode_init_ok: "inode_init s \<Longrightarrow> inodes_ok s"
  by (auto simp: inode_init_def inodes_ok_def state_new_def maps_agree_def)

interpretation mount: inv_system inode_init inode_step inodes_ok
  by unfold_locales (simp_all add: inode_init_ok inode_step_ok)


definition empty_mount :: "nat \<Rightarrow> state" where
  "empty_mount first = \<lparr>entries = [], by_uid = [], children = [], roots = [], next_ino = first,
     active_writes = [], releasing = [], handles = [], next_fh = 1, access_changes = [],
     st_share_access = [], outbox = []\<rparr>"

definition mounted :: "nat \<Rightarrow> db \<times> state" where
  "mounted first = snd (install_root True (demo_node ''v~r'' None) (empty_db, empty_mount first))"

definition mount_demo :: "nat \<Rightarrow> db \<times> state" where
  "mount_demo first = snd (intern True 2 (demo_node ''v~a'' (Some ''v~r'')) (mounted first))"

lemma mount_demo_facts:
  "nodes_seq (fst (mounted f)) = 1" "nodes_seq (fst (mount_demo f)) = 2" "ino_of (snd (mount_demo f)) ''v~a'' = Some 3"
  by code_simp+

lemma FALLBACK_bound: "lid_ino 1 < FALLBACK_INO" "lid_ino 2 < FALLBACK_INO"
  by (simp_all add: lid_ino_def ROOT_INO_def FALLBACK_INO_def)


end
