(* ===== verification/Tree_Spec.thy ===== *)
theory Tree_Spec
  imports Inodes_Spec
begin

text \<open>
  The resident tree: what a descent reaches, the downgrade of a withdrawn share, the ancestor test as
  reachability by parents, the visibility of a uid, and the fuel of \<open>resolve\<close>.
\<close>

section \<open>Descents\<close>

definition child_rel :: "(nat \<times> entry) list \<Rightarrow> (nat \<times> nat) set" where
  "child_rel tree = {(p, k). k \<in> set (kids_of tree p)}"

definition closed_down :: "(nat \<times> entry) list \<Rightarrow> nat set \<Rightarrow> bool" where
  "closed_down tree V = (\<forall>p \<in> V. set (kids_of tree p) \<subseteq> V)"

lemma closed_down_reach: "(p, i) \<in> (child_rel tree)\<^sup>* \<Longrightarrow> closed_down tree V \<Longrightarrow> p \<in> V \<Longrightarrow> i \<in> V"
  by (induction rule: rtrancl_induct) (auto simp: closed_down_def child_rel_def)

lemma closed_down_image: "closed_down tree ((child_rel tree)\<^sup>* `` S)"
  by (auto simp: closed_down_def child_rel_def intro: rtrancl_into_rtrancl)

text \<open>A descent from a queue touches nothing outside a set that holds the queue and is closed.\<close>

lemma walk_down_closed:
  assumes "P s" and "closed_down tree C" and "set queue \<subseteq> C" and "\<And>p s. p \<in> C \<Longrightarrow> P s \<Longrightarrow> P (snd (f p s))"
  shows "P (walk_down tree f queue seen s)"
  using assms
proof (induction tree f queue seen s rule: walk_down.induct)
  case (2 tree f p queue seen s)
  obtain b s' where f: "f p s = (b, s')" by (cases "f p s")
  show ?case
  proof (cases "p \<in> set seen")
    case True
    then show ?thesis using 2 by simp
  next
    case False
    have "set (queue @ (if b then kids_of tree p else [])) \<subseteq> C"
      using "2.prems"(2,3) by (auto simp: closed_down_def)
    moreover have "P s'" using "2.prems"(4) [of p s] "2.prems"(1,3) f by auto
    ultimately have "P (walk_down tree f (queue @ (if b then kids_of tree p else [])) (p # seen) s')"
      using "2.IH"(2) [OF False f [symmetric]] "2.prems"(2,4) by blast
    then show ?thesis using False f by simp
  qed
qed simp

definition viewers :: "(nat \<times> entry) list \<Rightarrow> nat set \<Rightarrow> bool" where
  "viewers es V = (\<forall>i \<in> V. \<forall>e. map_of es i = Some e \<longrightarrow> en_access e = Viewer)"

lemma set_access_viewer:
  "viewers (fst s) V \<Longrightarrow> viewers (fst (set_access i Viewer s)) (insert i V)"
  by (auto simp: viewers_def set_access_def split_beta update_conv' split: option.splits if_splits)

lemma walk_viewers:
  assumes "viewers (fst s) (set seen)" and "\<forall>p \<in> set seen. set (kids_of tree p) \<subseteq> set seen \<union> set queue"
  shows "\<exists>V. set seen \<union> set queue \<subseteq> V \<and> closed_down tree V \<and> viewers (fst (walk_down tree viewer_visit queue seen s)) V"
  using assms
proof (induction tree "viewer_visit" queue seen s rule: walk_down.induct)
  case (1 tree seen s)
  then show ?case by (intro exI [of _ "set seen"]) (auto simp: closed_down_def)
next
  case (2 tree p queue seen s)
  show ?case
  proof (cases "p \<in> set seen")
    case True
    then have w: "walk_down tree viewer_visit (p # queue) seen s = walk_down tree viewer_visit queue seen s" by simp
    have "\<forall>q \<in> set seen. set (kids_of tree q) \<subseteq> set seen \<union> set queue" using "2.prems"(2) True by auto
    then obtain V where V: "set seen \<union> set queue \<subseteq> V" "closed_down tree V" "viewers (fst (walk_down tree viewer_visit queue seen s)) V"
      using "2.hyps"(1) [OF True "2.prems"(1)] by blast
    moreover have "set seen \<union> set (p # queue) \<subseteq> V" using V(1) True by auto
    ultimately show ?thesis unfolding w by blast
  next
    case False
    have "viewers (fst (set_access p Viewer s)) (set (p # seen))" using set_access_viewer [OF "2.prems"(1), of p] by simp
    moreover have "\<forall>q \<in> set (p # seen). set (kids_of tree q) \<subseteq> set (p # seen) \<union> set (queue @ kids_of tree p)"
      using "2.prems"(2) by auto
    ultimately obtain V where V: "set (p # seen) \<union> set (queue @ kids_of tree p) \<subseteq> V" "closed_down tree V"
      "viewers (fst (walk_down tree viewer_visit (queue @ kids_of tree p) (p # seen) (set_access p Viewer s))) V"
      using "2.hyps"(2) [OF False, of True "set_access p Viewer s"] unfolding viewer_visit_def by fastforce
    have "walk_down tree viewer_visit (p # queue) seen s = walk_down tree viewer_visit (queue @ kids_of tree p) (p # seen) (set_access p Viewer s)"
      using False by (simp add: viewer_visit_def)
    with V show ?thesis by (metis (no_types, lifting) Un_subset_iff list.set(2) insert_subset set_append)
  qed
qed

text \<open>What a downgrade leaves of an entry: everything but the access.\<close>

definition only_access :: "entry option \<Rightarrow> entry option \<Rightarrow> bool" where
  "only_access x y = (map_option (\<lambda>e. e\<lparr>en_access := Owner\<rparr>) y = map_option (\<lambda>e. e\<lparr>en_access := Owner\<rparr>) x)"

lemma set_access_only: "only_access (map_of es i) (map_of (fst s) i) \<Longrightarrow> only_access (map_of es i) (map_of (fst (set_access j a s)) i)"
  by (auto simp: only_access_def set_access_def split_beta update_conv' split: option.splits)

lemma set_access_other: "i \<noteq> j \<Longrightarrow> map_of (fst (set_access j a s)) i = map_of (fst s) i"
  by (auto simp: set_access_def split_beta update_conv' split: option.splits)

text \<open>
  C28. A withdrawn share leaves nothing writable. After \<open>downgrade_shared_subtree\<close> every resident
  node at or below the share's root, nested shares included, is Viewer and refused by
  \<open>require_writable\<close>; the stored authority is Viewer as well; of an entry nothing but the access
  changes, and nothing at all of one that is not below the root.
\<close>

theorem withdrawn_share_leaves_nothing_writable:
  assumes "ino_of st u = Some root"
  shows "((root, i) \<in> (child_rel (entries st))\<^sup>* \<longrightarrow>
            require_writable (snd (downgrade_shared_subtree u st)) i \<noteq> Inr () \<and>
            (\<forall>e. entry_of (snd (downgrade_shared_subtree u st)) i = Some e \<longrightarrow> en_access e = Viewer)) \<and>
         ((root, i) \<notin> (child_rel (entries st))\<^sup>* \<longrightarrow> entry_of (snd (downgrade_shared_subtree u st)) i = entry_of st i) \<and>
         only_access (entry_of st i) (entry_of (snd (downgrade_shared_subtree u st)) i) \<and>
         map_of (st_share_access (snd (downgrade_shared_subtree u st))) u = Some Viewer"
proof -
  define w where "w = walk_down (entries st) viewer_visit [root] [] (entries st, [])"
  have es: "entries (snd (downgrade_shared_subtree u st)) = fst w"
    and sa: "st_share_access (snd (downgrade_shared_subtree u st)) = AList.update u Viewer (st_share_access st)"
    by (simp_all add: downgrade_shared_subtree_def Let_def assms w_def split_beta del: walk_down.simps)
  let ?C = "(child_rel (entries st))\<^sup>* `` {root}"
  obtain V where V: "root \<in> V" "closed_down (entries st) V" "viewers (fst w) V"
    using walk_viewers [of "(entries st, [])" "[]" "entries st" "[root]"] unfolding w_def
    by (auto simp: viewers_def simp del: walk_down.simps)
  have view: "en_access e = Viewer" if "(root, i) \<in> (child_rel (entries st))\<^sup>*" "map_of (fst w) i = Some e" for e
    using V(3) closed_down_reach [OF that(1) V(2,1)] that(2) by (simp add: viewers_def)
  have "map_of (fst w) i = entry_of st i" if "i \<notin> ?C"
    unfolding w_def
    by (rule walk_down_closed [OF _ closed_down_image [of "entries st" "{root}"]])
      (use that set_access_other [of i] in \<open>auto simp: viewer_visit_def\<close>, metis fst_conv)
  moreover have "only_access (entry_of st i) (map_of (fst w) i)"
    unfolding w_def by (rule walk_down_inv) (auto simp: only_access_def viewer_visit_def set_access_only [unfolded only_access_def])
  ultimately show ?thesis
    using view by (auto simp: es sa update_conv' require_writable_def writable_def split: option.split)
qed

definition demo_entry :: "uid \<Rightarrow> nat \<Rightarrow> access \<Rightarrow> entry" where
  "demo_entry u p a = \<lparr>en_uid = u, en_parent = p, en_node = demo_node u None, en_access = a, en_lookup_count = 1,
     en_open_count = 0, en_unlinked = False\<rparr>"

definition shared_mount :: state where
  "shared_mount = (empty_mount 100)\<lparr>entries := [(2, demo_entry ''v~r'' 2 Owner), (3, demo_entry ''w~s'' 2 Editor),
       (4, demo_entry ''w~t'' 3 Editor), (5, demo_entry ''v~o'' 2 Owner)],
     by_uid := [(''v~r'', 2), (''w~s'', 3), (''w~t'', 4), (''v~o'', 5)]\<rparr>"

theorem withdrawn_share_leaves_nothing_writable_witness:
  "ino_of shared_mount ''w~s'' = Some 3 \<and> require_writable shared_mount 4 = Inr () \<and>
   require_writable (snd (downgrade_shared_subtree ''w~s'' shared_mount)) 4 = Inl EACCES"
proof -
  have root: "ino_of shared_mount ''w~s'' = Some 3" and before: "require_writable shared_mount 4 = Inr ()"
    and res: "require_writable (snd (downgrade_shared_subtree ''w~s'' shared_mount)) 4 \<noteq> Inl ENOENT"
    by code_simp+
  have "(3, 4) \<in> child_rel (entries shared_mount)"
    by (simp add: child_rel_def kids_of_def shared_mount_def demo_entry_def)
  then have "(3, 4) \<in> (child_rel (entries shared_mount))\<^sup>*" by blast
  with withdrawn_share_leaves_nothing_writable [OF root, of 4]
  have "require_writable (snd (downgrade_shared_subtree ''w~s'' shared_mount)) 4 \<noteq> Inr ()" by blast
  with root before res show ?thesis by (auto simp: require_writable_def split: option.splits if_splits)
qed

section \<open>Ancestors\<close>

definition parent_rel :: "(nat \<times> entry) list \<Rightarrow> (nat \<times> nat) set" where
  "parent_rel es = {(i, en_parent e) | i e. map_of es i = Some e}"

lemma parent_rel_unique: "(i, p) \<in> parent_rel es \<Longrightarrow> (i, q) \<in> parent_rel es \<Longrightarrow> q = p"
  by (auto simp: parent_rel_def)

lemma climb_sound: "climb es anc visited t \<Longrightarrow> (t, anc) \<in> (parent_rel es)\<^sup>+"
proof (induction es anc visited t rule: climb.induct)
  case (1 es anc visited t)
  obtain e where e: "map_of es t = Some e" using "1.prems" by (subst (asm) climb.simps) (auto split: option.splits)
  then have up: "(t, en_parent e) \<in> parent_rel es" by (auto simp: parent_rel_def)
  show ?case
  proof (cases "en_parent e = anc")
    case True
    then show ?thesis using up by blast
  next
    case False
    with "1.prems" e have "climb es anc (en_parent e # visited) (en_parent e)" "\<not> (en_parent e = 0 \<or> en_parent e \<in> set visited)"
      by (subst (asm) climb.simps, auto split: if_splits)+
    with "1.IH" [OF e False] up show ?thesis by (meson trancl_into_trancl2)
  qed
qed

text \<open>
  What was visited is the path so far: a parent met again closes it, and then nothing new is above.
\<close>

lemma trancl_stays:
  assumes "(t, a) \<in> (parent_rel es)\<^sup>+" and "t \<in> V" and "\<And>v p. v \<in> V \<Longrightarrow> (v, p) \<in> parent_rel es \<Longrightarrow> p \<in> V"
  shows "a \<in> V"
  using assms by (induction rule: trancl_induct) auto

lemma climb_complete:
  assumes "(t, anc) \<in> (parent_rel es)\<^sup>+" and "\<And>i e. map_of es i = Some e \<Longrightarrow> en_parent e \<noteq> 0"
    and "anc \<notin> set visited" and "t \<in> set visited"
    and "\<And>v p. v \<in> set visited \<Longrightarrow> v \<noteq> t \<Longrightarrow> (v, p) \<in> parent_rel es \<Longrightarrow> p \<in> set visited"
  shows "climb es anc visited t"
  using assms
proof (induction es anc visited t rule: climb.induct)
  case (1 es anc visited t)
  obtain e where e: "map_of es t = Some e" using tranclD [OF "1.prems"(1)] by (auto simp: parent_rel_def)
  then have up: "(t, en_parent e) \<in> parent_rel es" by (auto simp: parent_rel_def)
  show ?case
  proof (cases "en_parent e = anc")
    case False
    have seen: "en_parent e \<notin> set visited"
    proof
      assume "en_parent e \<in> set visited"
      with "1.prems"(5) up have "\<And>v p. v \<in> set visited \<Longrightarrow> (v, p) \<in> parent_rel es \<Longrightarrow> p \<in> set visited"
        by (metis parent_rel_unique)
      then show False using trancl_stays [OF "1.prems"(1,4)] "1.prems"(3) by blast
    qed
    have zero: "en_parent e \<noteq> 0" using "1.prems"(2) [OF e] .
    have "(en_parent e, anc) \<in> (parent_rel es)\<^sup>+"
      using "1.prems"(1) up False by (metis converse_tranclE parent_rel_unique)
    moreover have "p \<in> set (en_parent e # visited)"
      if "v \<in> set (en_parent e # visited)" "v \<noteq> en_parent e" "(v, p) \<in> parent_rel es" for v p
      using that "1.prems"(5) [of v p] up parent_rel_unique by (cases "v = t") auto
    ultimately have "climb es anc (en_parent e # visited) (en_parent e)"
      using "1.IH" [OF e False] seen zero "1.prems"(2,3) False by auto
    then show ?thesis using e False seen zero by (subst climb.simps) simp
  qed (subst climb.simps, simp add: e)
qed

text \<open>
  The ancestor test is reachability. \<open>is_ancestor_of\<close> answers true exactly when following
  parents from the target arrives at the ancestor (the target itself included), on any tree of
  parents, also one with a loop, in which no entry has inode 0 as its parent. It always answers,
  since no inode is passed twice.
\<close>

theorem ancestor_test_is_reachability:
  assumes "\<And>i e. entry_of st i = Some e \<Longrightarrow> en_parent e \<noteq> 0"
  shows "is_ancestor_of st anc target \<longleftrightarrow> (target, anc) \<in> (parent_rel (entries st))\<^sup>*"
proof -
  have "climb (entries st) anc [target] target \<longleftrightarrow> (target, anc) \<in> (parent_rel (entries st))\<^sup>+" if "anc \<noteq> target"
    using climb_sound climb_complete [of target anc "entries st" "[target]"] assms that by auto
  then show ?thesis by (auto simp: is_ancestor_of_def rtrancl_eq_or_trancl)
qed

theorem ancestor_test_is_reachability_witness:
  "is_ancestor_of shared_mount 2 4 \<and> (4, 2) \<in> (parent_rel (entries shared_mount))\<^sup>* \<and>
   \<not> is_ancestor_of shared_mount 3 5 \<and> (5, 3) \<notin> (parent_rel (entries shared_mount))\<^sup>*"
proof -
  have no: "\<And>i e. entry_of shared_mount i = Some e \<Longrightarrow> en_parent e \<noteq> 0"
    by (auto simp: shared_mount_def demo_entry_def split: if_splits)
  have "is_ancestor_of shared_mount 2 4" "\<not> is_ancestor_of shared_mount 3 5" by code_simp+
  with ancestor_test_is_reachability [of shared_mount 2 4] ancestor_test_is_reachability [of shared_mount 3 5] no
  show ?thesis by blast
qed

section \<open>Hydration\<close>

text \<open>
  The fuel of \<open>resolve\<close> is enough: an inode on the path is not entered again, so the path is no
  longer than the number of entries.
\<close>

lemma resolve_more_fuel:
  "card (fst ` set (entries st) - set visiting) < k \<Longrightarrow> resolve (Suc k) st ino memo visiting = resolve k st ino memo visiting"
proof (induction k arbitrary: ino memo visiting)
  case (Suc k)
  have "resolve (Suc k) st (en_parent e) memo (ino # visiting) = resolve k st (en_parent e) memo (ino # visiting)"
    if "entry_of st ino = Some e" "ino \<notin> set visiting" for e
  proof -
    have "ino \<in> fst ` set (entries st)" using that(1) by (metis domI dom_map_of_conv_image_fst)
    then have "fst ` set (entries st) - set (ino # visiting) \<subset> fst ` set (entries st) - set visiting" using that(2) by auto
    then have "card (fst ` set (entries st) - set (ino # visiting)) < card (fst ` set (entries st) - set visiting)"
      by (simp add: psubset_card_mono)
    with Suc.prems show ?thesis by (intro Suc.IH) linarith
  qed
  then show ?case
    unfolding resolve.simps(2) [of "Suc k" st ino memo visiting] resolve.simps(2) [of k st ino memo visiting]
    by (auto split: option.splits simp del: resolve.simps)
qed simp

lemma resolve_fuel_enough: "Suc (length (entries st)) \<le> k \<Longrightarrow> resolve k st ino memo [] = resolve (Suc (length (entries st))) st ino memo []"
proof (induction k)
  case (Suc k)
  have "card (fst ` set (entries st)) \<le> length (entries st)" by (metis card_length length_map list.set_map)
  with Suc show ?case by (cases "Suc k = Suc (length (entries st))") (simp_all add: resolve_more_fuel le_Suc_eq del: resolve.simps)
qed simp

end
