(* ===== verification/Pins.thy ===== *)
theory Pins
  imports Node_Table
begin

text \<open>
  Pinned nodes (\<open>db/pins.rs\<close>): the rows, the test of one uid by its ancestors, and the set of all
  pinned uids by descent, which the content cache exempts from eviction.
\<close>

section \<open>The table\<close>

definition pin_add :: "db \<Rightarrow> uid \<Rightarrow> string \<Rightarrow> bool \<Rightarrow> db" where
  "pin_add d u path recursive =
     d\<lparr>pins := (if matches (\<lambda>p. pin_uid p = u) (pins d)
                then update_where (\<lambda>p. pin_uid p = u) (\<lambda>p. p\<lparr>pin_path := path, pin_recursive := recursive\<rparr>) (pins d)
                else pins d @ [\<lparr>pin_uid = u, pin_path = path, pin_recursive = recursive\<rparr>])\<rparr>"

definition pin_remove :: "db \<Rightarrow> uid \<Rightarrow> bool \<times> db" where
  "pin_remove d u = (matches (\<lambda>p. pin_uid p = u) (pins d), d\<lparr>pins := delete_where (\<lambda>p. pin_uid p = u) (pins d)\<rparr>)"

text \<open>A listed pin: the row with the kind of the node, if the node is known.\<close>

record pin_listed =
  pl_uid :: uid
  pl_path :: string
  pl_recursive :: bool
  pl_is_dir :: "bool option"

definition pin_list :: "db \<Rightarrow> pin_listed list" where
  "pin_list d = map (\<lambda>p. \<lparr>pl_uid = pin_uid p, pl_path = pin_path p, pl_recursive = pin_recursive p,
       pl_is_dir = map_option nr_is_dir (row_by_uid d (pin_uid p))\<rparr>)
     (sort_key (map (of_char :: char \<Rightarrow> nat) \<circ> pin_uid) (pins d))"

section \<open>The two questions\<close>

text \<open>The ancestors of a row are those of its stored path: \<open>anc.depth < MAX_PATH_DEPTH\<close> lets the query pass that many parents.\<close>

definition is_pinned :: "db \<Rightarrow> uid \<Rightarrow> bool" where
  "is_pinned d u = (matches (\<lambda>p. pin_uid p = u) (pins d) \<or>
     (case row_by_uid d u of
        None \<Rightarrow> False
      | Some r \<Rightarrow> list_ex (\<lambda>a. nr_uid a \<noteq> u \<and> matches (\<lambda>p. pin_uid p = nr_uid a \<and> pin_recursive p) (pins d))
                   (walk_up d MAX_PATH_DEPTH r)))"

definition pinned_step :: "db \<Rightarrow> uid \<times> lid option \<Rightarrow> (uid \<times> lid option) list" where
  "pinned_step d = (\<lambda>(_, l). case l of
      None \<Rightarrow> []
    | Some l \<Rightarrow> map (\<lambda>n. (nr_uid n, Some (nr_lid n))) (filter (\<lambda>n. nr_parent_lid n = Some l) (nodes d)))"

definition pinned_uids :: "db \<Rightarrow> uid list" where
  "pinned_uids d = remdups (map fst (cte_union (pinned_step d) (length (nodes d))
       (map (\<lambda>p. (pin_uid p, map_option nr_lid (row_by_uid d (pin_uid p)))) (filter pin_recursive (pins d))))
     @ map pin_uid (pins d))"

definition descendants :: "db \<Rightarrow> uid \<Rightarrow> uid list" where
  "descendants d folder = remdups (map fst (cte_union (pinned_step d) (length (nodes d))
     (concat (map (\<lambda>f. pinned_step d (nr_uid f, Some (nr_lid f))) (filter (\<lambda>f. nr_uid f = folder) (nodes d))))))"

section \<open>They agree\<close>

interpretation pinned: finite_cte "pinned_step d" "(\<lambda>n. (nr_uid n, Some (nr_lid n))) ` set (nodes d)" for d
  by unfold_locales (auto simp: pinned_step_def split: option.splits)

lemma pinned_univ: "card ((\<lambda>n. (nr_uid n, Some (nr_lid n))) ` set (nodes d)) \<le> length (nodes d)"
  by (meson card_image_le card_length finite_set order_trans)

lemma row_by_lid_mem:
  assumes "wf_nodes d" and "r \<in> set (nodes d)"
  shows "row_by_lid d (nr_lid r) = Some r"
proof -
  obtain q where q: "row_by_lid d (nr_lid r) = Some q"
    using assms(2) unfolding row_by_lid_def by (metis (mono_tags, lifting) find_None_iff option.exhaust)
  have "inj_on nr_lid (set (nodes d))"
    using assms(1) sorted_wrt_less_distinct [of "map nr_lid (nodes d)"] by (simp add: wf_nodes_def distinct_map)
  with row_by_lid_Some [OF q] assms(2) q show ?thesis by (metis inj_onD)
qed

lemma row_by_uid_mem:
  assumes "wf_nodes d" and "r \<in> set (nodes d)"
  shows "row_by_uid d (nr_uid r) = Some r"
proof -
  obtain q where q: "row_by_uid d (nr_uid r) = Some q"
    using assms(2) unfolding row_by_uid_def by (metis (mono_tags, lifting) find_None_iff option.exhaust)
  have "inj_on nr_uid (set (nodes d))" using assms(1) by (simp add: wf_nodes_def distinct_map)
  with row_by_uid_Some [OF q] assms(2) q show ?thesis by (metis inj_onD)
qed

definition up_rel :: "db \<Rightarrow> (node_row \<times> node_row) set" where
  "up_rel d = {(r, p). parent_row d r = Some p}"

lemma parent_row_mem: "parent_row d r = Some p \<Longrightarrow> p \<in> set (nodes d) \<and> nr_parent_lid r = Some (nr_lid p)"
  by (auto simp: parent_row_def split: option.splits dest: row_by_lid_Some)

lemma anc_up: "p \<in> set (walk_up d k r) \<Longrightarrow> (r, p) \<in> (up_rel d)\<^sup>*"
proof (induction d k r rule: walk_up.induct)
  case (2 d k r)
  show ?case
  proof (cases "parent_row d r")
    case (Some q)
    then have "(r, q) \<in> up_rel d" by (simp add: up_rel_def)
    with 2 Some show ?thesis by (auto intro: converse_rtrancl_into_rtrancl)
  qed (use 2 in simp)
qed simp

lemma up_anc:
  assumes "(r, p) \<in> (up_rel d)\<^sup>*" and "parent_row d (last (walk_up d k r)) = None"
  shows "p \<in> set (walk_up d k r)"
  using assms
proof (induction arbitrary: k rule: converse_rtrancl_induct)
  case base
  then show ?case by (cases k) auto
next
  case (step r q)
  then have q: "parent_row d r = Some q" by (simp add: up_rel_def)
  with step.prems obtain j where k: "k = Suc j" by (cases k) auto
  have "walk_up d j q \<noteq> []" by (cases j) auto
  with step.prems q k have "parent_row d (last (walk_up d j q)) = None" by simp
  from step.IH [OF this] q k show ?case by simp
qed

lemma down_up:
  assumes "wf_nodes d" and "((nr_uid p, Some (nr_lid p)), y) \<in> (step_rel (pinned_step d))\<^sup>*" and "p \<in> set (nodes d)"
  shows "\<exists>n \<in> set (nodes d). y = (nr_uid n, Some (nr_lid n)) \<and> (n, p) \<in> (up_rel d)\<^sup>*"
  using assms(2)
proof (induction rule: rtrancl_induct)
  case (step y z)
  then obtain n where n: "n \<in> set (nodes d)" "y = (nr_uid n, Some (nr_lid n))" "(n, p) \<in> (up_rel d)\<^sup>*" by blast
  from step.hyps(2) n(2) obtain m where m: "m \<in> set (nodes d)" "nr_parent_lid m = Some (nr_lid n)" "z = (nr_uid m, Some (nr_lid m))"
    by (auto simp: step_rel_def pinned_step_def)
  have "(m, n) \<in> up_rel d" using row_by_lid_mem [OF assms(1) n(1)] m(2) by (simp add: up_rel_def parent_row_def)
  from converse_rtrancl_into_rtrancl [OF this n(3)] m(1,3) show ?case by blast
qed (use assms(3) in auto)

lemma up_down:
  assumes "(n, p) \<in> (up_rel d)\<^sup>*" and "n \<in> set (nodes d)"
  shows "((nr_uid p, Some (nr_lid p)), (nr_uid n, Some (nr_lid n))) \<in> (step_rel (pinned_step d))\<^sup>* \<and> p \<in> set (nodes d)"
  using assms
proof (induction rule: converse_rtrancl_induct)
  case (step n m)
  then have up: "parent_row d n = Some m" by (simp add: up_rel_def)
  then have "((nr_uid m, Some (nr_lid m)), (nr_uid n, Some (nr_lid n))) \<in> step_rel (pinned_step d)"
    using step.prems by (auto simp: step_rel_def pinned_step_def dest!: parent_row_mem)
  with step.IH parent_row_mem [OF up] show ?case by (meson rtrancl_into_rtrancl)
qed simp

lemma sub_rows:
  "set (cte_union (pinned_step d) (length (nodes d)) init) = (step_rel (pinned_step d))\<^sup>* `` set init"
  by (rule pinned.cte_union_reaches [OF pinned_univ])

text \<open>
  C27. The two answers about a pin agree: the cache exempts from eviction exactly the uids that a
  read treats as pinned. The test of one uid looks upwards and stops after 256 parents, the set is
  built downwards without a bound, so they agree on every node whose path reaches a root within it.
\<close>

theorem pinned_set_is_what_is_pinned:
  assumes "wf_nodes d" and "\<And>r. row_by_uid d u = Some r \<Longrightarrow> parent_row d (last (walk_up d MAX_PATH_DEPTH r)) = None"
  shows "u \<in> set (pinned_uids d) \<longleftrightarrow> is_pinned d u"
proof
  assume "u \<in> set (pinned_uids d)"
  then consider p where "p \<in> set (pins d)" "pin_uid p = u"
    | p l where "p \<in> set (pins d)" "pin_recursive p"
        "((pin_uid p, map_option nr_lid (row_by_uid d (pin_uid p))), (u, l)) \<in> (step_rel (pinned_step d))\<^sup>*"
    unfolding pinned_uids_def sub_rows set_remdups set_append set_map by auto
  then show "is_pinned d u"
  proof cases
    case 1
    then show ?thesis by (auto simp: is_pinned_def matches_def list_ex_iff)
  next
    case (2 p l)
    show ?thesis
    proof (cases "row_by_uid d (pin_uid p)")
      case None
      have "(pin_uid p, None) = (u, l)" using 2(3) None
        by (auto elim: converse_rtranclE simp: step_rel_def pinned_step_def)
      with 2(1) show ?thesis by (auto simp: is_pinned_def matches_def list_ex_iff)
    next
      case (Some a)
      then have a: "a \<in> set (nodes d)" "nr_uid a = pin_uid p" by (auto dest: row_by_uid_Some)
      with 2(3) Some have "((nr_uid a, Some (nr_lid a)), (u, l)) \<in> (step_rel (pinned_step d))\<^sup>*" by simp
      from down_up [OF assms(1) this a(1)] obtain n where n: "n \<in> set (nodes d)" "nr_uid n = u" "(n, a) \<in> (up_rel d)\<^sup>*" by auto
      have r: "row_by_uid d u = Some n" using row_by_uid_mem [OF assms(1) n(1)] n(2) by simp
      have "a \<in> set (walk_up d MAX_PATH_DEPTH n)" by (rule up_anc [OF n(3) assms(2) [OF r]])
      with r a(2) 2(1,2) show ?thesis
        unfolding is_pinned_def matches_def list_ex_iff by (cases "nr_uid a = u") fastforce+
    qed
  qed
next
  assume "is_pinned d u"
  then consider p where "p \<in> set (pins d)" "pin_uid p = u"
    | r a p where "row_by_uid d u = Some r" "a \<in> set (walk_up d MAX_PATH_DEPTH r)" "p \<in> set (pins d)" "pin_uid p = nr_uid a" "pin_recursive p"
    unfolding is_pinned_def matches_def list_ex_iff by (auto split: option.splits)
  then show "u \<in> set (pinned_uids d)"
  proof cases
    case 1
    then show ?thesis by (auto simp: pinned_uids_def)
  next
    case (2 r a p)
    have r: "r \<in> set (nodes d)" "nr_uid r = u" using 2(1) by (auto dest: row_by_uid_Some)
    from up_down [OF anc_up [OF 2(2)] r(1)]
    have down: "((nr_uid a, Some (nr_lid a)), (u, Some (nr_lid r))) \<in> (step_rel (pinned_step d))\<^sup>*" and a: "a \<in> set (nodes d)"
      using r(2) by auto
    have "row_by_uid d (pin_uid p) = Some a" using row_by_uid_mem [OF assms(1) a] 2(4) by simp
    with down 2 show ?thesis unfolding pinned_uids_def sub_rows set_remdups set_append set_map by force
  qed
qed

definition pinned_demo :: db where
  "pinned_demo = pin_add (the (upsert_nodes empty_db
     [\<lparr>node_uid = ''v~r'', parent_uid = None, node_name = ''r'', node_kind = Folder, creation_time = 0,
        modification_time = 0, trashed = False, membership = None\<rparr>,
      \<lparr>node_uid = ''v~a'', parent_uid = Some ''v~r'', node_name = ''a'', node_kind = Folder, creation_time = 0,
        modification_time = 0, trashed = False, membership = None\<rparr>])) ''v~r'' ''/r'' True"

theorem pinned_set_is_what_is_pinned_witness:
  "''v~a'' \<in> set (pinned_uids pinned_demo) \<and> is_pinned pinned_demo ''v~a'' \<and> \<not> is_pinned pinned_demo ''v~b''"
proof -
  have wf: "wf_nodes pinned_demo" by code_simp
  have "case row_by_uid pinned_demo ''v~a'' of None \<Rightarrow> True | Some r \<Rightarrow> parent_row pinned_demo (last (walk_up pinned_demo MAX_PATH_DEPTH r)) = None"
    by code_simp
  then have root: "\<And>r. row_by_uid pinned_demo ''v~a'' = Some r \<Longrightarrow> parent_row pinned_demo (last (walk_up pinned_demo MAX_PATH_DEPTH r)) = None"
    by simp
  have "''v~a'' \<in> set (pinned_uids pinned_demo)" "\<not> is_pinned pinned_demo ''v~b''" by code_simp+
  with pinned_set_is_what_is_pinned [OF wf root] show ?thesis by blast
qed

end
