(* ===== verification/Content_Cache.thy ===== *)
theory Content_Cache
  imports Pins Pause Handle "HOL-Library.AList"
begin

text \<open>
  The content cache (\<open>cache.rs\<close>) and its index (\<open>db/cache.rs\<close>): whole-file blobs, blocks and
  thumbnails on disk with their tags, the rows that order them by last access, the running totals,
  and the eviction that keeps each pool in its share of the budget.

  Files and tags are association lists from the pool and the file's name. The name of a node's files
  is \<open>key\<close> of its uid, an argument (the hexadecimal SHA-256). A disk call that fails ends a store
  before its row is written, or is ignored by the code; only calls that succeed are modelled.
\<close>

section \<open>The index\<close>

datatype cache_kind = KIND_BLOB | KIND_BLOCK | KIND_THUMB

record cache_entry =
  ce_key :: string
  ce_kind :: cache_kind
  ce_size :: nat
  ce_last :: millis

definition cache_touch :: "string \<Rightarrow> cache_kind \<Rightarrow> nat \<Rightarrow> millis \<Rightarrow> cache_entry list \<Rightarrow> cache_entry list" where
  "cache_touch k kind n now rows =
     (if matches (\<lambda>r. ce_key r = k) rows
      then update_where (\<lambda>r. ce_key r = k) (\<lambda>r. r\<lparr>ce_kind := kind, ce_size := n, ce_last := now\<rparr>) rows
      else rows @ [\<lparr>ce_key = k, ce_kind = kind, ce_size = n, ce_last = now\<rparr>])"

definition cache_accessed :: "string \<Rightarrow> millis \<Rightarrow> cache_entry list \<Rightarrow> cache_entry list" where
  "cache_accessed k now rows = update_where (\<lambda>r. ce_key r = k) (\<lambda>r. r\<lparr>ce_last := now\<rparr>) rows"

definition cache_accessed_batch :: "(string \<times> millis) list \<Rightarrow> cache_entry list \<Rightarrow> cache_entry list" where
  "cache_accessed_batch touches rows = fold (\<lambda>(k, at). cache_accessed k at) touches rows"

definition cache_remove :: "string \<Rightarrow> cache_entry list \<Rightarrow> cache_entry list" where
  "cache_remove k rows = delete_where (\<lambda>r. ce_key r = k) rows"

definition cache_remove_all :: "string \<Rightarrow> cache_entry list \<Rightarrow> cache_entry list" where
  "cache_remove_all k rows = delete_where (\<lambda>r. ce_key r = k \<or> like_match (k @ ''.b%'') (ce_key r) \<or>
     like_match (k @ ''.t%'') (ce_key r)) rows"

definition cache_total_bytes :: "cache_kind \<Rightarrow> cache_entry list \<Rightarrow> nat" where
  "cache_total_bytes kind rows = sum_list (map ce_size (filter (\<lambda>r. ce_kind r = kind) rows))"

text \<open>\<open>ORDER BY last_accessed ASC\<close> on the index \<open>(kind, last_accessed)\<close>: rows of one time in rowid order.\<close>

definition cache_entries_by_kind :: "cache_kind \<Rightarrow> cache_entry list \<Rightarrow> (string \<times> nat) list" where
  "cache_entries_by_kind kind rows =
     map (\<lambda>r. (ce_key r, ce_size r)) (sort_key ce_last (filter (\<lambda>r. ce_kind r = kind) rows))"

definition cache_eviction_candidates :: "cache_kind \<Rightarrow> nat \<Rightarrow> cache_entry list \<Rightarrow> (string \<times> nat) list" where
  "cache_eviction_candidates kind limit rows = take limit (cache_entries_by_kind kind rows)"

definition cache_rebuild :: "cache_entry list \<Rightarrow> cache_entry list" where
  "cache_rebuild entries = fold (\<lambda>e. cache_touch (ce_key e) (ce_kind e) (ce_size e) (ce_last e)) entries []"

section \<open>The cache\<close>

datatype tag = Meta int nat | BlockMeta int nat "nat option" | ThumbMeta int

record geometry_meta =
  gm_mtime :: int
  gm_size :: nat
  gm_sizes :: "nat list"

record content_cache =
  cc_files :: "((cache_kind \<times> string) \<times> byte list) list"
  cc_tags :: "((cache_kind \<times> string) \<times> tag) list"
  cc_geom :: "(string \<times> geometry_meta) list"
  cc_rows :: "cache_entry list"
  blob_bytes :: nat
  block_bytes :: nat
  thumb_bytes :: nat
  touches :: "(string \<times> millis) list"
  max_bytes :: nat

definition BLOCK_SIZE :: nat where "BLOCK_SIZE = 2 ^ 22"
definition TOUCH_FLUSH_AT :: nat where "TOUCH_FLUSH_AT = 256"
definition EVICT_BATCH :: nat where "EVICT_BATCH = 64"
definition SPLIT_BLOB :: nat where "SPLIT_BLOB = 70"
definition SPLIT_BLOCK :: nat where "SPLIT_BLOCK = 25"
definition SPLIT_THUMB :: nat where "SPLIT_THUMB = 5"

definition pool :: "cache_kind \<Rightarrow> content_cache \<Rightarrow> nat" where
  "pool kind c = (case kind of KIND_BLOB \<Rightarrow> blob_bytes c | KIND_BLOCK \<Rightarrow> block_bytes c | KIND_THUMB \<Rightarrow> thumb_bytes c)"

definition set_pool :: "cache_kind \<Rightarrow> nat \<Rightarrow> content_cache \<Rightarrow> content_cache" where
  "set_pool kind n c = (case kind of
      KIND_BLOB \<Rightarrow> c\<lparr>blob_bytes := n\<rparr> | KIND_BLOCK \<Rightarrow> c\<lparr>block_bytes := n\<rparr> | KIND_THUMB \<Rightarrow> c\<lparr>thumb_bytes := n\<rparr>)"

definition reseed_totals :: "content_cache \<Rightarrow> content_cache" where
  "reseed_totals c = c\<lparr>blob_bytes := cache_total_bytes KIND_BLOB (cc_rows c),
     block_bytes := cache_total_bytes KIND_BLOCK (cc_rows c), thumb_bytes := cache_total_bytes KIND_THUMB (cc_rows c)\<rparr>"

definition flush_touches :: "content_cache \<Rightarrow> content_cache" where
  "flush_touches c = c\<lparr>cc_rows := cache_accessed_batch (touches c) (cc_rows c), touches := []\<rparr>"

definition touch :: "string \<Rightarrow> millis \<Rightarrow> content_cache \<Rightarrow> content_cache" where
  "touch k now c =
     (let c1 = c\<lparr>touches := AList.update k now (touches c)\<rparr>
      in if length (touches c1) \<ge> TOUCH_FLUSH_AT then flush_touches c1 else c1)"

text \<open>The share of a pool: at least one byte, since 0 means no limit. The product saturates at \<open>u64\<close>.\<close>

definition pool_cap :: "cache_kind \<Rightarrow> content_cache \<Rightarrow> nat" where
  "pool_cap kind c =
     (if max_bytes c = 0 then 0
      else max (min U64_MAX (max_bytes c * (case kind of KIND_BLOCK \<Rightarrow> SPLIT_BLOCK | KIND_THUMB \<Rightarrow> SPLIT_THUMB | KIND_BLOB \<Rightarrow> SPLIT_BLOB)) div 100) 1)"

section \<open>Eviction\<close>

text \<open>One victim: its file, its tag and its row go.\<close>

definition evict_key :: "cache_kind \<Rightarrow> string \<Rightarrow> content_cache \<Rightarrow> content_cache" where
  "evict_key kind k c = c\<lparr>cc_files := AList.delete (kind, k) (cc_files c),
     cc_tags := AList.delete (kind, k) (cc_tags c), cc_rows := cache_remove k (cc_rows c)\<rparr>"

text \<open>
  The loop over one batch: how many exempt entries were passed, the bytes left by the count, whether
  anything was evicted.
\<close>

fun evict_batch :: "(string \<Rightarrow> bool) \<Rightarrow> nat \<Rightarrow> cache_kind \<Rightarrow> (string \<times> nat) list \<Rightarrow> nat \<Rightarrow> nat \<Rightarrow> content_cache \<Rightarrow>
    nat \<times> nat \<times> bool \<times> content_cache" where
  "evict_batch exempt cap kind [] skipped running c = (skipped, running, False, c)"
| "evict_batch exempt cap kind ((k, n) # batch) skipped running c =
     (if running \<le> cap then (skipped, running, False, c)
      else if exempt k then evict_batch exempt cap kind batch (skipped + 1) running c
      else case evict_batch exempt cap kind batch skipped (running - n) (evict_key kind k c) of
             (s, r, _, c') \<Rightarrow> (s, r, True, c'))"

lemma evict_batch_rows:
  "length (cc_rows (snd (snd (snd (evict_batch exempt cap kind batch skipped running c))))) \<le> length (cc_rows c)"
proof (induction exempt cap kind batch skipped running c rule: evict_batch.induct)
  case (2 exempt cap kind k n batch skipped running c)
  have "length (cc_rows (evict_key kind k c)) \<le> length (cc_rows c)"
    by (simp add: evict_key_def cache_remove_def delete_where_def)
  with 2 show ?case by (fastforce split: prod.splits if_splits)
qed simp

lemma evict_batch_progress:
  assumes "fst (snd (snd (evict_batch exempt cap kind batch skipped running c)))" and "fst ` set batch \<subseteq> ce_key ` set (cc_rows c)"
  shows "length (cc_rows (snd (snd (snd (evict_batch exempt cap kind batch skipped running c))))) < length (cc_rows c)"
  using assms
proof (induction exempt cap kind batch skipped running c rule: evict_batch.induct)
  case (2 exempt cap kind k n batch skipped running c)
  show ?case
  proof (cases "running \<le> cap \<or> exempt k")
    case True
    with 2 show ?thesis by auto
  next
    case False
    obtain r where "r \<in> set (cc_rows c)" "ce_key r = k" using "2.prems"(2) by auto
    then have "length (cc_rows (evict_key kind k c)) < length (cc_rows c)"
      by (auto simp: evict_key_def cache_remove_def delete_where_def intro: length_filter_less)
    with evict_batch_rows [of exempt cap kind batch skipped "running - n" "evict_key kind k c"] False show ?thesis
      by (auto split: prod.splits)
  qed
qed simp

lemma candidates_keys: "fst ` set (cache_eviction_candidates kind n rows) \<subseteq> ce_key ` set rows"
  by (auto simp: cache_eviction_candidates_def cache_entries_by_kind_def dest!: in_set_takeD)

text \<open>
  The loop of \<open>enforce_pool\<close>. Every round but the last removes a row, so it ends.
\<close>

function enforce_loop :: "(string \<Rightarrow> bool) \<Rightarrow> nat \<Rightarrow> cache_kind \<Rightarrow> nat \<Rightarrow> nat \<Rightarrow> content_cache \<Rightarrow> content_cache" where
  "enforce_loop exempt cap kind skipped running c =
     (if running \<le> cap then c
      else let batch = cache_eviction_candidates kind (skipped + EVICT_BATCH) (cc_rows c)
           in if length batch \<le> skipped then c
              else case evict_batch exempt cap kind (drop skipped batch) skipped running c of
                     (skipped', running', evicted_any, c') \<Rightarrow>
                       (if \<not> evicted_any then c' else enforce_loop exempt cap kind skipped' running' c'))"
  by pat_completeness auto

termination
proof (relation "measure (\<lambda>(exempt, cap, kind, skipped, running, c). length (cc_rows c))", goal_cases)
  case (2 exempt cap kind skipped running c batch y1 y2 y3 y4 y5 y6)
  then have y: "evict_batch exempt cap kind (drop skipped batch) skipped running c = (y1, y3, y5, y6)" "y5" by auto
  have "fst ` set (drop skipped batch) \<subseteq> ce_key ` set (cc_rows c)"
    using candidates_keys [of kind "skipped + EVICT_BATCH" "cc_rows c"] 2(2) by (auto dest!: in_set_dropD)
  with evict_batch_progress [of exempt cap kind "drop skipped batch" skipped running c] y show ?case by simp
qed simp

declare enforce_loop.simps [simp del]

definition enforce_pool :: "(string \<Rightarrow> bool) \<Rightarrow> cache_kind \<Rightarrow> content_cache \<Rightarrow> content_cache" where
  "enforce_pool exempt kind c =
     (let cap = pool_cap kind c
      in if cap = 0 \<or> pool kind c \<le> cap then c
         else let c1 = flush_touches c
              in reseed_totals (enforce_loop exempt cap kind 0 (cache_total_bytes kind (cc_rows c1)) c1))"

definition pinned_keys :: "(uid \<Rightarrow> string) \<Rightarrow> db \<Rightarrow> string \<Rightarrow> bool" where
  "pinned_keys key d k = (k \<in> key ` set (pinned_uids d))"

definition enforce_budget :: "(uid \<Rightarrow> string) \<Rightarrow> db \<Rightarrow> content_cache \<Rightarrow> content_cache" where
  "enforce_budget key d c =
     (let cap = pool_cap KIND_BLOB c
      in if cap = 0 \<or> blob_bytes c \<le> cap then c else enforce_pool (pinned_keys key d) KIND_BLOB c)"

definition enforce_block_budget :: "content_cache \<Rightarrow> content_cache" where
  "enforce_block_budget c = enforce_pool (\<lambda>_. False) KIND_BLOCK c"

definition enforce_thumb_budget :: "content_cache \<Rightarrow> content_cache" where
  "enforce_thumb_budget c = enforce_pool (\<lambda>_. False) KIND_THUMB c"

definition set_budget :: "(uid \<Rightarrow> string) \<Rightarrow> db \<Rightarrow> nat \<Rightarrow> content_cache \<Rightarrow> content_cache" where
  "set_budget key d n c = enforce_thumb_budget (enforce_block_budget (enforce_budget key d (c\<lparr>max_bytes := n\<rparr>)))"

text \<open>\<open>emergency_evict\<close>: one of the ten coldest blobs, the first that is not pinned.\<close>

definition emergency_evict :: "(uid \<Rightarrow> string) \<Rightarrow> db \<Rightarrow> content_cache \<Rightarrow> content_cache" where
  "emergency_evict key d c =
     (case find (\<lambda>(k, _). \<not> pinned_keys key d k) (cache_eviction_candidates KIND_BLOB 10 (cc_rows c)) of
        None \<Rightarrow> c
      | Some (k, n) \<Rightarrow> (let c1 = evict_key KIND_BLOB k c in c1\<lparr>blob_bytes := blob_bytes c1 - n\<rparr>))"

section \<open>Names, stores and reads\<close>

definition block_key :: "(uid \<Rightarrow> string) \<Rightarrow> uid \<Rightarrow> nat \<Rightarrow> string" where
  "block_key key u idx = key u @ ''.b'' @ show_nat idx"

definition thumb_key :: "(uid \<Rightarrow> string) \<Rightarrow> uid \<Rightarrow> nat \<Rightarrow> string" where
  "thumb_key key u ttype = key u @ ''.t'' @ show_nat ttype"

text \<open>What a store leaves: the file and its tag, the row, the total, and the pool in its budget.\<close>

definition put_file :: "cache_kind \<Rightarrow> string \<Rightarrow> byte list \<Rightarrow> tag \<Rightarrow> millis \<Rightarrow> content_cache \<Rightarrow> content_cache" where
  "put_file kind k data t now c =
     set_pool kind (pool kind c + length data)
       (c\<lparr>cc_files := AList.update (kind, k) data (cc_files c), cc_tags := AList.update (kind, k) t (cc_tags c),
          cc_rows := cache_touch k kind (length data) now (cc_rows c)\<rparr>)"

definition store :: "(uid \<Rightarrow> string) \<Rightarrow> db \<Rightarrow> uid \<Rightarrow> int \<Rightarrow> nat \<Rightarrow> byte list \<Rightarrow> millis \<Rightarrow> content_cache \<Rightarrow> content_cache" where
  "store key d u mtime n data now c = enforce_budget key d (put_file KIND_BLOB (key u) data (Meta mtime n) now c)"

definition store_file :: "(uid \<Rightarrow> string) \<Rightarrow> db \<Rightarrow> uid \<Rightarrow> int \<Rightarrow> nat \<Rightarrow> byte list \<Rightarrow> millis \<Rightarrow> content_cache \<Rightarrow> content_cache" where
  "store_file key d u mtime n src now c = enforce_budget key d (put_file KIND_BLOB (key u) src (Meta mtime n) now c)"

definition store_thumbnail :: "(uid \<Rightarrow> string) \<Rightarrow> uid \<Rightarrow> nat \<Rightarrow> int \<Rightarrow> byte list \<Rightarrow> millis \<Rightarrow> content_cache \<Rightarrow> content_cache" where
  "store_thumbnail key u ttype mtime data now c =
     enforce_thumb_budget (put_file KIND_THUMB (thumb_key key u ttype) data (ThumbMeta mtime) now c)"

definition valid_blob :: "(uid \<Rightarrow> string) \<Rightarrow> uid \<Rightarrow> int \<Rightarrow> nat \<Rightarrow> content_cache \<Rightarrow> byte list option" where
  "valid_blob key u mtime n c =
     (if map_of (cc_tags c) (KIND_BLOB, key u) = Some (Meta mtime n)
      then (case map_of (cc_files c) (KIND_BLOB, key u) of
              Some blob \<Rightarrow> (if length blob = n then Some blob else None)
            | None \<Rightarrow> None)
      else None)"

definition is_cached :: "(uid \<Rightarrow> string) \<Rightarrow> uid \<Rightarrow> int \<Rightarrow> nat \<Rightarrow> content_cache \<Rightarrow> bool" where
  "is_cached key u mtime n c = (valid_blob key u mtime n c \<noteq> None)"

definition read_range :: "(uid \<Rightarrow> string) \<Rightarrow> uid \<Rightarrow> int \<Rightarrow> nat \<Rightarrow> nat \<Rightarrow> nat \<Rightarrow> millis \<Rightarrow> content_cache \<Rightarrow> byte list option \<times> content_cache" where
  "read_range key u mtime n off len now c =
     (case valid_blob key u mtime n c of
        None \<Rightarrow> (None, c)
      | Some blob \<Rightarrow>
          (let c1 = touch (key u) now c
           in if off \<ge> n then (Some [], c1)
              else (read_exact_at blob off (min (saturating_add off len) n - off), c1)))"

definition read_thumbnail :: "(uid \<Rightarrow> string) \<Rightarrow> uid \<Rightarrow> nat \<Rightarrow> int \<Rightarrow> millis \<Rightarrow> content_cache \<Rightarrow> byte list option \<times> content_cache" where
  "read_thumbnail key u ttype mtime now c =
     (if map_of (cc_tags c) (KIND_THUMB, thumb_key key u ttype) = Some (ThumbMeta mtime)
      then (case map_of (cc_files c) (KIND_THUMB, thumb_key key u ttype) of
              None \<Rightarrow> (None, c)
            | Some data \<Rightarrow> (Some data, touch (thumb_key key u ttype) now c))
      else (None, c))"

section \<open>Block geometry\<close>

record block_span =
  bs_idx :: nat
  bs_start :: nat
  bs_len :: nat

record block_geometry =
  bg_starts :: "nat list"
  bg_sizes :: "nat list"
  bg_size :: nat

definition block_len :: "nat \<Rightarrow> nat \<Rightarrow> nat" where
  "block_len n idx = min (n - min U64_MAX (idx * BLOCK_SIZE)) BLOCK_SIZE"

fun prefix_starts :: "nat \<Rightarrow> nat list \<Rightarrow> nat list \<times> nat" where
  "prefix_starts at [] = ([], at)"
| "prefix_starts at (n # ns) = (case prefix_starts (saturating_add at n) ns of (starts, stop) \<Rightarrow> (at # starts, stop))"

definition from_sizes :: "nat list \<Rightarrow> block_geometry" where
  "from_sizes sizes =
     (let kept = rev (dropWhile (\<lambda>n. n = 0) (rev sizes)); (starts, stop) = prefix_starts 0 kept
      in \<lparr>bg_starts = starts, bg_sizes = kept, bg_size = stop\<rparr>)"

definition uniform :: "nat \<Rightarrow> block_geometry" where
  "uniform n = from_sizes (map (block_len n) [0..<(n + BLOCK_SIZE - 1) div BLOCK_SIZE])"

definition span :: "block_geometry \<Rightarrow> nat \<Rightarrow> block_span option" where
  "span g idx = (if idx < length (bg_starts g)
     then Some \<lparr>bs_idx = idx, bs_start = bg_starts g ! idx, bs_len = bg_sizes g ! idx\<rparr> else None)"

text \<open>\<open>partition_point\<close> on a sorted list is the length of the prefix that satisfies the test.\<close>

definition index_at :: "block_geometry \<Rightarrow> nat \<Rightarrow> nat option" where
  "index_at g at =
     (if at \<ge> bg_size g then None
      else case length (takeWhile (\<lambda>s. s \<le> at) (bg_starts g)) of 0 \<Rightarrow> None | Suc i \<Rightarrow> Some i)"

definition spans :: "block_geometry \<Rightarrow> nat \<Rightarrow> nat \<Rightarrow> block_span list" where
  "spans g off stop = (case index_at g off of
      None \<Rightarrow> []
    | Some first \<Rightarrow>
        (if stop \<le> off then []
         else let last_idx = (case index_at g (stop - 1) of Some i \<Rightarrow> i | None \<Rightarrow> length (bg_sizes g) - 1)
              in List.map_filter (span g) [first..<Suc last_idx]))"

definition block_geometry_of :: "(uid \<Rightarrow> string) \<Rightarrow> uid \<Rightarrow> int \<Rightarrow> nat \<Rightarrow> content_cache \<Rightarrow> block_geometry option" where
  "block_geometry_of key u mtime n c = (case map_of (cc_geom c) (key u) of
      None \<Rightarrow> None
    | Some m \<Rightarrow> (if gm_mtime m \<noteq> mtime \<or> gm_size m \<noteq> n then None
                else let g = from_sizes (gm_sizes m) in if bg_size g = n then Some g else None))"

definition store_block_geometry :: "(uid \<Rightarrow> string) \<Rightarrow> uid \<Rightarrow> int \<Rightarrow> nat \<Rightarrow> nat list \<Rightarrow> content_cache \<Rightarrow> content_cache" where
  "store_block_geometry key u mtime n sizes c =
     c\<lparr>cc_geom := AList.update (key u) \<lparr>gm_mtime = mtime, gm_size = n, gm_sizes = sizes\<rparr> (cc_geom c)\<rparr>"

section \<open>Blocks\<close>

definition block_tag :: "(uid \<Rightarrow> string) \<Rightarrow> uid \<Rightarrow> int \<Rightarrow> nat \<Rightarrow> block_span \<Rightarrow> content_cache \<Rightarrow> bool" where
  "block_tag key u mtime n s c = (case map_of (cc_tags c) (KIND_BLOCK, block_key key u (bs_idx s)) of
      Some (BlockMeta m z start) \<Rightarrow> m = mtime \<and> z = n \<and>
        (case start of Some st \<Rightarrow> st | None \<Rightarrow> min U64_MAX (bs_idx s * BLOCK_SIZE)) = bs_start s
    | _ \<Rightarrow> False)"

definition has_block :: "(uid \<Rightarrow> string) \<Rightarrow> uid \<Rightarrow> int \<Rightarrow> nat \<Rightarrow> block_span \<Rightarrow> content_cache \<Rightarrow> bool" where
  "has_block key u mtime n s c = (block_tag key u mtime n s c \<and>
     (case map_of (cc_files c) (KIND_BLOCK, block_key key u (bs_idx s)) of Some data \<Rightarrow> length data = bs_len s | None \<Rightarrow> False))"

definition cached_block :: "(uid \<Rightarrow> string) \<Rightarrow> uid \<Rightarrow> int \<Rightarrow> nat \<Rightarrow> block_span \<Rightarrow> millis \<Rightarrow> content_cache \<Rightarrow> byte list option \<times> content_cache" where
  "cached_block key u mtime n s now c =
     (if \<not> block_tag key u mtime n s c then (None, c)
      else case map_of (cc_files c) (KIND_BLOCK, block_key key u (bs_idx s)) of
             None \<Rightarrow> (None, c)
           | Some data \<Rightarrow> (if length data \<noteq> bs_len s then (None, c)
                          else (Some data, touch (block_key key u (bs_idx s)) now c)))"

definition store_block :: "(uid \<Rightarrow> string) \<Rightarrow> uid \<Rightarrow> int \<Rightarrow> nat \<Rightarrow> block_span \<Rightarrow> byte list \<Rightarrow> millis \<Rightarrow> content_cache \<Rightarrow> content_cache" where
  "store_block key u mtime n s data now c =
     enforce_block_budget (put_file KIND_BLOCK (block_key key u (bs_idx s)) data (BlockMeta mtime n (Some (bs_start s))) now c)"

text \<open>\<open>copy_cached_to\<close>: the whole content from the blob, or from blocks that are all there.\<close>

fun copy_blocks :: "(uid \<Rightarrow> string) \<Rightarrow> uid \<Rightarrow> int \<Rightarrow> nat \<Rightarrow> block_span list \<Rightarrow> millis \<Rightarrow> content_cache \<Rightarrow> byte list option \<times> content_cache" where
  "copy_blocks key u mtime n [] now c = (Some [], c)"
| "copy_blocks key u mtime n (s # ss) now c = (case cached_block key u mtime n s now c of
      (None, c1) \<Rightarrow> (None, c1)
    | (Some data, c1) \<Rightarrow> (case copy_blocks key u mtime n ss now c1 of
          (rest, c2) \<Rightarrow> (map_option (\<lambda>r. data @ r) rest, c2)))"

definition copy_cached_to :: "(uid \<Rightarrow> string) \<Rightarrow> uid \<Rightarrow> int \<Rightarrow> nat \<Rightarrow> millis \<Rightarrow> content_cache \<Rightarrow> byte list option \<times> content_cache" where
  "copy_cached_to key u mtime n now c =
     (if n = 0 then (None, c)
      else case valid_blob key u mtime n c of
             Some blob \<Rightarrow> (Some blob, touch (key u) now c)
           | None \<Rightarrow>
               (let g = (case block_geometry_of key u mtime n c of Some g \<Rightarrow> g | None \<Rightarrow> uniform n)
                in if bg_size g \<noteq> n then (None, c)
                   else let ss = spans g 0 n
                        in if \<not> list_all (\<lambda>s. has_block key u mtime n s c) ss then (None, c)
                           else case copy_blocks key u mtime n ss now c of
                                  (data, c1) \<Rightarrow> (case data of Some xs \<Rightarrow> (if length xs = n then Some xs else None) | None \<Rightarrow> None, c1)))"

section \<open>Clearing and rebuilding\<close>

definition starts_with_str :: "string \<Rightarrow> string \<Rightarrow> bool" where
  "starts_with_str p s = (take (length p) s = p)"

text \<open>\<open>evict\<close>: everything cached of a node, by name.\<close>

definition evict :: "(uid \<Rightarrow> string) \<Rightarrow> uid \<Rightarrow> content_cache \<Rightarrow> content_cache" where
  "evict key u c =
     (let gone = (\<lambda>(kind, k). (kind = KIND_BLOB \<and> k = key u) \<or>
            (kind = KIND_THUMB \<and> (k = thumb_key key u 1 \<or> k = thumb_key key u 2)) \<or>
            (kind = KIND_BLOCK \<and> starts_with_str (key u @ ''.b'') k))
      in reseed_totals (c\<lparr>cc_files := filter (\<lambda>f. \<not> gone (fst f)) (cc_files c),
           cc_tags := filter (\<lambda>f. \<not> gone (fst f)) (cc_tags c), cc_geom := AList.delete (key u) (cc_geom c),
           cc_rows := cache_remove_all (key u) (cc_rows c)\<rparr>))"

definition remove_pin :: "(uid \<Rightarrow> string) \<Rightarrow> db \<Rightarrow> uid \<Rightarrow> content_cache \<Rightarrow> db \<times> content_cache" where
  "remove_pin key d u c = (snd (pin_remove d u), evict key u c)"

definition clear_kind :: "(string \<Rightarrow> bool) \<Rightarrow> cache_kind \<Rightarrow> nat \<times> content_cache \<Rightarrow> nat \<times> content_cache" where
  "clear_kind exempt kind = (\<lambda>(freed, c).
     fold (\<lambda>(k, n) (freed, c). if exempt k then (freed, c) else (saturating_add freed n, evict_key kind k c))
       (cache_entries_by_kind kind (cc_rows c)) (freed, c))"

definition clear_unpinned :: "(uid \<Rightarrow> string) \<Rightarrow> db \<Rightarrow> content_cache \<Rightarrow> nat \<times> content_cache" where
  "clear_unpinned key d c =
     (case clear_kind (\<lambda>_. False) KIND_THUMB (clear_kind (\<lambda>_. False) KIND_BLOCK (clear_kind (pinned_keys key d) KIND_BLOB (0, c))) of
        (freed, c1) \<Rightarrow> (freed, reseed_totals c1))"

definition usage :: "content_cache \<Rightarrow> nat" where
  "usage c = blob_bytes c + block_bytes c + thumb_bytes c"

text \<open>
  \<open>reconcile\<close> at open: the index is rebuilt from the files there are, each with the time it was last
  modified (\<open>mtime_of\<close>), tags without a file are removed, and \<open>open\<close> then takes the totals from it.
\<close>

definition reconcile :: "(cache_kind \<times> string \<Rightarrow> millis) \<Rightarrow> content_cache \<Rightarrow> content_cache" where
  "reconcile mtime_of c = reseed_totals
     (c\<lparr>cc_tags := filter (\<lambda>t. map_of (cc_files c) (fst t) \<noteq> None) (cc_tags c),
        cc_rows := cache_rebuild (map (\<lambda>f. \<lparr>ce_key = snd (fst f), ce_kind = fst (fst f), ce_size = length (snd f),
            ce_last = mtime_of (fst f)\<rparr>) (cc_files c))\<rparr>)"

end
