(* ===== verification/Cache_Spec.thy ===== *)
theory Cache_Spec
  imports Content_Cache "HOL-Library.Multiset"
begin

text \<open>
  What the content cache promises: eviction takes the coldest entries first, only while the pool is
  over its share, never an exempt one; where it stops too early; the running totals never count less
  than the index; a block is only served to the revision and place it was stored for; and the blocks
  of a geometry tile the file.
\<close>

section \<open>Eviction order\<close>

lemma exI2: "P a b \<Longrightarrow> \<exists>x y. P x y"
  by blast

definition lru :: "cache_kind \<Rightarrow> cache_entry list \<Rightarrow> cache_entry list" where
  "lru kind rows = sort_key ce_last (filter (\<lambda>r. ce_kind r = kind) rows)"

definition bytes :: "cache_entry list \<Rightarrow> nat" where
  "bytes rows = sum_list (map ce_size rows)"

abbreviation kv :: "cache_entry \<Rightarrow> string \<times> nat" where
  "kv r \<equiv> (ce_key r, ce_size r)"

definition wf_index :: "cache_entry list \<Rightarrow> bool" where
  "wf_index rows = distinct (map ce_key rows)"

lemma bytes_simps [simp]: "bytes [] = 0" "bytes (r # rs) = ce_size r + bytes rs" "bytes (rs @ ss) = bytes rs + bytes ss"
  by (simp_all add: bytes_def)

lemma lru_set: "set (lru kind rows) = {r \<in> set rows. ce_kind r = kind}"
  by (auto simp: lru_def)

lemma lru_bytes: "bytes (lru kind rows) = cache_total_bytes kind rows"
proof -
  have "mset (map ce_size (lru kind rows)) = mset (map ce_size (filter (\<lambda>r. ce_kind r = kind) rows))" by (simp add: lru_def)
  then have "sum_mset (mset (map ce_size (lru kind rows))) = sum_mset (mset (map ce_size (filter (\<lambda>r. ce_kind r = kind) rows)))"
    by (rule arg_cong)
  then show ?thesis unfolding bytes_def cache_total_bytes_def sum_mset_sum_list .
qed

lemma lru_remove: "lru kind (cache_remove k rows) = filter (\<lambda>r. ce_key r \<noteq> k) (lru kind rows)"
proof -
  have "filter (\<lambda>r. ce_kind r = kind) (cache_remove k rows) = filter (\<lambda>r. ce_key r \<noteq> k) (filter (\<lambda>r. ce_kind r = kind) rows)"
    by (simp add: cache_remove_def delete_where_def conj_commute)
  then show ?thesis unfolding lru_def by (metis filter_sort)
qed

lemma candidates_lru: "cache_eviction_candidates kind n rows = map kv (take n (lru kind rows))"
  by (simp add: cache_eviction_candidates_def cache_entries_by_kind_def lru_def take_map)

lemma wf_index_remove: "wf_index rows \<Longrightarrow> wf_index (cache_remove k rows)"
  by (simp add: wf_index_def cache_remove_def delete_where_def distinct_map_filter)

lemma lru_distinct: "wf_index rows \<Longrightarrow> distinct (map ce_key (lru kind rows))"
proof -
  assume "wf_index rows"
  then have "distinct (map ce_key (filter (\<lambda>r. ce_kind r = kind) rows))" by (simp add: wf_index_def distinct_map_filter)
  moreover have "mset (map ce_key (lru kind rows)) = mset (map ce_key (filter (\<lambda>r. ce_kind r = kind) rows))"
    by (simp add: lru_def)
  ultimately show ?thesis by (metis mset_eq_imp_distinct_iff)
qed

text \<open>Removing the first entry of a suffix removes that entry only.\<close>

lemma lru_remove_at:
  assumes "wf_index rows" and "lru kind rows = P @ r # Q"
  shows "lru kind (cache_remove (ce_key r) rows) = P @ Q"
proof -
  have "distinct (map ce_key (P @ r # Q))" using lru_distinct [OF assms(1), of kind] assms(2) by simp
  then have "filter (\<lambda>x. ce_key x \<noteq> ce_key r) P = P" "filter (\<lambda>x. ce_key x \<noteq> ce_key r) Q = Q"
    by (auto intro!: filter_True intro: rev_image_eqI)
  then show ?thesis by (simp add: lru_remove assms(2))
qed

definition others :: "cache_kind \<Rightarrow> cache_entry list \<Rightarrow> cache_entry list" where
  "others kind rows = filter (\<lambda>r. ce_kind r \<noteq> kind) rows"

lemma others_remove:
  assumes "wf_index rows" and "r \<in> set (lru kind rows)"
  shows "others kind (cache_remove (ce_key r) rows) = others kind rows"
proof -
  have "ce_kind s = kind" if "s \<in> set rows" "ce_key s = ce_key r" for s
    using assms that by (auto simp: lru_set wf_index_def distinct_map inj_on_def)
  then show ?thesis by (auto simp: others_def cache_remove_def delete_where_def intro: filter_cong)
qed

lemma evict_batch_spec:
  assumes "evict_batch exempt cap kind (map kv B) (length P) running c = (s, r, ev, c')"
    and "lru kind (cc_rows c) = P @ B @ Q" and "wf_index (cc_rows c)" and "running = bytes (P @ B @ Q)"
  shows "\<exists>B1 B2. B = B1 @ B2 \<and> s = length (P @ filter (\<lambda>a. exempt (ce_key a)) B1) \<and>
           lru kind (cc_rows c') = P @ filter (\<lambda>a. exempt (ce_key a)) B1 @ B2 @ Q \<and> r = bytes (lru kind (cc_rows c')) \<and>
           wf_index (cc_rows c') \<and> others kind (cc_rows c') = others kind (cc_rows c) \<and>
           (ev \<longleftrightarrow> filter (\<lambda>a. \<not> exempt (ce_key a)) B1 \<noteq> []) \<and> (B2 = [] \<or> r \<le> cap) \<and>
           (ev \<longrightarrow> cap < r + ce_size (last (filter (\<lambda>a. \<not> exempt (ce_key a)) B1)))"
  using assms
proof (induction B arbitrary: P running c s r ev c')
  case Nil
  then show ?case by (intro exI2 [of _ "[]" "[]"]) auto
next
  case (Cons x B)
  consider "running \<le> cap" | "cap < running" "exempt (ce_key x)" | "cap < running" "\<not> exempt (ce_key x)" by linarith
  then show ?case
  proof cases
    case 1
    then show ?thesis using Cons.prems by (intro exI2 [of _ "[]" "x # B"]) auto
  next
    case 2
    have run: "evict_batch exempt cap kind (map kv B) (length (P @ [x])) running c = (s, r, ev, c')"
      using Cons.prems(1) 2 by simp
    have at: "lru kind (cc_rows c) = (P @ [x]) @ B @ Q" "running = bytes ((P @ [x]) @ B @ Q)" using Cons.prems(2,4) by simp_all
    obtain B1 B2 where B: "B = B1 @ B2" "s = length ((P @ [x]) @ filter (\<lambda>a. exempt (ce_key a)) B1)"
      "lru kind (cc_rows c') = (P @ [x]) @ filter (\<lambda>a. exempt (ce_key a)) B1 @ B2 @ Q" "r = bytes (lru kind (cc_rows c'))"
      "wf_index (cc_rows c')" "others kind (cc_rows c') = others kind (cc_rows c)"
      "ev \<longleftrightarrow> filter (\<lambda>a. \<not> exempt (ce_key a)) B1 \<noteq> []" "B2 = [] \<or> r \<le> cap"
      "ev \<longrightarrow> cap < r + ce_size (last (filter (\<lambda>a. \<not> exempt (ce_key a)) B1))"
      using Cons.IH [OF run at(1) Cons.prems(3) at(2)] by blast
    then show ?thesis using 2(2) by (intro exI2 [of _ "x # B1" B2]) simp
  next
    case 3
    define d where "d = evict_key kind (ce_key x) c"
    obtain b where ev: "evict_batch exempt cap kind (map kv B) (length P) (running - ce_size x) d = (s, r, b, c')" "ev"
      using Cons.prems(1) 3 by (auto simp: d_def split: prod.splits)
    have rows: "cc_rows d = cache_remove (ce_key x) (cc_rows c)" by (simp add: d_def evict_key_def)
    have lru: "lru kind (cc_rows d) = P @ B @ Q" unfolding rows by (rule lru_remove_at [OF Cons.prems(3)]) (simp add: Cons.prems(2))
    have wf: "wf_index (cc_rows d)" unfolding rows by (rule wf_index_remove [OF Cons.prems(3)])
    have oth: "others kind (cc_rows d) = others kind (cc_rows c)"
      unfolding rows by (rule others_remove [OF Cons.prems(3)]) (simp add: Cons.prems(2))
    have run: "running - ce_size x = bytes (P @ B @ Q)" using Cons.prems(4) by simp
    from Cons.IH [OF ev(1) lru wf run] obtain B1 B2 where B: "B = B1 @ B2" "s = length (P @ filter (\<lambda>a. exempt (ce_key a)) B1)"
      "lru kind (cc_rows c') = P @ filter (\<lambda>a. exempt (ce_key a)) B1 @ B2 @ Q" "r = bytes (lru kind (cc_rows c'))"
      "wf_index (cc_rows c')" "others kind (cc_rows c') = others kind (cc_rows d)"
      "b \<longleftrightarrow> filter (\<lambda>a. \<not> exempt (ce_key a)) B1 \<noteq> []" "B2 = [] \<or> r \<le> cap"
      "b \<longrightarrow> cap < r + ce_size (last (filter (\<lambda>a. \<not> exempt (ce_key a)) B1))"
      by blast
    have "cap < r + ce_size x" if "\<not> b"
    proof -
      have "filter (\<lambda>a. exempt (ce_key a)) B1 = B1" using B(7) that by (auto simp: filter_empty_conv intro: filter_True)
      then have "r = running - ce_size x" using B(1,3,4) run by simp
      then show ?thesis using 3(1) by linarith
    qed
    with B 3(2) ev(2) oth show ?thesis by (intro exI2 [of _ "x # B1" B2]) auto
  qed
qed

lemma filter_split_id: "filter (\<lambda>a. \<not> P a) xs = [] \<Longrightarrow> filter P xs = xs"
  by (induction xs) (auto split: if_splits)

lemma EVICT_BATCH_pos [simp]: "0 < EVICT_BATCH"
  by (simp add: EVICT_BATCH_def)

lemma enforce_loop_spec:
  assumes "lru kind (cc_rows c) = P @ R" and "skipped = length P" and "wf_index (cc_rows c)" and "running = bytes (P @ R)"
  shows "\<exists>A B. R = A @ B \<and> lru kind (cc_rows (enforce_loop exempt cap kind skipped running c)) = P @ filter (\<lambda>a. exempt (ce_key a)) A @ B \<and>
           wf_index (cc_rows (enforce_loop exempt cap kind skipped running c)) \<and>
           others kind (cc_rows (enforce_loop exempt cap kind skipped running c)) = others kind (cc_rows c) \<and>
           (bytes (P @ filter (\<lambda>a. exempt (ce_key a)) A @ B) \<le> cap \<or> B = [] \<or> EVICT_BATCH \<le> length (P @ filter (\<lambda>a. exempt (ce_key a)) A)) \<and>
           (filter (\<lambda>a. \<not> exempt (ce_key a)) A \<noteq> [] \<longrightarrow>
              cap < bytes (P @ filter (\<lambda>a. exempt (ce_key a)) A @ B) + ce_size (last (filter (\<lambda>a. \<not> exempt (ce_key a)) A)))"
  using assms
proof (induction exempt cap kind skipped running c arbitrary: P R rule: enforce_loop.induct)
  case (1 exempt cap kind skipped running c)
  let ?loop = "enforce_loop exempt cap kind skipped running c"
  show ?case
  proof (cases "running \<le> cap \<or> R = []")
    case True
    moreover have "?loop = c"
      using True "1.prems"(1,2) by (subst enforce_loop.simps) (auto simp: candidates_lru Let_def)
    ultimately show ?thesis using "1.prems" by (intro exI2 [of _ "[]" R]) auto
  next
    case False
    define batch where "batch = cache_eviction_candidates kind (skipped + EVICT_BATCH) (cc_rows c)"
    have b: "drop skipped batch = map kv (take EVICT_BATCH R)" "\<not> length batch \<le> skipped"
      using False "1.prems"(1,2) by (auto simp: batch_def candidates_lru drop_map)
    obtain s r ev c1 where ev: "evict_batch exempt cap kind (map kv (take EVICT_BATCH R)) (length P) running c = (s, r, ev, c1)"
      by (cases "evict_batch exempt cap kind (map kv (take EVICT_BATCH R)) (length P) running c")
    have ev': "evict_batch exempt cap kind (drop skipped batch) skipped running c = (s, r, ev, c1)"
      using ev "1.prems"(2) unfolding b(1) by simp
    have loop: "?loop = (if \<not> ev then c1 else enforce_loop exempt cap kind s r c1)"
      unfolding enforce_loop.simps [of exempt cap kind skipped running c] batch_def [symmetric] Let_def
      using False b(2) ev' by simp
    have at: "lru kind (cc_rows c) = P @ take EVICT_BATCH R @ drop EVICT_BATCH R" "running = bytes (P @ take EVICT_BATCH R @ drop EVICT_BATCH R)"
      using "1.prems"(1,4) by (simp_all del: bytes_simps)
    obtain B1 B2 where B: "take EVICT_BATCH R = B1 @ B2" "s = length (P @ filter (\<lambda>a. exempt (ce_key a)) B1)"
      "lru kind (cc_rows c1) = P @ filter (\<lambda>a. exempt (ce_key a)) B1 @ B2 @ drop EVICT_BATCH R" "r = bytes (lru kind (cc_rows c1))"
      "wf_index (cc_rows c1)" "others kind (cc_rows c1) = others kind (cc_rows c)"
      "ev \<longleftrightarrow> filter (\<lambda>a. \<not> exempt (ce_key a)) B1 \<noteq> []" "B2 = [] \<or> r \<le> cap"
      "ev \<longrightarrow> cap < r + ce_size (last (filter (\<lambda>a. \<not> exempt (ce_key a)) B1))"
      using evict_batch_spec [OF ev at(1) "1.prems"(3) at(2)] by blast
    have R: "R = B1 @ B2 @ drop EVICT_BATCH R" using B(1) by (metis append.assoc append_take_drop_id)
    show ?thesis
    proof (cases ev)
      case False
      then have ex: "filter (\<lambda>a. exempt (ce_key a)) B1 = B1" using B(7) filter_split_id [of "\<lambda>a. exempt (ce_key a)" B1] by simp
      then have "r = running" using B(3,4) R "1.prems"(4) by (metis append.assoc)
      with B(8) \<open>\<not> (running \<le> cap \<or> R = [])\<close> have "B2 = []" by simp
      moreover have "EVICT_BATCH \<le> length B1 \<or> drop EVICT_BATCH R = []"
        using B(1) \<open>B2 = []\<close> by (metis append_Nil2 drop_all length_take min.absorb2 nle_le)
      ultimately show ?thesis
        using loop False B ex R by (intro exI2 [of _ B1 "drop EVICT_BATCH R"]) auto
    next
      case True
      let ?P = "P @ filter (\<lambda>a. exempt (ce_key a)) B1" and ?R = "B2 @ drop EVICT_BATCH R"
      have "lru kind (cc_rows c1) = ?P @ ?R" "r = bytes (?P @ ?R)" using B(3,4) by simp_all
      then obtain A' B' where A: "?R = A' @ B'"
        "lru kind (cc_rows (enforce_loop exempt cap kind s r c1)) = ?P @ filter (\<lambda>a. exempt (ce_key a)) A' @ B'"
        "wf_index (cc_rows (enforce_loop exempt cap kind s r c1))"
        "others kind (cc_rows (enforce_loop exempt cap kind s r c1)) = others kind (cc_rows c1)"
        "bytes (?P @ filter (\<lambda>a. exempt (ce_key a)) A' @ B') \<le> cap \<or> B' = [] \<or> EVICT_BATCH \<le> length (?P @ filter (\<lambda>a. exempt (ce_key a)) A')"
        "filter (\<lambda>a. \<not> exempt (ce_key a)) A' \<noteq> [] \<longrightarrow>
           cap < bytes (?P @ filter (\<lambda>a. exempt (ce_key a)) A' @ B') + ce_size (last (filter (\<lambda>a. \<not> exempt (ce_key a)) A'))"
        using "1.IH" [OF _ batch_def b(2) ev' [symmetric] refl refl, of ?P ?R] B(2,5) True \<open>\<not> (running \<le> cap \<or> R = [])\<close> by blast
      have "cap < bytes (?P @ filter (\<lambda>a. exempt (ce_key a)) A' @ B') + ce_size (last (filter (\<lambda>a. \<not> exempt (ce_key a)) (B1 @ A')))"
      proof (cases "filter (\<lambda>a. \<not> exempt (ce_key a)) A' = []")
        case empty: True
        then have "filter (\<lambda>a. exempt (ce_key a)) A' = A'" by (rule filter_split_id)
        with B(9) True A(1) \<open>r = bytes (?P @ ?R)\<close> empty show ?thesis by simp
      qed (use A(6) in simp)
      with A loop True R B(6) show ?thesis by (intro exI2 [of _ "B1 @ A'" B']) (simp add: add.assoc)
    qed
  qed
qed

lemma cache_accessed_key [simp]:
  "map ce_key (cache_accessed k at rows) = map ce_key rows" "map ce_size (filter (\<lambda>r. ce_kind r = kind) (cache_accessed k at rows)) = map ce_size (filter (\<lambda>r. ce_kind r = kind) rows)"
  by (induction rows) (auto simp: cache_accessed_def update_where_def)

lemma flush_keys: "map ce_key (cc_rows (flush_touches c)) = map ce_key (cc_rows c)"
  "cache_total_bytes kind (cc_rows (flush_touches c)) = cache_total_bytes kind (cc_rows c)"
proof -
  have "map ce_key (cache_accessed_batch ts rows) = map ce_key rows \<and>
      map ce_size (filter (\<lambda>r. ce_kind r = kind) (cache_accessed_batch ts rows)) = map ce_size (filter (\<lambda>r. ce_kind r = kind) rows)" for ts rows
    by (induction ts arbitrary: rows) (auto simp: cache_accessed_batch_def)
  then show "map ce_key (cc_rows (flush_touches c)) = map ce_key (cc_rows c)"
    "cache_total_bytes kind (cc_rows (flush_touches c)) = cache_total_bytes kind (cc_rows c)"
    by (simp_all add: flush_touches_def cache_total_bytes_def)
qed

lemma flush_wf: "wf_index (cc_rows c) \<Longrightarrow> wf_index (cc_rows (flush_touches c))"
  by (simp add: wf_index_def flush_keys)

lemma reseed_fields [simp]: "cc_rows (reseed_totals c) = cc_rows c" "pool kind (reseed_totals c) = cache_total_bytes kind (cc_rows c)"
  "cc_files (reseed_totals c) = cc_files c" "cc_tags (reseed_totals c) = cc_tags c" "max_bytes (reseed_totals c) = max_bytes c"
  by (simp_all add: reseed_totals_def pool_def split: cache_kind.split)

lemma flush_pool [simp]: "pool kind (flush_touches c) = pool kind c" "max_bytes (flush_touches c) = max_bytes c"
  by (simp_all add: flush_touches_def pool_def split: cache_kind.split)

text \<open>
  C26. Eviction is least-recently-used and no more than is needed. A pool over its share of the budget
  loses a prefix of its entries in the order they were last used, except the exempt ones (pinned
  blobs) of that prefix; the last entry taken was needed to get under the share; every other pool
  keeps its rows; the running total is exact again. The pool then fits, or only exempt entries are
  left, or at least 64 exempt entries were passed.
\<close>

theorem eviction_takes_the_coldest:
  assumes "wf_index (cc_rows c)" and "pool_cap kind c \<noteq> 0" and "pool_cap kind c < pool kind c"
    and "c' = enforce_pool exempt kind c"
  shows "\<exists>A B. lru kind (cc_rows (flush_touches c)) = A @ B \<and>
           lru kind (cc_rows c') = filter (\<lambda>a. exempt (ce_key a)) A @ B \<and>
           others kind (cc_rows c') = others kind (cc_rows (flush_touches c)) \<and>
           pool kind c' = cache_total_bytes kind (cc_rows c') \<and>
           (pool kind c' \<le> pool_cap kind c \<or> (\<forall>r \<in> set (lru kind (cc_rows c')). exempt (ce_key r)) \<or>
            EVICT_BATCH \<le> length (filter (\<lambda>a. exempt (ce_key a)) A)) \<and>
           (filter (\<lambda>a. \<not> exempt (ce_key a)) A \<noteq> [] \<longrightarrow>
              pool_cap kind c < pool kind c' + ce_size (last (filter (\<lambda>a. \<not> exempt (ce_key a)) A)))"
proof -
  define f where "f = flush_touches c"
  define e where "e = enforce_loop exempt (pool_cap kind c) kind 0 (cache_total_bytes kind (cc_rows f)) f"
  have c': "c' = reseed_totals e"
    using assms(2,3,4) by (simp add: enforce_pool_def Let_def e_def f_def)
  obtain A B where AB: "lru kind (cc_rows f) = A @ B" "lru kind (cc_rows e) = filter (\<lambda>a. exempt (ce_key a)) A @ B"
    "others kind (cc_rows e) = others kind (cc_rows f)"
    "bytes (filter (\<lambda>a. exempt (ce_key a)) A @ B) \<le> pool_cap kind c \<or> B = [] \<or> EVICT_BATCH \<le> length (filter (\<lambda>a. exempt (ce_key a)) A)"
    "filter (\<lambda>a. \<not> exempt (ce_key a)) A \<noteq> [] \<longrightarrow>
       pool_cap kind c < bytes (filter (\<lambda>a. exempt (ce_key a)) A @ B) + ce_size (last (filter (\<lambda>a. \<not> exempt (ce_key a)) A))"
    using enforce_loop_spec [of kind f "[]" "lru kind (cc_rows f)" 0 "cache_total_bytes kind (cc_rows f)" exempt "pool_cap kind c"]
      flush_wf [OF assms(1)] lru_bytes [of kind "cc_rows f"] unfolding e_def f_def by auto
  have pool: "pool kind c' = bytes (lru kind (cc_rows e))" "cc_rows c' = cc_rows e" by (simp_all add: c' lru_bytes)
  have "pool kind c' \<le> pool_cap kind c \<or> (\<forall>r \<in> set (lru kind (cc_rows c')). exempt (ce_key r)) \<or>
      EVICT_BATCH \<le> length (filter (\<lambda>a. exempt (ce_key a)) A)"
    using AB(2,4) pool by auto
  with AB pool show ?thesis unfolding f_def by (intro exI2 [of _ A B]) (simp add: lru_bytes [symmetric])
qed

definition row :: "string \<Rightarrow> nat \<Rightarrow> millis \<Rightarrow> cache_entry" where
  "row k n at = \<lparr>ce_key = k, ce_kind = KIND_BLOB, ce_size = n, ce_last = at\<rparr>"

definition cache_of :: "cache_entry list \<Rightarrow> nat \<Rightarrow> content_cache" where
  "cache_of rows budget = reseed_totals \<lparr>cc_files = [], cc_tags = [], cc_geom = [], cc_rows = rows, blob_bytes = 0,
     block_bytes = 0, thumb_bytes = 0, touches = [], max_bytes = budget\<rparr>"

definition three_blobs :: content_cache where
  "three_blobs = cache_of [row ''a'' 30 3, row ''p'' 30 1, row ''b'' 30 2] 100"

theorem eviction_takes_the_coldest_witness:
  "pool_cap KIND_BLOB three_blobs < pool KIND_BLOB three_blobs \<and>
   map ce_key (lru KIND_BLOB (cc_rows (enforce_pool (\<lambda>k. k = ''p'') KIND_BLOB three_blobs))) = [''p'', ''a''] \<and>
   pool KIND_BLOB (enforce_pool (\<lambda>k. k = ''p'') KIND_BLOB three_blobs) = 60"
proof -
  have cap: "pool_cap KIND_BLOB three_blobs = 70"
    by (simp add: pool_cap_def three_blobs_def cache_of_def SPLIT_BLOB_def U64_MAX_def)
  have over: "pool_cap KIND_BLOB three_blobs < pool KIND_BLOB three_blobs" "pool_cap KIND_BLOB three_blobs \<noteq> 0"
    unfolding cap by (simp_all add: three_blobs_def cache_of_def cache_total_bytes_def row_def)
  have wf: "wf_index (cc_rows three_blobs)" by (simp add: three_blobs_def cache_of_def wf_index_def row_def)
  have order: "lru KIND_BLOB (cc_rows (flush_touches three_blobs)) = [row ''p'' 30 1, row ''b'' 30 2, row ''a'' 30 3]"
    by (simp add: three_blobs_def cache_of_def reseed_totals_def flush_touches_def cache_accessed_batch_def lru_def row_def)
  obtain A B where AB: "[row ''p'' 30 1, row ''b'' 30 2, row ''a'' 30 3] = A @ B"
    "lru KIND_BLOB (cc_rows (enforce_pool (\<lambda>k. k = ''p'') KIND_BLOB three_blobs)) = filter (\<lambda>a. ce_key a = ''p'') A @ B"
    "pool KIND_BLOB (enforce_pool (\<lambda>k. k = ''p'') KIND_BLOB three_blobs) = bytes (filter (\<lambda>a. ce_key a = ''p'') A @ B)"
    "bytes (filter (\<lambda>a. ce_key a = ''p'') A @ B) \<le> 70 \<or> (\<forall>r \<in> set (filter (\<lambda>a. ce_key a = ''p'') A @ B). ce_key r = ''p'') \<or>
       EVICT_BATCH \<le> length (filter (\<lambda>a. ce_key a = ''p'') A)"
    "filter (\<lambda>a. ce_key a \<noteq> ''p'') A \<noteq> [] \<longrightarrow> 70 < bytes (filter (\<lambda>a. ce_key a = ''p'') A @ B) + ce_size (last (filter (\<lambda>a. ce_key a \<noteq> ''p'') A))"
    using eviction_takes_the_coldest [OF wf over(2,1) refl, of "\<lambda>k. k = ''p''"] unfolding order cap lru_bytes [symmetric] by metis
  have "A = [row ''p'' 30 1, row ''b'' 30 2] \<and> B = [row ''a'' 30 3]"
    using AB(1,4,5) by (auto simp: Cons_eq_append_conv row_def EVICT_BATCH_def)
  with AB(2,3) over(1) show ?thesis by (auto simp: row_def)
qed

lemma evict_batch_exempt:
  "\<forall>r \<in> set B. exempt (ce_key r) \<Longrightarrow> cap < run \<Longrightarrow> evict_batch exempt cap kind (map kv B) s run d = (s + length B, run, False, d)"
  by (induction B arbitrary: s) auto

text \<open>
  Sixty-four pinned blobs that nobody reads hold the eviction up. When the 64 coldest entries of a
  pool are exempt, a pass evicts nothing, whatever the pool holds beyond them and however far it is
  over its share: the batch without a victim is taken for the end of the candidates.
\<close>

theorem pinned_batch_stops_eviction:
  assumes "EVICT_BATCH \<le> length (lru kind (cc_rows (flush_touches c)))"
    and "\<forall>r \<in> set (take EVICT_BATCH (lru kind (cc_rows (flush_touches c)))). exempt (ce_key r)"
  shows "cc_rows (enforce_pool exempt kind c) = (if pool_cap kind c = 0 \<or> pool kind c \<le> pool_cap kind c then cc_rows c else cc_rows (flush_touches c))"
proof -
  define f where "f = flush_touches c"
  have "enforce_loop exempt cap kind 0 run f = f" for cap run
  proof (cases "run \<le> cap")
    case False
    then have "evict_batch exempt cap kind (map kv (take EVICT_BATCH (lru kind (cc_rows f)))) 0 run f =
        (length (take EVICT_BATCH (lru kind (cc_rows f))), run, False, f)"
      using evict_batch_exempt [of "take EVICT_BATCH (lru kind (cc_rows f))" exempt cap run kind 0 f] assms(2) unfolding f_def by simp
    then show ?thesis
      by (subst enforce_loop.simps) (simp add: candidates_lru Let_def)
  qed (subst enforce_loop.simps, simp)
  then show ?thesis by (simp add: enforce_pool_def Let_def f_def)
qed

definition crowded :: content_cache where
  "crowded = cache_of (map (\<lambda>i. row (show_nat i) 1 (int i)) [0..<64] @ [row ''x'' 1000 100]) 100"

theorem pinned_batch_stops_eviction_witness:
  "pool_cap KIND_BLOB crowded = 70 \<and> pool KIND_BLOB crowded = 1064 \<and>
   cc_rows (enforce_pool (\<lambda>k. k \<noteq> ''x'') KIND_BLOB crowded) = cc_rows crowded"
proof -
  have cap: "pool_cap KIND_BLOB crowded = 70"
    by (simp add: pool_cap_def crowded_def cache_of_def SPLIT_BLOB_def U64_MAX_def)
  have held: "pool KIND_BLOB crowded = 1064" by code_simp
  have len: "EVICT_BATCH \<le> length (lru KIND_BLOB (cc_rows (flush_touches crowded)))" by code_simp
  have "list_all (\<lambda>r. ce_key r \<noteq> ''x'') (take EVICT_BATCH (lru KIND_BLOB (cc_rows (flush_touches crowded))))" by code_simp
  then have ex: "\<forall>r \<in> set (take EVICT_BATCH (lru KIND_BLOB (cc_rows (flush_touches crowded)))). (\<lambda>k. k \<noteq> ''x'') (ce_key r)"
    by (simp add: list_all_iff)
  have "cc_rows (flush_touches crowded) = cc_rows crowded"
    by (simp add: flush_touches_def cache_accessed_batch_def crowded_def cache_of_def reseed_totals_def)
  with pinned_batch_stops_eviction [OF len ex] cap held show ?thesis by simp
qed

section \<open>The running totals\<close>

text \<open>
  The total of a pool counts at least what the index does: it may be high after a file was replaced,
  never low. So the test that settles most stores without a query never misses an overrun.
\<close>

definition totals_ok :: "content_cache \<Rightarrow> bool" where
  "totals_ok c = (wf_index (cc_rows c) \<and> (\<forall>kind. cache_total_bytes kind (cc_rows c) \<le> pool kind c))"

lemma cache_touch_total:
  assumes "wf_index rows"
  shows "cache_total_bytes kind' (cache_touch k kind n now rows) \<le> cache_total_bytes kind' rows + (if kind' = kind then n else 0)"
proof (cases "matches (\<lambda>r. ce_key r = k) rows")
  case True
  have "sum_list (map ce_size (filter (\<lambda>r. ce_kind r = kind') (update_where (\<lambda>r. ce_key r = k) (\<lambda>r. r\<lparr>ce_kind := kind, ce_size := n, ce_last := now\<rparr>) rows)))
      \<le> sum_list (map ce_size (filter (\<lambda>r. ce_kind r = kind') rows)) + (if kind' = kind \<and> k \<in> ce_key ` set rows then n else 0)"
    using assms unfolding wf_index_def
  proof (induction rows)
    case (Cons r rows)
    have same: "update_where (\<lambda>r. ce_key r = k) (\<lambda>r. r\<lparr>ce_kind := kind, ce_size := n, ce_last := now\<rparr>) rows = rows" if "ce_key r = k"
    proof -
      have "ce_key x \<noteq> k" if "x \<in> set rows" for x
        using Cons.prems \<open>ce_key r = k\<close> that by (metis distinct.simps(2) imageI list.map(2) list.set_map)
      then show ?thesis by (simp add: update_where_def map_idI)
    qed
    show ?case
    proof (cases "ce_key r = k")
      case True
      with same [OF True] show ?thesis by (simp add: update_where_def)
    next
      case False
      with Cons show ?thesis by (auto simp: update_where_def split: if_splits)
    qed
  qed (simp add: update_where_def)
  with True show ?thesis by (auto simp: cache_touch_def cache_total_bytes_def split: if_splits)
qed (simp add: cache_touch_def cache_total_bytes_def)

lemma cache_touch_wf: "wf_index rows \<Longrightarrow> wf_index (cache_touch k kind n now rows)"
proof -
  assume wf: "wf_index rows"
  have "map ce_key (update_where (\<lambda>r. ce_key r = k) (\<lambda>r. r\<lparr>ce_kind := kind, ce_size := n, ce_last := now\<rparr>) rows) = map ce_key rows"
    by (simp add: update_where_def)
  with wf show ?thesis
    by (auto simp: wf_index_def cache_touch_def matches_def list_ex_iff)
qed

lemma total_filter: "cache_total_bytes kind (filter P rows) \<le> cache_total_bytes kind rows"
  unfolding cache_total_bytes_def by (induction rows) auto

lemma pool_set [simp]: "pool kind (set_pool kind n c) = n" "kind' \<noteq> kind \<Longrightarrow> pool kind' (set_pool kind n c) = pool kind' c"
  "cc_rows (set_pool kind n c) = cc_rows c" "max_bytes (set_pool kind n c) = max_bytes c"
  by (auto simp: pool_def set_pool_def split: cache_kind.splits)

lemma put_file_ok:
  assumes "totals_ok c"
  shows "totals_ok (put_file kind k data t now c)"
proof -
  have "cache_total_bytes kind' (cache_touch k kind (length data) now (cc_rows c)) \<le> pool kind' (put_file kind k data t now c)" for kind'
  proof -
    have "pool kind' (put_file kind k data t now c) = pool kind' c + (if kind' = kind then length data else 0)"
      by (auto simp: put_file_def pool_def set_pool_def split: cache_kind.splits)
    with cache_touch_total [of "cc_rows c" kind' k kind "length data" now] assms show ?thesis
      unfolding totals_ok_def by (metis add_le_mono1 order_trans)
  qed
  then show ?thesis using assms cache_touch_wf by (auto simp: totals_ok_def put_file_def)
qed

lemma enforce_pool_ok:
  assumes "totals_ok c"
  shows "totals_ok (enforce_pool exempt kind c)"
proof (cases "pool_cap kind c = 0 \<or> pool kind c \<le> pool_cap kind c")
  case False
  let ?f = "flush_touches c"
  have wf: "wf_index (cc_rows ?f)" using assms flush_wf by (simp add: totals_ok_def)
  have "wf_index (cc_rows (enforce_loop exempt (pool_cap kind c) kind 0 (cache_total_bytes kind (cc_rows ?f)) ?f))"
    using enforce_loop_spec [of kind ?f "[]" "lru kind (cc_rows ?f)" 0 "cache_total_bytes kind (cc_rows ?f)" exempt "pool_cap kind c"]
      wf lru_bytes [of kind "cc_rows ?f"] by auto
  with False show ?thesis by (simp add: totals_ok_def enforce_pool_def Let_def)
qed (use assms in \<open>simp add: enforce_pool_def Let_def\<close>)

lemma touch_ok: "totals_ok c \<Longrightarrow> totals_ok (touch k now c)"
proof -
  assume ok: "totals_ok c"
  have one: "totals_ok (c\<lparr>touches := AList.update k now (touches c)\<rparr>)"
    using ok by (simp add: totals_ok_def pool_def split: cache_kind.splits)
  have "totals_ok (flush_touches d)" if "totals_ok d" for d
    using that by (simp add: totals_ok_def flush_wf flush_keys)
  with one show ?thesis by (simp add: touch_def Let_def)
qed

lemma reseed_ok: "wf_index (cc_rows c) \<Longrightarrow> totals_ok (reseed_totals c)"
  by (simp add: totals_ok_def)

lemma remove_all_wf: "wf_index rows \<Longrightarrow> wf_index (cache_remove_all k rows)"
  by (simp add: wf_index_def cache_remove_all_def delete_where_def distinct_map_filter)

lemma evict_ok: "totals_ok c \<Longrightarrow> totals_ok (evict key u c)"
  unfolding evict_def Let_def by (rule reseed_ok) (simp add: remove_all_wf totals_ok_def)

lemma total_remove:
  assumes "wf_index rows" and "r \<in> set rows" and "ce_kind r = kind"
  shows "cache_total_bytes kind (cache_remove (ce_key r) rows) + ce_size r = cache_total_bytes kind rows"
proof -
  obtain P Q where PQ: "lru kind rows = P @ r # Q" using assms(2,3) by (metis (mono_tags, lifting) lru_set mem_Collect_eq split_list)
  from lru_remove_at [OF assms(1) this] PQ show ?thesis by (simp add: lru_bytes [symmetric])
qed

lemma emergency_ok:
  assumes "totals_ok c"
  shows "totals_ok (emergency_evict key d c)"
proof (cases "find (\<lambda>(k, _). \<not> pinned_keys key d k) (cache_eviction_candidates KIND_BLOB 10 (cc_rows c))")
  case (Some kn)
  then obtain r where r: "kn = kv r" "r \<in> set (cc_rows c)" "ce_kind r = KIND_BLOB"
    using lru_set [of KIND_BLOB "cc_rows c"] by (auto simp: candidates_lru dest!: find_SomeD in_set_takeD)
  have wf: "wf_index (cc_rows c)" using assms by (simp add: totals_ok_def)
  have "cache_total_bytes kind (cache_remove (ce_key r) (cc_rows c)) \<le> pool kind (emergency_evict key d c)" for kind
  proof (cases "kind = KIND_BLOB")
    case True
    then have "cache_total_bytes kind (cc_rows c) \<le> blob_bytes c" using assms by (auto simp: totals_ok_def pool_def split: cache_kind.splits)
    with total_remove [OF wf r(2), of kind] r(3) True Some r(1) show ?thesis
      by (simp add: emergency_evict_def Let_def evict_key_def pool_def)
  next
    case False
    have "cache_total_bytes kind (cache_remove (ce_key r) (cc_rows c)) \<le> cache_total_bytes kind (cc_rows c)"
      unfolding cache_remove_def delete_where_def by (rule total_filter)
    also have "\<dots> \<le> pool kind c" using assms by (simp add: totals_ok_def)
    also have "pool kind c = pool kind (emergency_evict key d c)"
      using False Some r(1) by (auto simp: emergency_evict_def Let_def evict_key_def pool_def split: cache_kind.splits)
    finally show ?thesis .
  qed
  moreover have "cc_rows (emergency_evict key d c) = cache_remove (ce_key r) (cc_rows c)"
    using Some r(1) by (simp add: emergency_evict_def Let_def evict_key_def)
  ultimately show ?thesis using wf_index_remove [OF wf] by (simp add: totals_ok_def)
qed (use assms in \<open>simp add: emergency_evict_def\<close>)

lemma clear_kind_wf: "wf_index (cc_rows (snd fc)) \<Longrightarrow> wf_index (cc_rows (snd (clear_kind exempt kind fc)))"
proof -
  have "wf_index (cc_rows (snd (fold (\<lambda>(k, n) (freed, c). if exempt k then (freed, c) else (saturating_add freed n, evict_key kind k c)) ks fc)))"
    if "wf_index (cc_rows (snd fc))" for ks and fc :: "nat \<times> content_cache"
    using that
  proof (induction ks arbitrary: fc)
    case (Cons kn ks)
    then show ?case by (cases kn; cases fc) (auto simp: evict_key_def wf_index_remove)
  qed simp
  then show "wf_index (cc_rows (snd fc)) \<Longrightarrow> ?thesis" unfolding clear_kind_def by (cases fc) simp
qed

lemma clear_ok:
  assumes "totals_ok c"
  shows "totals_ok (snd (clear_unpinned key d c))"
proof -
  define x where "x = clear_kind (\<lambda>_. False) KIND_THUMB (clear_kind (\<lambda>_. False) KIND_BLOCK (clear_kind (pinned_keys key d) KIND_BLOB (0, c)))"
  have "wf_index (cc_rows (snd x))"
    unfolding x_def by (intro clear_kind_wf) (use assms in \<open>simp add: totals_ok_def\<close>)
  moreover have "snd (clear_unpinned key d c) = reseed_totals (snd x)"
    by (simp add: clear_unpinned_def x_def split_beta)
  ultimately show ?thesis by (simp add: reseed_ok)
qed

lemma rebuild_wf: "wf_index (cache_rebuild es)"
proof -
  have "wf_index (fold (\<lambda>e. cache_touch (ce_key e) (ce_kind e) (ce_size e) (ce_last e)) es rows)" if "wf_index rows" for rows
    using that by (induction es arbitrary: rows) (simp_all add: cache_touch_wf)
  then show ?thesis by (simp add: cache_rebuild_def wf_index_def)
qed

lemma budget_ok: "totals_ok c \<Longrightarrow> totals_ok (enforce_budget key d c)"
  "totals_ok c \<Longrightarrow> totals_ok (enforce_block_budget c)" "totals_ok c \<Longrightarrow> totals_ok (enforce_thumb_budget c)"
  "totals_ok c \<Longrightarrow> totals_ok (set_budget key d n c)"
proof -
  show 1: "totals_ok (enforce_budget key d c)" if "totals_ok c" for c
    using that by (simp add: enforce_budget_def Let_def enforce_pool_ok)
  show 2: "totals_ok (enforce_block_budget c)" "totals_ok (enforce_thumb_budget c)" if "totals_ok c" for c
    using that by (simp_all add: enforce_block_budget_def enforce_thumb_budget_def enforce_pool_ok)
  have "totals_ok (c\<lparr>max_bytes := n\<rparr>)" if "totals_ok c"
    using that by (simp add: totals_ok_def pool_def split: cache_kind.splits)
  then show "totals_ok (set_budget key d n c)" if "totals_ok c" using that 1 2 by (simp add: set_budget_def)
qed

inductive cache_step :: "(uid \<Rightarrow> string) \<Rightarrow> content_cache \<Rightarrow> content_cache \<Rightarrow> bool" for key where
  "cache_step key c (store key d u mtime n data now c)"
| "cache_step key c (store_file key d u mtime n data now c)"
| "cache_step key c (store_block key u mtime n s data now c)"
| "cache_step key c (store_thumbnail key u ttype mtime data now c)"
| "cache_step key c (store_block_geometry key u mtime n sizes c)"
| "cache_step key c (snd (read_range key u mtime n off len now c))"
| "cache_step key c (snd (cached_block key u mtime n s now c))"
| "cache_step key c (snd (read_thumbnail key u ttype mtime now c))"
| "cache_step key c (snd (copy_cached_to key u mtime n now c))"
| "cache_step key c (flush_touches c)"
| "cache_step key c (set_budget key d budget c)"
| "cache_step key c (emergency_evict key d c)"
| "cache_step key c (evict key u c)"
| "cache_step key c (snd (remove_pin key d u c))"
| "cache_step key c (snd (clear_unpinned key d c))"

definition cache_opened :: "content_cache \<Rightarrow> bool" where
  "cache_opened c = (\<exists>mtime_of c0. c = reconcile mtime_of c0)"

lemma cached_block_ok: "totals_ok c \<Longrightarrow> totals_ok (snd (cached_block key u mtime n s now c))"
  by (simp add: cached_block_def touch_ok split: option.split)

lemma copy_blocks_ok: "totals_ok c \<Longrightarrow> totals_ok (snd (copy_blocks key u mtime n ss now c))"
proof (induction ss arbitrary: c)
  case (Cons s ss)
  obtain r c1 where r: "cached_block key u mtime n s now c = (r, c1)" by (cases "cached_block key u mtime n s now c")
  have "totals_ok c1" using cached_block_ok [OF Cons.prems, of key u mtime n s now] r by simp
  from Cons.IH [OF this] this show ?case by (cases r) (auto simp: r split: prod.split)
qed simp

lemma cache_step_ok: "cache_step key c c' \<Longrightarrow> totals_ok c \<Longrightarrow> totals_ok c'"
proof (induction rule: cache_step.induct)
  case (5 c u mtime n sizes)
  then show ?case by (simp add: store_block_geometry_def totals_ok_def pool_def split: cache_kind.splits)
next
  case (9 c u mtime n now)
  then show ?case using copy_blocks_ok [OF 9]
    by (auto simp: copy_cached_to_def touch_ok Let_def split_beta split: option.split)
next
  case (10 c)
  then show ?case by (simp add: totals_ok_def flush_wf flush_keys)
qed (auto simp: store_def store_file_def store_block_def store_thumbnail_def read_range_def read_thumbnail_def
    remove_pin_def put_file_ok budget_ok touch_ok emergency_ok evict_ok clear_ok cached_block_ok Let_def split: option.split)

interpretation cache: inv_system cache_opened "cache_step key" totals_ok for key
  by unfold_locales (auto simp: cache_opened_def reconcile_def rebuild_wf intro: reseed_ok cache_step_ok)

text \<open>
  C5. The running totals never hide an overrun. In every state a cache can reach, the count of each
  pool is at least the bytes of its rows and no two rows share a key, so a store that skips the query
  because the count fits leaves a pool that does fit; and enforcing the block budget always ends
  with the blocks in their share.
\<close>

theorem running_total_never_hides_an_overrun:
  assumes "reach cache_opened (cache_step key) c"
  shows "cache_total_bytes kind (cc_rows c) \<le> pool kind c \<and> distinct (map ce_key (cc_rows c)) \<and>
         (pool_cap KIND_BLOCK c \<noteq> 0 \<longrightarrow>
            cache_total_bytes KIND_BLOCK (cc_rows (enforce_block_budget c)) \<le> pool_cap KIND_BLOCK c)"
proof -
  have ok: "totals_ok c" by (rule cache.reach_inv [OF assms])
  have "cache_total_bytes KIND_BLOCK (cc_rows (enforce_block_budget c)) \<le> pool_cap KIND_BLOCK c" if cap: "pool_cap KIND_BLOCK c \<noteq> 0"
  proof (cases "pool KIND_BLOCK c \<le> pool_cap KIND_BLOCK c")
    case True
    then have "enforce_block_budget c = c" by (simp add: enforce_block_budget_def enforce_pool_def Let_def)
    moreover have "cache_total_bytes KIND_BLOCK (cc_rows c) \<le> pool KIND_BLOCK c" using ok by (simp add: totals_ok_def)
    ultimately show ?thesis using True by simp
  next
    case False
    have "wf_index (cc_rows c)" using ok by (simp add: totals_ok_def)
    then obtain B where B: "lru KIND_BLOCK (cc_rows (enforce_block_budget c)) = B"
      "pool KIND_BLOCK (enforce_block_budget c) = cache_total_bytes KIND_BLOCK (cc_rows (enforce_block_budget c))"
      "pool KIND_BLOCK (enforce_block_budget c) \<le> pool_cap KIND_BLOCK c \<or> B = []"
      using eviction_takes_the_coldest [of c KIND_BLOCK "enforce_block_budget c" "\<lambda>_. False"] cap False
      by (auto simp: enforce_block_budget_def EVICT_BATCH_def)
    then show ?thesis using lru_bytes [of KIND_BLOCK "cc_rows (enforce_block_budget c)"] by auto
  qed
  with ok show ?thesis by (simp add: totals_ok_def wf_index_def)
qed

definition fresh_cache :: content_cache where
  "fresh_cache = reconcile (\<lambda>_. 0) \<lparr>cc_files = [((KIND_BLOB, ''a''), [1, 2, 3])], cc_tags = [], cc_geom = [], cc_rows = [], blob_bytes = 0,
     block_bytes = 0, thumb_bytes = 0, touches = [], max_bytes = 100\<rparr>"

theorem running_total_never_hides_an_overrun_witness:
  "cache_total_bytes KIND_BLOB (cc_rows (store_file (\<lambda>u. u) empty_db ''a'' 1 2 [4, 5] 7 fresh_cache)) = 2 \<and>
   pool KIND_BLOB (store_file (\<lambda>u. u) empty_db ''a'' 1 2 [4, 5] 7 fresh_cache) = 5 \<and>
   cache_total_bytes KIND_BLOB (cc_rows (store_file (\<lambda>u. u) empty_db ''a'' 1 2 [4, 5] 7 fresh_cache))
     \<le> pool KIND_BLOB (store_file (\<lambda>u. u) empty_db ''a'' 1 2 [4, 5] 7 fresh_cache)"
proof -
  have "cache_opened fresh_cache" unfolding cache_opened_def fresh_cache_def by blast
  then have "reach cache_opened (cache_step (\<lambda>u. u)) fresh_cache" by (rule reach_init)
  then have r: "reach cache_opened (cache_step (\<lambda>u. u)) (store_file (\<lambda>u. u) empty_db ''a'' 1 2 [4, 5] 7 fresh_cache)"
    by (rule reach_step) (rule cache_step.intros(2))
  have cap: "pool_cap KIND_BLOB (put_file KIND_BLOB ''a'' [4, 5] (Meta 1 2) 7 fresh_cache) = 70"
    by (simp add: pool_cap_def put_file_def fresh_cache_def reconcile_def SPLIT_BLOB_def U64_MAX_def)
  have held: "blob_bytes (put_file KIND_BLOB ''a'' [4, 5] (Meta 1 2) 7 fresh_cache) = 5" by code_simp
  then have "store_file (\<lambda>u. u) empty_db ''a'' 1 2 [4, 5] 7 fresh_cache = put_file KIND_BLOB ''a'' [4, 5] (Meta 1 2) 7 fresh_cache"
    using cap by (simp add: store_file_def enforce_budget_def)
  moreover have "cache_total_bytes KIND_BLOB (cc_rows (put_file KIND_BLOB ''a'' [4, 5] (Meta 1 2) 7 fresh_cache)) = 2" by code_simp
  ultimately show ?thesis using running_total_never_hides_an_overrun [OF r, of KIND_BLOB] held by (simp add: pool_def)
qed

section \<open>What is served\<close>

text \<open>An eviction removes a file with its tag and row, or leaves all three.\<close>

lemma evict_batch_files:
  assumes "evict_batch exempt cap kind batch s run c = (s', r', ev, c')"
  shows "(map_of (cc_files c') x = map_of (cc_files c) x \<and> map_of (cc_tags c') x = map_of (cc_tags c) x) \<or>
         (map_of (cc_files c') x = None \<and> fst x = kind \<and> snd x \<notin> ce_key ` set (cc_rows c'))"
    and "ce_key ` set (cc_rows c') \<subseteq> ce_key ` set (cc_rows c)"
  using assms
proof (induction exempt cap kind batch s run c arbitrary: s' r' ev c' rule: evict_batch.induct)
  case (2 exempt cap kind k n batch skipped running c)
  define d where "d = evict_key kind k c"
  have d: "map_of (cc_files d) = (map_of (cc_files c))((kind, k) := None)" "map_of (cc_tags d) = (map_of (cc_tags c))((kind, k) := None)"
    "ce_key ` set (cc_rows d) = ce_key ` set (cc_rows c) - {k}"
    by (auto simp: d_def evict_key_def delete_conv cache_remove_def delete_where_def)
  {
    case 1
    then show ?case
    proof (cases "running \<le> cap \<or> exempt k")
      case False
      then obtain b where e: "evict_batch exempt cap kind batch skipped (running - n) d = (s', r', b, c')"
        using 1 by (auto simp: d_def split: prod.splits)
      show ?thesis
        using "2.IH"(3) [OF _ _ e [unfolded d_def]] "2.IH"(4) [OF _ _ e [unfolded d_def]] False d
        by (cases "x = (kind, k)") (auto simp: d_def)
    qed (use 2 in \<open>auto split: if_splits\<close>)
  next
    case 2
    then show ?case
    proof (cases "running \<le> cap \<or> exempt k")
      case False
      then obtain b where e: "evict_batch exempt cap kind batch skipped (running - n) d = (s', r', b, c')"
        using 2 by (auto simp: d_def split: prod.splits)
      show ?thesis using "2.IH"(4) [OF _ _ e [unfolded d_def]] False d by (auto simp: d_def)
    qed (use "2.IH" 2 in \<open>auto split: if_splits\<close>)
  }
qed auto

definition evicted_or_kept :: "cache_kind \<Rightarrow> content_cache \<Rightarrow> content_cache \<Rightarrow> bool" where
  "evicted_or_kept kind c c' = (ce_key ` set (cc_rows c') \<subseteq> ce_key ` set (cc_rows c) \<and>
     (\<forall>x. (map_of (cc_files c') x = map_of (cc_files c) x \<and> map_of (cc_tags c') x = map_of (cc_tags c) x) \<or>
          (map_of (cc_files c') x = None \<and> fst x = kind \<and> snd x \<notin> ce_key ` set (cc_rows c'))))"

lemma evicted_or_kept_refl [simp]: "evicted_or_kept kind c c"
  by (simp add: evicted_or_kept_def)

lemma evicted_or_kept_trans:
  assumes "evicted_or_kept kind c d" and "evicted_or_kept kind d e"
  shows "evicted_or_kept kind c e"
proof -
  have "(map_of (cc_files e) x = map_of (cc_files c) x \<and> map_of (cc_tags e) x = map_of (cc_tags c) x) \<or>
        (map_of (cc_files e) x = None \<and> fst x = kind \<and> snd x \<notin> ce_key ` set (cc_rows e))" for x
    using assms [unfolded evicted_or_kept_def, THEN conjunct2, THEN spec, of x]
      assms [unfolded evicted_or_kept_def, THEN conjunct1] by auto
  with assms show ?thesis unfolding evicted_or_kept_def by blast
qed

lemma enforce_loop_files: "evicted_or_kept kind c (enforce_loop exempt cap kind skipped running c)"
proof (induction exempt cap kind skipped running c rule: enforce_loop.induct)
  case (1 exempt cap kind skipped running c)
  define batch where "batch = cache_eviction_candidates kind (skipped + EVICT_BATCH) (cc_rows c)"
  obtain s r ev c1 where e: "evict_batch exempt cap kind (drop skipped batch) skipped running c = (s, r, ev, c1)"
    by (cases "evict_batch exempt cap kind (drop skipped batch) skipped running c")
  have one: "evicted_or_kept kind c c1"
    using evict_batch_files [OF e] unfolding evicted_or_kept_def by blast
  have "evicted_or_kept kind c1 (enforce_loop exempt cap kind s r c1)" if "\<not> running \<le> cap" "\<not> length batch \<le> skipped" ev
    using "1.IH" [OF that(1) batch_def that(2) e [symmetric] refl refl] that(3) by blast
  with one evicted_or_kept_trans [OF one] show ?case
    unfolding enforce_loop.simps [of exempt cap kind skipped running c] batch_def [symmetric] Let_def by (simp add: e)
qed

lemma enforce_pool_files: "evicted_or_kept kind c (enforce_pool exempt kind c)"
proof -
  let ?f = "flush_touches c"
  have "ce_key ` set (cc_rows ?f) = ce_key ` set (cc_rows c)" using flush_keys(1) [of c] by (metis list.set_map)
  moreover have "cc_files ?f = cc_files c" "cc_tags ?f = cc_tags c" by (simp_all add: flush_touches_def)
  ultimately have f: "evicted_or_kept kind c ?f" unfolding evicted_or_kept_def by simp
  have "evicted_or_kept kind ?f (reseed_totals (enforce_loop exempt (pool_cap kind c) kind 0 (cache_total_bytes kind (cc_rows ?f)) ?f))"
    using enforce_loop_files [of kind ?f exempt "pool_cap kind c" 0 "cache_total_bytes kind (cc_rows ?f)"]
    by (simp add: evicted_or_kept_def)
  from evicted_or_kept_trans [OF f this] show ?thesis by (simp add: enforce_pool_def Let_def)
qed

lemma put_file_maps:
  "map_of (cc_files (put_file kind k data t now c)) = (map_of (cc_files c))((kind, k) \<mapsto> data)"
  "map_of (cc_tags (put_file kind k data t now c)) = (map_of (cc_tags c))((kind, k) \<mapsto> t)"
  by (auto simp: put_file_def set_pool_def update_conv split: cache_kind.split)

text \<open>
  C6. A cached block is served to the revision and the place it was stored for, and to no other.
  After a block is stored, what a read of this index gets is nothing, or exactly these bytes, and
  then the revision's time and size, the block's offset and its length are those it was stored with.
  While its row is in the index a read with those gets it.
\<close>

theorem stored_block_is_served_to_its_revision_only:
  assumes "c' = store_block key u mtime n s data now c" and "bs_idx s' = bs_idx s"
  shows "(fst (cached_block key u mtime' n' s' now' c') = None \<or>
          fst (cached_block key u mtime' n' s' now' c') = Some data \<and>
            mtime' = mtime \<and> n' = n \<and> bs_start s' = bs_start s \<and> bs_len s' = length data) \<and>
         (block_key key u (bs_idx s) \<in> ce_key ` set (cc_rows c') \<and> length data = bs_len s \<longrightarrow>
            fst (cached_block key u mtime n s now' c') = Some data)"
proof -
  let ?x = "(KIND_BLOCK, block_key key u (bs_idx s))"
  let ?p = "put_file KIND_BLOCK (block_key key u (bs_idx s)) data (BlockMeta mtime n (Some (bs_start s))) now c"
  have "evicted_or_kept KIND_BLOCK ?p c'"
    using enforce_pool_files assms(1) by (simp add: store_block_def enforce_block_budget_def)
  then have ek: "(map_of (cc_files c') ?x = Some data \<and> map_of (cc_tags c') ?x = Some (BlockMeta mtime n (Some (bs_start s)))) \<or>
      (map_of (cc_files c') ?x = None \<and> block_key key u (bs_idx s) \<notin> ce_key ` set (cc_rows c'))"
    unfolding evicted_or_kept_def put_file_maps by (elim conjE allE [of _ ?x]) simp
  have "fst (cached_block key u mtime' n' s' now' c') = None \<or>
        fst (cached_block key u mtime' n' s' now' c') = Some data \<and>
          mtime' = mtime \<and> n' = n \<and> bs_start s' = bs_start s \<and> bs_len s' = length data"
    using ek by (elim disjE conjE) (simp_all add: cached_block_def block_tag_def assms(2))
  moreover have "fst (cached_block key u mtime n s now' c') = Some data"
    if "block_key key u (bs_idx s) \<in> ce_key ` set (cc_rows c')" "length data = bs_len s"
    using ek that by (auto simp: cached_block_def block_tag_def)
  ultimately show ?thesis by blast
qed

theorem stored_block_is_served_to_its_revision_only_witness:
  "fst (cached_block (\<lambda>u. u) ''v'' 9 10 \<lparr>bs_idx = 0, bs_start = 0, bs_len = 2\<rparr> 8
     (store_block (\<lambda>u. u) ''v'' 9 10 \<lparr>bs_idx = 0, bs_start = 0, bs_len = 2\<rparr> [4, 5] 7 fresh_cache)) = Some [4, 5]"
proof -
  let ?s = "\<lparr>bs_idx = 0, bs_start = 0, bs_len = 2\<rparr>"
  let ?p = "put_file KIND_BLOCK ''v.b0'' [4, 5] (BlockMeta 9 10 (Some 0)) 7 fresh_cache"
  have k: "block_key (\<lambda>u. u) ''v'' 0 = ''v.b0''" by code_simp
  have "pool_cap KIND_BLOCK ?p = 25" by (simp add: pool_cap_def put_file_def fresh_cache_def reconcile_def SPLIT_BLOCK_def U64_MAX_def)
  moreover have "pool KIND_BLOCK ?p = 2" by code_simp
  ultimately have e: "store_block (\<lambda>u. u) ''v'' 9 10 ?s [4, 5] 7 fresh_cache = ?p"
    by (simp add: store_block_def k enforce_block_budget_def enforce_pool_def Let_def)
  have "''v.b0'' \<in> ce_key ` set (cc_rows ?p)" by code_simp
  with stored_block_is_served_to_its_revision_only [of _ "\<lambda>u. u" "''v''" 9 10 ?s "[4, 5]" 7 fresh_cache ?s, OF refl refl] k e
  show ?thesis by simp
qed

end
