(* ===== verification/Blocks_Spec.thy ===== *)
theory Blocks_Spec
  imports Cache_Spec
begin

text \<open>
  The block geometry of a revision: the blocks tile the plaintext, an offset is in the block the
  lookup names, and a file put together from cached blocks is the file.
\<close>

section \<open>Prefix sums\<close>

definition starts_at :: "nat list \<Rightarrow> nat \<Rightarrow> nat" where
  "starts_at sizes i = sum_list (take i sizes)"

lemma prefix_starts_eq:
  "at + sum_list ns \<le> U64_MAX \<Longrightarrow> prefix_starts at ns = (map (\<lambda>i. at + starts_at ns i) [0..<length ns], at + sum_list ns)"
proof (induction ns arbitrary: at)
  case (Cons n ns)
  have "map (\<lambda>i. at + starts_at (n # ns) i) [0..<length (n # ns)] = at # map (\<lambda>i. at + n + starts_at ns i) [0..<length ns]"
    by (simp add: starts_at_def upt_conv_Cons map_Suc_upt [symmetric] del: upt_Suc map_Suc_upt)
  with Cons.IH [of "at + n"] Cons.prems show ?case by (simp add: saturating_add_def add.assoc)
qed simp

lemma sum_kept: "sum_list (rev (dropWhile (\<lambda>n. n = 0) (rev (ns :: nat list)))) = sum_list ns"
proof (induction ns rule: rev_induct)
  case (snoc n ns)
  then show ?case by (cases "n = 0") simp_all
qed simp

definition geometry_of :: "nat list \<Rightarrow> block_geometry \<Rightarrow> bool" where
  "geometry_of ns g = (bg_sizes g = ns \<and> bg_starts g = map (starts_at ns) [0..<length ns] \<and> bg_size g = sum_list ns)"

lemma from_sizes_geometry:
  assumes "sum_list sizes \<le> U64_MAX"
  obtains ns where "geometry_of ns (from_sizes sizes)" and "sum_list ns = sum_list sizes"
proof
  define ns where "ns = rev (dropWhile (\<lambda>n. n = 0) (rev sizes))"
  have total: "sum_list ns = sum_list sizes" unfolding ns_def by (rule sum_kept)
  have "prefix_starts 0 ns = (map (starts_at ns) [0..<length ns], sum_list ns)"
    using prefix_starts_eq [of 0 ns] assms total by simp
  then show "geometry_of ns (from_sizes sizes)"
    by (simp add: geometry_of_def from_sizes_def Let_def ns_def [symmetric])
  show "sum_list ns = sum_list sizes" by (rule total)
qed

lemma starts_at_mono: "i \<le> j \<Longrightarrow> starts_at ns i \<le> starts_at ns j"
  unfolding starts_at_def by (metis le_add1 le_Suc_ex sum_list_append take_add)

lemma starts_at_Suc: "i < length ns \<Longrightarrow> starts_at ns (Suc i) = starts_at ns i + ns ! i"
  by (simp add: starts_at_def take_Suc_conv_app_nth)

lemma starts_at_all [simp]: "starts_at ns (length ns) = sum_list ns" "starts_at ns 0 = 0"
  by (simp_all add: starts_at_def)

section \<open>Looking an offset up\<close>

lemma index_at_spec:
  assumes "geometry_of ns g" and "at < sum_list ns"
  shows "\<exists>i < length ns. index_at g at = Some i \<and> starts_at ns i \<le> at \<and> at < starts_at ns (Suc i)"
proof -
  let ?tw = "takeWhile (\<lambda>s. s \<le> at) (bg_starts g)"
  have st: "bg_starts g = map (starts_at ns) [0..<length ns]" and sz: "bg_size g = sum_list ns" using assms(1) by (auto simp: geometry_of_def)
  have ne: "ns \<noteq> []" using assms(2) by auto
  then have "length ?tw \<noteq> 0" unfolding st by (simp add: upt_conv_Cons)
  then obtain i where i: "length ?tw = Suc i" by (cases "length ?tw") auto
  have le: "Suc i \<le> length ns" using i length_takeWhile_le [of "\<lambda>s. s \<le> at" "bg_starts g"] by (simp add: st)
  have "?tw ! i \<le> at" using i by (metis (mono_tags, lifting) lessI nth_mem set_takeWhileD)
  then have lower: "starts_at ns i \<le> at" using i le by (simp add: takeWhile_nth st)
  have upper: "at < starts_at ns (Suc i)"
  proof (cases "Suc i < length ns")
    case True
    then have "\<not> bg_starts g ! Suc i \<le> at" using i nth_length_takeWhile [of "\<lambda>s. s \<le> at" "bg_starts g"] by (simp add: st)
    with True show ?thesis by (simp add: st)
  next
    case False
    with le assms(2) show ?thesis by (metis le_antisym linorder_not_less starts_at_all(1))
  qed
  from i assms(2) sz have "index_at g at = Some i" by (simp add: index_at_def)
  with lower upper le show ?thesis by auto
qed

lemma index_at_past: "geometry_of ns g \<Longrightarrow> sum_list ns \<le> at \<Longrightarrow> index_at g at = None"
  by (simp add: index_at_def geometry_of_def)

lemma spans_eq:
  assumes "geometry_of ns g" and "off < stop" and "off < sum_list ns"
  obtains i j where "i \<le> j" "j < length ns" "starts_at ns i \<le> off" "off < starts_at ns (Suc i)"
    "min stop (sum_list ns) \<le> starts_at ns (Suc j)" "starts_at ns j < stop"
    "spans g off stop = map (\<lambda>k. \<lparr>bs_idx = k, bs_start = starts_at ns k, bs_len = ns ! k\<rparr>) [i..<Suc j]"
proof -
  obtain i where i: "i < length ns" "index_at g off = Some i" "starts_at ns i \<le> off" "off < starts_at ns (Suc i)"
    using index_at_spec [OF assms(1,3)] by blast
  have ne: "ns \<noteq> []" using i by auto
  define j where "j = (case index_at g (stop - 1) of Some i \<Rightarrow> i | None \<Rightarrow> length ns - 1)"
  have j: "j < length ns" "min stop (sum_list ns) \<le> starts_at ns (Suc j)" "starts_at ns j < stop"
  proof -
    have "j < length ns \<and> min stop (sum_list ns) \<le> starts_at ns (Suc j) \<and> starts_at ns j < stop"
    proof (cases "stop - 1 < sum_list ns")
      case True
      with index_at_spec [OF assms(1) True] assms(2) show ?thesis by (auto simp: j_def)
    next
      case False
      then have "j = length ns - 1" using index_at_past [OF assms(1), of "stop - 1"] by (simp add: j_def)
      moreover have "starts_at ns (length ns - 1) \<le> sum_list ns" by (metis diff_le_self starts_at_all(1) starts_at_mono)
      ultimately show ?thesis using ne False assms(2) by simp
    qed
    then show "j < length ns" "min stop (sum_list ns) \<le> starts_at ns (Suc j)" "starts_at ns j < stop" by auto
  qed
  have ij: "i \<le> j"
  proof (rule ccontr)
    assume "\<not> i \<le> j"
    then have "starts_at ns (Suc j) \<le> starts_at ns i" by (intro starts_at_mono) simp
    with j(2) i(3) assms(2,3) show False by simp
  qed
  have sp: "span g k = Some \<lparr>bs_idx = k, bs_start = starts_at ns k, bs_len = ns ! k\<rparr>" if "k < length ns" for k
    using assms(1) that by (simp add: span_def geometry_of_def)
  have bg: "bg_sizes g = ns" using assms(1) by (simp add: geometry_of_def)
  have "spans g off stop = List.map_filter (span g) [i..<Suc j]"
    using i(2) assms(2) unfolding spans_def j_def Let_def bg by (simp del: upt_Suc)
  also have "\<dots> = map (\<lambda>k. \<lparr>bs_idx = k, bs_start = starts_at ns k, bs_len = ns ! k\<rparr>) [i..<Suc j]"
    using sp j(1) by (auto simp: List.map_filter_def comp_def filter_True simp del: upt_Suc)
  finally show ?thesis
    using that [OF ij j(1) i(3,4) j(2,3)] by blast
qed

text \<open>
  The blocks a read plans tile the range. For a revision whose sizes fit in 64 bits, the blocks
  \<open>spans\<close> returns are those of consecutive indices, each starting where the one before ends; the first
  holds the first byte asked for, and together they reach the end of the range or of the file.
\<close>

theorem planned_blocks_tile_the_range:
  assumes "sum_list sizes \<le> U64_MAX" and "off < stop" and "off < sum_list sizes"
  shows "\<exists>s ss. spans (from_sizes sizes) off stop = s # ss \<and>
           bs_start s \<le> off \<and> off < bs_start s + bs_len s \<and>
           (\<forall>k < length ss. bs_start (ss ! k) = bs_start ((s # ss) ! k) + bs_len ((s # ss) ! k) \<and>
                            bs_idx (ss ! k) = Suc (bs_idx ((s # ss) ! k))) \<and>
           min stop (sum_list sizes) \<le> bs_start (last (s # ss)) + bs_len (last (s # ss)) \<and> bs_start (last (s # ss)) < stop"
proof -
  obtain ns where ns: "geometry_of ns (from_sizes sizes)" "sum_list ns = sum_list sizes" using from_sizes_geometry [OF assms(1)] .
  let ?b = "\<lambda>k. \<lparr>bs_idx = k, bs_start = starts_at ns k, bs_len = ns ! k\<rparr>"
  obtain i j where ij: "i \<le> j" "j < length ns" "starts_at ns i \<le> off" "off < starts_at ns (Suc i)"
    "min stop (sum_list ns) \<le> starts_at ns (Suc j)" "starts_at ns j < stop"
    "spans (from_sizes sizes) off stop = map ?b [i..<Suc j]"
    using spans_eq [OF ns(1) assms(2)] assms(3) ns(2) by metis
  have list: "map ?b [i..<Suc j] = ?b i # map ?b [Suc i..<Suc j]" using ij(1) by (simp add: upt_conv_Cons del: upt_Suc)
  have nth: "(?b i # map ?b [Suc i..<Suc j]) ! k = ?b (i + k)" if "k < Suc (j - i)" for k
    unfolding list [symmetric] using that ij(1) nth_upt [of i k "Suc j"] by (simp del: upt_Suc)
  have "last (?b i # map ?b [Suc i..<Suc j]) = ?b j" unfolding list [symmetric] using ij(1) by simp
  moreover have "map ?b [Suc i..<Suc j] ! k = ?b (Suc (i + k))" if "k < j - i" for k
    using that nth_upt [of "Suc i" k "Suc j"] by (simp del: upt_Suc)
  ultimately show ?thesis
    unfolding ij(7) list
    using ij ns(2) nth starts_at_Suc [of _ ns] by (intro exI2 [of _ "?b i" "map ?b [Suc i..<Suc j]"]) (auto simp del: upt_Suc)
qed

theorem planned_blocks_tile_the_range_witness:
  "spans (from_sizes [4, 0, 3, 5]) 3 6 = [\<lparr>bs_idx = 0, bs_start = 0, bs_len = 4\<rparr>, \<lparr>bs_idx = 1, bs_start = 4, bs_len = 0\<rparr>,
     \<lparr>bs_idx = 2, bs_start = 4, bs_len = 3\<rparr>] \<and> (\<exists>s ss. spans (from_sizes [4, 0, 3, 5]) 3 6 = s # ss \<and> bs_start s \<le> 3)"
proof -
  have "sum_list [4, 0, 3, 5] \<le> U64_MAX" "3 < sum_list [4, 0, 3, 5 :: nat]" by (simp_all add: U64_MAX_def)
  with planned_blocks_tile_the_range [of "[4, 0, 3, 5]" 3 6] have some: "\<exists>s ss. spans (from_sizes [4, 0, 3, 5]) 3 6 = s # ss \<and> bs_start s \<le> 3"
    by auto
  have g: "from_sizes [4, 0, 3, 5] = \<lparr>bg_starts = [0, 4, 4, 7], bg_sizes = [4, 0, 3, 5], bg_size = 12\<rparr>"
    by (simp add: from_sizes_def saturating_add_def U64_MAX_def)
  have "spans (from_sizes [4, 0, 3, 5]) 3 6 = [\<lparr>bs_idx = 0, bs_start = 0, bs_len = 4\<rparr>, \<lparr>bs_idx = 1, bs_start = 4, bs_len = 0\<rparr>,
     \<lparr>bs_idx = 2, bs_start = 4, bs_len = 3\<rparr>]"
    unfolding g by code_simp
  with some show ?thesis by blast
qed

section \<open>A file from its blocks\<close>

definition slice :: "byte list \<Rightarrow> block_span \<Rightarrow> byte list" where
  "slice base s = take (bs_len s) (drop (bs_start s) base)"

lemma concat_slices:
  "i \<le> j \<Longrightarrow> j \<le> length ns \<Longrightarrow> sum_list ns = length base \<Longrightarrow>
     concat (map (\<lambda>k. slice base \<lparr>bs_idx = k, bs_start = starts_at ns k, bs_len = ns ! k\<rparr>) [i..<j]) =
     take (starts_at ns j - starts_at ns i) (drop (starts_at ns i) base)"
proof (induction j)
  case (Suc j)
  show ?case
  proof (cases "i = Suc j")
    case False
    then have "i \<le> j" using Suc.prems by simp
    moreover from this have "starts_at ns i \<le> starts_at ns j" by (rule starts_at_mono)
    moreover have "take (a + n) xs = take a xs @ take n (drop a xs)" for a n and xs :: "byte list" by (rule take_add)
    ultimately show ?thesis
      using Suc starts_at_Suc [of j ns] take_add [of "starts_at ns j - starts_at ns i" "ns ! j" "drop (starts_at ns i) base"]
      by (simp add: slice_def)
  qed (use Suc.prems in simp)
qed simp

lemma whole_file:
  assumes "sum_list sizes \<le> U64_MAX" and "sum_list sizes = length base" and "base \<noteq> []"
  shows "concat (map (slice base) (spans (from_sizes sizes) 0 (length base))) = base"
proof -
  obtain ns where ns: "geometry_of ns (from_sizes sizes)" "sum_list ns = sum_list sizes" using from_sizes_geometry [OF assms(1)] .
  obtain i j where ij: "i \<le> j" "j < length ns" "starts_at ns i \<le> 0" "min (length base) (sum_list ns) \<le> starts_at ns (Suc j)"
    "spans (from_sizes sizes) 0 (length base) = map (\<lambda>k. \<lparr>bs_idx = k, bs_start = starts_at ns k, bs_len = ns ! k\<rparr>) [i..<Suc j]"
    using spans_eq [OF ns(1), of 0 "length base"] assms ns(2) by (metis length_greater_0_conv)
  with concat_slices [of i "Suc j" ns base] ns(2) assms(2) show ?thesis by (simp add: comp_def del: upt_Suc)
qed

lemma uniform_sum: "n \<le> U64_MAX \<Longrightarrow> sum_list (map (block_len n) [0..<k]) = min n (k * BLOCK_SIZE)"
proof (induction k)
  case (Suc k)
  then show ?case by (auto simp: block_len_def min_def)
qed simp

lemma uniform_size:
  assumes "n \<le> U64_MAX"
  shows "sum_list (map (block_len n) [0..<(n + BLOCK_SIZE - 1) div BLOCK_SIZE]) = n"
proof -
  have "n \<le> (n + BLOCK_SIZE - 1) div BLOCK_SIZE * BLOCK_SIZE"
    by (simp add: BLOCK_SIZE_def)
  with uniform_sum [OF assms] show ?thesis by simp
qed

definition right_blocks :: "(uid \<Rightarrow> string) \<Rightarrow> uid \<Rightarrow> int \<Rightarrow> byte list \<Rightarrow> content_cache \<Rightarrow> bool" where
  "right_blocks key u mtime base c =
     ((\<forall>s data. block_tag key u mtime (length base) s c \<longrightarrow> map_of (cc_files c) (KIND_BLOCK, block_key key u (bs_idx s)) = Some data \<longrightarrow>
         length data = bs_len s \<longrightarrow> data = slice base s) \<and>
      (\<forall>blob. valid_blob key u mtime (length base) c = Some blob \<longrightarrow> blob = base))"

lemma touch_maps [simp]: "cc_files (touch k now c) = cc_files c" "cc_tags (touch k now c) = cc_tags c"
  by (simp_all add: touch_def Let_def flush_touches_def)

lemma block_tag_touch [simp]: "block_tag key u mtime n s (touch k now c) = block_tag key u mtime n s c"
  by (simp add: block_tag_def)

lemma copy_blocks_right:
  assumes "right_blocks key u mtime base c" and "list_all (\<lambda>s. has_block key u mtime (length base) s c) ss"
  shows "fst (copy_blocks key u mtime (length base) ss now c) = Some (concat (map (slice base) ss))"
  using assms
proof (induction ss arbitrary: c)
  case (Cons s ss)
  then obtain data where d: "block_tag key u mtime (length base) s c" "map_of (cc_files c) (KIND_BLOCK, block_key key u (bs_idx s)) = Some data"
    "length data = bs_len s" by (auto simp: has_block_def split: option.splits)
  define c1 where "c1 = touch (block_key key u (bs_idx s)) now c"
  have one: "cached_block key u mtime (length base) s now c = (Some data, c1)" using d by (simp add: cached_block_def c1_def)
  have "data = slice base s" using Cons.prems(1) d unfolding right_blocks_def by blast
  moreover have "right_blocks key u mtime base c1" "list_all (\<lambda>s. has_block key u mtime (length base) s c1) ss"
    using Cons.prems by (simp_all add: c1_def right_blocks_def has_block_def valid_blob_def)
  ultimately show ?case using Cons.IH [of c1] one by (cases "copy_blocks key u mtime (length base) ss now c1") simp
qed simp

text \<open>
  C20. A file copied out of the cache is the file. When what is stored for a revision are its bytes,
  \<open>copy_cached_to\<close> gives the whole content or nothing, never part of it; and it gives the content
  whenever the blob is cached or every block of the plan is.
\<close>

theorem copied_from_cache_is_the_file:
  assumes "right_blocks key u mtime base c" and "length base \<le> U64_MAX" and "base \<noteq> []"
    and "\<And>m. map_of (cc_geom c) (key u) = Some m \<Longrightarrow> sum_list (gm_sizes m) \<le> U64_MAX"
    and "g = (case block_geometry_of key u mtime (length base) c of Some g \<Rightarrow> g | None \<Rightarrow> uniform (length base))"
  shows "fst (copy_cached_to key u mtime (length base) now c) =
           (if is_cached key u mtime (length base) c \<or> list_all (\<lambda>s. has_block key u mtime (length base) s c) (spans g 0 (length base))
            then Some base else None)"
proof -
  obtain sizes where g: "g = from_sizes sizes" "sum_list sizes = length base"
  proof (cases "block_geometry_of key u mtime (length base) c")
    case None
    then show thesis using that [of "map (block_len (length base)) [0..<(length base + BLOCK_SIZE - 1) div BLOCK_SIZE]"]
        uniform_size [OF assms(2)] assms(5) by (simp add: uniform_def)
  next
    case (Some g')
    then obtain m where m: "map_of (cc_geom c) (key u) = Some m" "g' = from_sizes (gm_sizes m)" "bg_size g' = length base"
      by (auto simp: block_geometry_of_def Let_def split: option.splits if_splits)
    obtain ns where "geometry_of ns g'" "sum_list ns = sum_list (gm_sizes m)" using from_sizes_geometry [OF assms(4) [OF m(1)]] m(2) by metis
    then have "sum_list (gm_sizes m) = length base" using m(3) by (simp add: geometry_of_def)
    then show thesis using that [of "gm_sizes m"] m(2) Some assms(5) by simp
  qed
  have le: "sum_list sizes \<le> U64_MAX" using g(2) assms(2) by simp
  have size: "bg_size g = length base" using from_sizes_geometry [OF le] g by (metis geometry_of_def)
  have whole: "concat (map (slice base) (spans g 0 (length base))) = base" using whole_file [OF le g(2) assms(3)] g(1) by simp
  show ?thesis
  proof (cases "valid_blob key u mtime (length base) c")
    case (Some blob)
    then have "blob = base" using assms(1) unfolding right_blocks_def by blast
    then show ?thesis using Some assms(3) by (simp add: copy_cached_to_def is_cached_def)
  next
    case None
    have "fst (copy_blocks key u mtime (length base) (spans g 0 (length base)) now c) = Some base"
      if "list_all (\<lambda>s. has_block key u mtime (length base) s c) (spans g 0 (length base))"
      using copy_blocks_right [OF assms(1) that] whole by simp
    then show ?thesis
      using None assms(3) size unfolding copy_cached_to_def assms(5) [symmetric] Let_def is_cached_def by (simp add: split_beta)
  qed
qed

definition one_block :: content_cache where
  "one_block = \<lparr>cc_files = [((KIND_BLOCK, ''v.b0''), [4, 5])], cc_tags = [((KIND_BLOCK, ''v.b0''), BlockMeta 9 2 (Some 0))], cc_geom = [],
     cc_rows = [], blob_bytes = 0, block_bytes = 0, thumb_bytes = 0, touches = [], max_bytes = 0\<rparr>"

theorem copied_from_cache_is_the_file_witness:
  "fst (copy_cached_to (\<lambda>u. u) ''v'' 9 2 1 one_block) = Some [4, 5]"
proof -
  have right: "right_blocks (\<lambda>u. u) ''v'' 9 [4, 5] one_block"
    by (auto simp: right_blocks_def block_tag_def one_block_def valid_blob_def slice_def split: if_splits)
  have u: "uniform 2 = \<lparr>bg_starts = [0], bg_sizes = [2], bg_size = 2\<rparr>"
    by (simp add: uniform_def BLOCK_SIZE_def block_len_def from_sizes_def saturating_add_def U64_MAX_def)
  have two: "length [4, 5 :: byte] = 2" by simp
  have g: "uniform 2 = (case block_geometry_of (\<lambda>u. u) ''v'' 9 (length [4, 5 :: byte]) one_block of Some g \<Rightarrow> g | None \<Rightarrow> uniform (length [4, 5 :: byte]))"
    unfolding two by (simp add: block_geometry_of_def one_block_def)
  have le: "length [4, 5 :: byte] \<le> U64_MAX" by (simp add: U64_MAX_def)
  have geom: "sum_list (gm_sizes m) \<le> U64_MAX" if "map_of (cc_geom one_block) ''v'' = Some m" for m
    using that by (simp add: one_block_def)
  have all: "list_all (\<lambda>s. has_block (\<lambda>u. u) ''v'' 9 2 s one_block) (spans (uniform 2) 0 2)" unfolding u by code_simp
  have ne: "[4, 5 :: byte] \<noteq> []" by simp
  from copied_from_cache_is_the_file [OF right le ne geom g, of 1, unfolded two] all show ?thesis by simp
qed

end
