(* ===== verification/Block_Ring.thy ===== *)
theory Block_Ring
  imports Blocks_Spec
begin

text \<open>
  The ring of decrypted blocks in front of both block paths (\<open>reads.rs\<close>, \<open>BlockRing\<close>), and the
  read-ahead cursor of each file (\<open>Prefetch\<close>). The ring is a transition system: whatever order
  reads, late fetches and evictions come in, it stays within its bytes and serves a block to the
  revision it was read from only.
\<close>

type_synonym ring_key = "uid \<times> block_span"

record block_ring =
  br_blocks :: "(ring_key \<times> byte list) list"
  br_order :: "ring_key list"
  br_tags :: "(uid \<times> (int \<times> nat)) list"
  br_bytes :: nat

definition RING_BYTES :: nat where "RING_BYTES = 128 * 1024 * 1024"

definition ring_get :: "uid \<Rightarrow> int \<Rightarrow> nat \<Rightarrow> block_span \<Rightarrow> block_ring \<Rightarrow> byte list option \<times> block_ring" where
  "ring_get u mtime n s r =
     (if map_of (br_tags r) u \<noteq> Some (mtime, n) then (None, r)
      else case map_of (br_blocks r) (u, s) of
             None \<Rightarrow> (None, r)
           | Some hit \<Rightarrow> (Some hit, if (u, s) \<in> set (br_order r)
                                   then r\<lparr>br_order := remove1 (u, s) (br_order r) @ [(u, s)]\<rparr> else r))"

definition drop_node :: "uid \<Rightarrow> block_ring \<Rightarrow> block_ring" where
  "drop_node u r =
     r\<lparr>br_order := filter (\<lambda>k. fst k \<noteq> u) (br_order r), br_blocks := filter (\<lambda>b. fst (fst b) \<noteq> u) (br_blocks r),
       br_bytes := br_bytes r - sum_list (map (\<lambda>b. length (snd b)) (filter (\<lambda>b. fst (fst b) = u) (br_blocks r))),
       br_tags := AList.delete u (br_tags r)\<rparr>"

text \<open>One round of the loop that ages blocks out, for the key at the old end.\<close>

definition drop_block :: "ring_key \<Rightarrow> block_ring \<Rightarrow> block_ring" where
  "drop_block victim r =
     (let blocks = AList.delete victim (br_blocks r)
      in r\<lparr>br_order := tl (br_order r), br_blocks := blocks,
           br_bytes := br_bytes r - (case map_of (br_blocks r) victim of Some b \<Rightarrow> length b | None \<Rightarrow> 0),
           br_tags := (if matches (\<lambda>b. fst (fst b) = fst victim) blocks then br_tags r
                       else AList.delete (fst victim) (br_tags r))\<rparr>)"

function age_out :: "block_ring \<Rightarrow> block_ring" where
  "age_out r = (if br_bytes r \<le> RING_BYTES then r
     else case br_order r of [] \<Rightarrow> r | victim # _ \<Rightarrow> age_out (drop_block victim r))"
  by pat_completeness auto
termination by (relation "measure (\<lambda>r. length (br_order r))") (auto simp: drop_block_def Let_def)

declare age_out.simps [simp del]

definition ring_insert :: "uid \<Rightarrow> int \<Rightarrow> nat \<Rightarrow> block_span \<Rightarrow> byte list \<Rightarrow> block_ring \<Rightarrow> block_ring" where
  "ring_insert u mtime n s data r =
     (let r1 = (if map_of (br_tags r) u \<noteq> Some (mtime, n)
                then (let r0 = drop_node u r in r0\<lparr>br_tags := AList.update u (mtime, n) (br_tags r0)\<rparr>) else r)
      in if map_of (br_blocks r1) (u, s) \<noteq> None then r1
         else age_out (r1\<lparr>br_bytes := br_bytes r1 + length data, br_blocks := AList.update (u, s) data (br_blocks r1),
                          br_order := br_order r1 @ [(u, s)]\<rparr>))"

definition empty_ring :: block_ring where
  "empty_ring = \<lparr>br_blocks = [], br_order = [], br_tags = [], br_bytes = 0\<rparr>"

section \<open>Read-ahead\<close>

definition PREFETCH_MIN :: nat where "PREFETCH_MIN = 2"
definition PREFETCH_MAX :: nat where "PREFETCH_MAX = 8"
definition MAX_PREFETCH_STREAMS :: nat where "MAX_PREFETCH_STREAMS = 256"

type_synonym streams = "(uid \<times> (nat \<times> nat)) list"

definition clamp :: "nat \<Rightarrow> nat \<Rightarrow> nat \<Rightarrow> nat" where
  "clamp lo hi x = (if x < lo then lo else if x > hi then hi else x)"

definition window :: "uid \<Rightarrow> nat \<Rightarrow> nat \<Rightarrow> streams \<Rightarrow> nat \<times> streams" where
  "window u first last_idx st =
     (let st1 = (if length st > MAX_PREFETCH_STREAMS then [] else st);
          stream = (case map_of st1 u of Some s \<Rightarrow> s | None \<Rightarrow> (0, 0));
          depth = (if fst stream = first then clamp PREFETCH_MIN PREFETCH_MAX (snd stream * 2) else 0)
      in (depth, AList.update u (last_idx + 1, depth) st1))"

section \<open>The ring as a transition system\<close>

text \<open>
  \<open>content u mtime n\<close> is what the revision of \<open>u\<close> with that tag holds. A block is put in after
  the fetch that asked for it, at whatever moment that ends.
\<close>

definition held :: "block_ring \<Rightarrow> nat" where
  "held r = sum_list (map (\<lambda>b. length (snd b)) (br_blocks r))"

definition ring_ok :: "(uid \<Rightarrow> int \<Rightarrow> nat \<Rightarrow> byte list) \<Rightarrow> block_ring \<Rightarrow> bool" where
  "ring_ok content r =
     (distinct (map fst (br_blocks r)) \<and> distinct (br_order r) \<and> set (br_order r) = fst ` set (br_blocks r) \<and>
      br_bytes r = held r \<and> fst ` set (br_tags r) = fst ` fst ` set (br_blocks r) \<and>
      (\<forall>u s data. ((u, s), data) \<in> set (br_blocks r) \<longrightarrow>
         (\<exists>m n. map_of (br_tags r) u = Some (m, n) \<and> data = slice (content u m n) s)))"

inductive ring_step :: "(uid \<Rightarrow> int \<Rightarrow> nat \<Rightarrow> byte list) \<Rightarrow> block_ring \<Rightarrow> block_ring \<Rightarrow> bool" for content where
  get: "ring_step content r (snd (ring_get u mtime n s r))"
| insert: "data = slice (content u mtime n) s \<Longrightarrow> ring_step content r (ring_insert u mtime n s data r)"
| drop: "ring_step content r (drop_node u r)"

lemma sum_list_filter_split:
  "sum_list (map f (filter P xs)) + sum_list (map f (filter (\<lambda>x. \<not> P x) xs)) = (sum_list (map f xs) :: nat)"
  by (induction xs) auto

lemma set_alist_delete: "set (AList.delete k xs) = {x \<in> set xs. fst x \<noteq> k}"
  by (auto simp: AList.delete_eq)

lemma ring_ok_filter:
  assumes "ring_ok content r"
    and "r' = r\<lparr>br_blocks := filter (\<lambda>b. P (fst b)) (br_blocks r), br_order := filter P (br_order r), br_tags := tags,
                br_bytes := br_bytes r - sum_list (map (\<lambda>b. length (snd b)) (filter (\<lambda>b. \<not> P (fst b)) (br_blocks r)))\<rparr>"
    and "fst ` set tags = fst ` fst ` {b \<in> set (br_blocks r). P (fst b)}"
    and "\<And>u. u \<in> fst ` fst ` {b \<in> set (br_blocks r). P (fst b)} \<Longrightarrow> map_of tags u = map_of (br_tags r) u"
  shows "ring_ok content r'"
proof -
  have "held r = held r' + sum_list (map (\<lambda>b. length (snd b)) (filter (\<lambda>b. \<not> P (fst b)) (br_blocks r)))"
    using sum_list_filter_split [of "\<lambda>b. length (snd b)" "\<lambda>b. P (fst b)" "br_blocks r"] by (simp add: held_def assms(2))
  moreover have "distinct (map fst (filter (\<lambda>b. P (fst b)) (br_blocks r)))"
    using assms(1) by (auto simp: ring_ok_def distinct_map intro: inj_on_subset)
  moreover have "fst ` {b \<in> set (br_blocks r). P (fst b)} = {k \<in> fst ` set (br_blocks r). P k}" by auto
  moreover have "\<exists>m n. map_of tags u = Some (m, n) \<and> data = slice (content u m n) s"
    if "((u, s), data) \<in> set (br_blocks r)" "P (u, s)" for u s data
    using that assms(1) assms(4) [of u] unfolding ring_ok_def by (force simp: image_iff)
  ultimately show ?thesis
    using assms(1,3) unfolding ring_ok_def by (auto simp: assms(2))
qed

lemma uids_left: "fst ` fst ` {b \<in> B. P (fst b)} = {u. \<exists>s data. ((u, s), data) \<in> B \<and> P (u, s)}"
  by force

lemma uids_all: "fst ` fst ` B = {u. \<exists>s data. ((u, s), data) \<in> B}"
  by force

lemma update_append: "map_of xs k = None \<Longrightarrow> AList.update k v xs = xs @ [(k, v)]"
  by (induction xs) (auto split: if_splits)

lemma diff_single_eq: "a \<in> K \<Longrightarrow> a \<in> L \<Longrightarrow> K - {a} = L - {a} \<Longrightarrow> K = L"
  by blast

lemma Diff_triv_single: "a \<notin> L \<Longrightarrow> L - {a} = L"
  by blast

lemma keys_delete: "fst ` set (AList.delete k xs) = fst ` set xs - {k}"
  by (auto simp: set_alist_delete)

lemma ring_ok_drop_node:
  assumes "ring_ok content r"
  shows "ring_ok content (drop_node u r)"
proof -
  have "fst ` set (AList.delete u (br_tags r)) = fst ` fst ` set (br_blocks r) - {u}"
    using assms by (simp add: keys_delete ring_ok_def)
  also have "\<dots> = fst ` fst ` {b \<in> set (br_blocks r). fst (fst b) \<noteq> u}"
    unfolding uids_left [of "set (br_blocks r)" "\<lambda>k. fst k \<noteq> u"] uids_all by auto
  finally show ?thesis
    by (intro ring_ok_filter [OF assms, where P = "\<lambda>k. fst k \<noteq> u" and tags = "AList.delete u (br_tags r)"])
      (auto simp: drop_node_def delete_conv)
qed

lemma sum_of_key:
  "distinct (map fst xs) \<Longrightarrow> sum_list (map (\<lambda>b. length (snd b)) (filter (\<lambda>b. fst b = k) xs)) =
     (case map_of xs k of Some b \<Rightarrow> length b | None \<Rightarrow> 0)"
proof (induction xs)
  case (Cons x xs)
  then show ?case by (cases "fst x = k") (auto simp: filter_empty_conv map_of_eq_None_iff image_iff split: option.splits)
qed simp

lemma ring_ok_drop_block:
  assumes "ring_ok content r" and "br_order r = victim # vs"
  shows "ring_ok content (drop_block victim r)"
proof -
  define left where "left = {b \<in> set (br_blocks r). fst b \<noteq> victim}"
  define tags where "tags = (if matches (\<lambda>b. fst (fst b) = fst victim) (AList.delete victim (br_blocks r)) then br_tags r
                             else AList.delete (fst victim) (br_tags r))"
  have vs: "filter (\<lambda>k. k \<noteq> victim) (br_order r) = vs"
    using assms by (auto simp: ring_ok_def intro: filter_True)
  have gone: "AList.delete victim (br_blocks r) = filter (\<lambda>b. fst b \<noteq> victim) (br_blocks r)"
    by (auto simp: AList.delete_eq intro: filter_cong)
  have keys: "fst ` set (br_tags r) = fst ` fst ` set (br_blocks r)" using assms by (simp add: ring_ok_def)
  have others: "fst ` fst ` set (br_blocks r) - {fst victim} = fst ` fst ` left - {fst victim}"
    unfolding left_def uids_left [of "set (br_blocks r)" "\<lambda>k. k \<noteq> victim"] uids_all by (cases victim) auto
  have known: "fst victim \<in> fst ` fst ` set (br_blocks r)"
    using assms unfolding ring_ok_def by (metis image_eqI list.set_intros(1))
  have "matches (\<lambda>b. fst (fst b) = fst victim) (AList.delete victim (br_blocks r)) \<longleftrightarrow> fst victim \<in> fst ` fst ` left"
    unfolding matches_iff gone left_def uids_left [of "set (br_blocks r)" "\<lambda>k. k \<noteq> victim"] by fastforce
  then have tags: "tags = (if fst victim \<in> fst ` fst ` left then br_tags r else AList.delete (fst victim) (br_tags r))"
    by (simp add: tags_def)
  have dom: "fst ` set tags = fst ` fst ` left"
  proof (cases "fst victim \<in> fst ` fst ` left")
    case True
    then show ?thesis using diff_single_eq [OF known True others] tags keys by simp
  next
    case False
    then have "fst ` set tags = fst ` fst ` left - {fst victim}" using tags keys others by (simp only: keys_delete if_False)
    then show ?thesis using Diff_triv_single [OF False] by (rule trans)
  qed
  have same: "map_of tags u = map_of (br_tags r) u" if "u \<in> fst ` fst ` left" for u
    using that by (cases "u = fst victim") (simp_all only: tags delete_conv if_True if_False fun_upd_other simp_thms split: if_split)
  have "drop_block victim r = r\<lparr>br_blocks := filter (\<lambda>b. fst b \<noteq> victim) (br_blocks r), br_order := filter (\<lambda>k. k \<noteq> victim) (br_order r),
      br_tags := tags, br_bytes := br_bytes r - sum_list (map (\<lambda>b. length (snd b)) (filter (\<lambda>b. \<not> fst b \<noteq> victim) (br_blocks r)))\<rparr>"
    using assms sum_of_key [of "br_blocks r" victim] unfolding vs
    by (simp add: drop_block_def Let_def gone tags_def ring_ok_def)
  then show ?thesis
    using dom same unfolding left_def
    by (intro ring_ok_filter [OF assms(1), where P = "\<lambda>k. k \<noteq> victim" and tags = tags]) auto
qed

lemma age_out_ok:
  assumes "ring_ok content r"
  shows "ring_ok content (age_out r) \<and> br_bytes (age_out r) \<le> RING_BYTES"
  using assms
proof (induction r rule: age_out.induct)
  case (1 r)
  show ?case
  proof (cases "br_bytes r \<le> RING_BYTES")
    case False
    show ?thesis
    proof (cases "br_order r")
      case Nil
      then have "br_bytes r = 0" using "1.prems" by (simp add: ring_ok_def held_def)
      then show ?thesis using False by simp
    next
      case (Cons victim vs)
      with 1 False ring_ok_drop_block [OF "1.prems" Cons] show ?thesis by (subst (1 2) age_out.simps) simp
    qed
  qed (use 1 in \<open>simp add: age_out.simps\<close>)
qed

lemma ring_ok_get:
  assumes "ring_ok content r"
  shows "ring_ok content (snd (ring_get u mtime n s r))" and "br_bytes (snd (ring_get u mtime n s r)) = br_bytes r"
    and "fst (ring_get u mtime n s r) = Some data \<Longrightarrow> data = slice (content u mtime n) s"
proof -
  have "set (remove1 (u, s) (br_order r) @ [(u, s)]) = set (br_order r)" "distinct (remove1 (u, s) (br_order r) @ [(u, s)])"
    if "(u, s) \<in> set (br_order r)"
    using assms that by (auto simp: ring_ok_def)
  then show "ring_ok content (snd (ring_get u mtime n s r))" "br_bytes (snd (ring_get u mtime n s r)) = br_bytes r"
    using assms by (auto simp: ring_get_def ring_ok_def held_def split: option.splits)
  show "data = slice (content u mtime n) s" if "fst (ring_get u mtime n s r) = Some data"
  proof -
    from that have "((u, s), data) \<in> set (br_blocks r)" "map_of (br_tags r) u = Some (mtime, n)"
      by (auto simp: ring_get_def split: if_splits option.splits dest: map_of_SomeD)
    moreover from this obtain m k where "map_of (br_tags r) u = Some (m, k)" "data = slice (content u m k) s"
      using assms unfolding ring_ok_def by blast
    ultimately show ?thesis by simp
  qed
qed

lemma ring_ok_add:
  assumes ok: "ring_ok content r" and fresh: "map_of (br_blocks r) (u, s) = None"
    and dom: "fst ` set tags = insert u (fst ` set (br_tags r))" and new: "map_of tags u = Some (mtime, n)"
    and same: "\<And>v. v \<in> fst ` set (br_tags r) \<Longrightarrow> map_of tags v = map_of (br_tags r) v"
    and data: "data = slice (content u mtime n) s"
  shows "ring_ok content (r\<lparr>br_tags := tags, br_bytes := br_bytes r + length data, br_blocks := AList.update (u, s) data (br_blocks r),
                             br_order := br_order r @ [(u, s)]\<rparr>)"
proof -
  have none: "(u, s) \<notin> fst ` set (br_blocks r)" using fresh by (simp add: map_of_eq_None_iff)
  have "\<exists>m n. map_of tags v = Some (m, n) \<and> d = slice (content v m n) t" if "((v, t), d) \<in> set (br_blocks r)" for v t d
  proof -
    have "v \<in> fst ` fst ` set (br_blocks r)" using that unfolding uids_all by blast
    then have "map_of tags v = map_of (br_tags r) v" using ok same unfolding ring_ok_def by simp
    then show ?thesis using that ok unfolding ring_ok_def by simp
  qed
  moreover have "distinct (map fst (br_blocks r @ [((u, s), data)]))" "distinct (br_order r @ [(u, s)])"
    "set (br_order r @ [(u, s)]) = fst ` set (br_blocks r @ [((u, s), data)])"
    "fst ` set tags = fst ` fst ` set (br_blocks r @ [((u, s), data)])"
    using ok none dom by (simp_all add: ring_ok_def)
  ultimately show ?thesis
    using ok new data by (auto simp: ring_ok_def held_def update_append [OF fresh])
qed

lemma ring_insert_ok:
  assumes "ring_ok content r" and "br_bytes r \<le> RING_BYTES" and "data = slice (content u mtime n) s"
  shows "ring_ok content (ring_insert u mtime n s data r) \<and> br_bytes (ring_insert u mtime n s data r) \<le> RING_BYTES"
proof (cases "map_of (br_tags r) u = Some (mtime, n)")
  case True
  then have "u \<in> fst ` set (br_tags r)" by (metis domI dom_map_of_conv_image_fst)
  then have "insert u (fst ` set (br_tags r)) = fst ` set (br_tags r)" by blast
  from ring_ok_add [OF assms(1) _ _ True _ assms(3), OF _ this [symmetric]] show ?thesis
    using True assms(1,2) age_out_ok by (auto simp: ring_insert_def)
next
  case False
  define r0 where "r0 = drop_node u r"
  have ok: "ring_ok content r0" unfolding r0_def by (rule ring_ok_drop_node [OF assms(1)])
  have fresh: "u \<notin> fst ` fst ` set (br_blocks r0)" unfolding uids_all by (auto simp: r0_def drop_node_def)
  have "(u, s) \<notin> fst ` set (br_blocks r0)" using fresh by (metis fst_conv image_eqI)
  then have none: "map_of (br_blocks r0) (u, s) = None" by (simp add: map_of_eq_None_iff)
  have untagged: "u \<notin> fst ` set (br_tags r0)" using fresh ok by (simp add: ring_ok_def)
  define tags where "tags = AList.update u (mtime, n) (br_tags r0)"
  have at: "map_of tags v = (if v = u then Some (mtime, n) else map_of (br_tags r0) v)" for v
    by (simp add: tags_def AList.update_conv)
  have "fst ` set tags = insert u (fst ` set (br_tags r0))"
    unfolding tags_def using dom_update [of u "(mtime, n)" "br_tags r0"] by (simp add: dom_map_of_conv_image_fst)
  then have "ring_ok content (r0\<lparr>br_tags := tags, br_bytes := br_bytes r0 + length data,
      br_blocks := AList.update (u, s) data (br_blocks r0), br_order := br_order r0 @ [(u, s)]\<rparr>)"
      proof (rule ring_ok_add [OF ok none _ _ _ assms(3)])
    show "map_of tags v = map_of (br_tags r0) v" if "v \<in> fst ` set (br_tags r0)" for v using that untagged at [of v] by (cases "v = u") simp_all
  qed (simp add: at)
  from age_out_ok [OF this] show ?thesis using False none by (simp add: ring_insert_def Let_def tags_def flip: r0_def)
qed

lemma ring_step_ok:
  "ring_step content r t \<Longrightarrow> ring_ok content r \<and> br_bytes r \<le> RING_BYTES \<Longrightarrow> ring_ok content t \<and> br_bytes t \<le> RING_BYTES"
proof (induction rule: ring_step.induct)
  case (drop r u)
  then show ?case using ring_ok_drop_node [of content r u] le_trans [OF diff_le_self] by (auto simp: drop_node_def)
next
  case (get r u mtime n s)
  then show ?case using ring_ok_get(1,2) [of content r u mtime n s] by simp
qed (use ring_insert_ok in blast)

interpretation ring: inv_system "\<lambda>r. r = empty_ring" "ring_step content" "\<lambda>r. ring_ok content r \<and> br_bytes r \<le> RING_BYTES" for content
proof unfold_locales
  show "ring_ok content r \<and> br_bytes r \<le> RING_BYTES" if "r = empty_ring" for r
    using that by (simp add: empty_ring_def ring_ok_def held_def)
qed (rule ring_step_ok)

text \<open>
  C10. The ring of blocks is bounded and never mixes revisions. Whatever reads, fetches that end late and
  evictions came before, the bytes counted are the bytes held and at most 128 MiB, and what a read gets
  for a block of one revision is that block of that revision.
\<close>

theorem ring_serves_only_the_revision_asked_for:
  assumes "reach (\<lambda>r. r = empty_ring) (ring_step content) r"
  shows "br_bytes r = sum_list (map (\<lambda>b. length (snd b)) (br_blocks r)) \<and> br_bytes r \<le> 128 * 1024 * 1024 \<and>
     (\<forall>u mtime n s data. fst (ring_get u mtime n s r) = Some data \<longrightarrow> data = slice (content u mtime n) s)"
proof -
  have ok: "ring_ok content r" "br_bytes r \<le> RING_BYTES" using ring.reach_inv [OF assms] by simp_all
  from ok(1) have "br_bytes r = sum_list (map (\<lambda>b. length (snd b)) (br_blocks r))" by (simp add: ring_ok_def held_def)
  with ok ring_ok_get(3) [OF ok(1)] show ?thesis by (simp add: RING_BYTES_def)
qed

text \<open>A block of an old revision that arrives late takes the place of the newer one, and is not served as it.\<close>

definition two_revisions :: "uid \<Rightarrow> int \<Rightarrow> nat \<Rightarrow> byte list" where
  "two_revisions u mtime n = (if mtime = 1 then [1, 1] else [2, 2])"

definition late_block :: block_ring where
  "late_block = ring_insert ''v'' 1 2 \<lparr>bs_idx = 0, bs_start = 0, bs_len = 2\<rparr> [1, 1]
     (ring_insert ''v'' 2 2 \<lparr>bs_idx = 0, bs_start = 0, bs_len = 2\<rparr> [2, 2] empty_ring)"

theorem ring_serves_only_the_revision_asked_for_witness:
  "br_bytes late_block = 2 \<and> fst (ring_get ''v'' 2 2 \<lparr>bs_idx = 0, bs_start = 0, bs_len = 2\<rparr> late_block) = None \<and>
   fst (ring_get ''v'' 1 2 \<lparr>bs_idx = 0, bs_start = 0, bs_len = 2\<rparr> late_block) = Some [1, 1] \<and>
   [1, 1] = slice (two_revisions ''v'' 1 2) \<lparr>bs_idx = 0, bs_start = 0, bs_len = 2\<rparr>"
proof -
  have "reach (\<lambda>r. r = empty_ring) (ring_step two_revisions) late_block"
    unfolding late_block_def
    by (rule reach_step [where t = "ring_insert u mtime n s data r" for u mtime n s data r, OF reach_step [where t = "ring_insert u mtime n s data r" for u mtime n s data r]],
        rule reach_init, rule refl; rule ring_step.insert, simp add: slice_def two_revisions_def)
  moreover have "br_bytes late_block = 2"
    by (simp add: late_block_def ring_insert_def empty_ring_def drop_node_def age_out.simps RING_BYTES_def)
  moreover have "fst (ring_get ''v'' 2 2 \<lparr>bs_idx = 0, bs_start = 0, bs_len = 2\<rparr> late_block) = None"
    "fst (ring_get ''v'' 1 2 \<lparr>bs_idx = 0, bs_start = 0, bs_len = 2\<rparr> late_block) = Some [1, 1]"
    by (simp_all add: ring_get_def late_block_def ring_insert_def empty_ring_def drop_node_def age_out.simps RING_BYTES_def)
  ultimately show ?thesis using ring_serves_only_the_revision_asked_for [of two_revisions late_block] by blast
qed

text \<open>A window is nothing or between two and eight blocks, and only for a read where the last one stopped.\<close>

lemma window_bounds:
  "fst (window u first last_idx st) = 0 \<or> PREFETCH_MIN \<le> fst (window u first last_idx st) \<and> fst (window u first last_idx st) \<le> PREFETCH_MAX"
  by (simp add: window_def clamp_def Let_def PREFETCH_MIN_def PREFETCH_MAX_def)

end
