(* ===== verification/Reads.thy ===== *)
theory Reads
  imports Block_Ring Staged
begin

text \<open>
  Reads of a file's base content (\<open>reads.rs\<close>): the plan over blocks, the ring and the disk cache in
  front of the network, the fetch of what is missing with its one retry, the repair of a file whose
  block table is wrong, and the assembly of the answer. What the SDK answers is a parameter: an open
  reader of a revision, and the download of a whole file.
\<close>

record revision_read =
  rr_size :: nat
  rr_block_sizes :: "nat list"
  rr_read_at :: "nat \<Rightarrow> nat \<Rightarrow> byte list option"

record read_core =
  rc_cache :: content_cache
  rc_ring :: block_ring
  rc_streams :: streams

definition REPAIR_MAX :: nat where "REPAIR_MAX = 512 * 1024 * 1024"

text \<open>What does not change in the course of one read: keys, the database, the time, the file.\<close>

record read_ctx =
  rx_key :: "uid \<Rightarrow> string"
  rx_db :: db
  rx_now :: millis
  rx_uid :: uid
  rx_mtime :: int
  rx_size :: nat
  rx_cache_blocks :: bool

definition core_geometry :: "read_ctx \<Rightarrow> read_core \<Rightarrow> block_geometry" where
  "core_geometry x k = (case block_geometry_of (rx_key x) (rx_uid x) (rx_mtime x) (rx_size x) (rc_cache k) of
      Some g \<Rightarrow> g | None \<Rightarrow> uniform (rx_size x))"

section \<open>One block from the network\<close>

definition download_whole_revision :: "read_ctx \<Rightarrow> byte list option \<Rightarrow> read_core \<Rightarrow> (errno + unit) \<times> read_core" where
  "download_whole_revision x outcome k = (case outcome of
      None \<Rightarrow> (Inl EIO, k)
    | Some data \<Rightarrow>
        (if length data \<noteq> rx_size x then (Inl EIO, k)
         else (Inr (), k\<lparr>rc_cache := store_file (rx_key x) (rx_db x) (rx_uid x) (rx_mtime x) (rx_size x) data (rx_now x) (rc_cache k)\<rparr>)))"

definition blob_range :: "read_ctx \<Rightarrow> nat \<Rightarrow> nat \<Rightarrow> read_core \<Rightarrow> byte list option \<times> read_core" where
  "blob_range x off len k = (case read_range (rx_key x) (rx_uid x) (rx_mtime x) (rx_size x) off len (rx_now x) (rc_cache k) of
      (data, c) \<Rightarrow> (data, k\<lparr>rc_cache := c\<rparr>))"

definition repair_block :: "read_ctx \<Rightarrow> byte list option \<Rightarrow> block_span \<Rightarrow> read_core \<Rightarrow> (errno + byte list) \<times> read_core" where
  "repair_block x download s k =
     (if rx_size x > REPAIR_MAX then (Inl EIO, k)
      else case blob_range x (bs_start s) (bs_len s) k of
        (found, k1) \<Rightarrow>
          (case (case found of Some data \<Rightarrow> if length data = bs_len s then Some data else None | None \<Rightarrow> None) of
             Some data \<Rightarrow> (Inr data, k1)
           | None \<Rightarrow> (case download_whole_revision x download k1 of
               (Inl e, k2) \<Rightarrow> (Inl e, k2)
             | (Inr _, k2) \<Rightarrow> (case blob_range x (bs_start s) (bs_len s) k2 of
                 (again, k3) \<Rightarrow> (case again of
                     Some data \<Rightarrow> (if length data = bs_len s then Inr data else Inl EIO, k3)
                   | None \<Rightarrow> (Inl EIO, k3))))))"

definition read_block :: "read_ctx \<Rightarrow> revision_read \<Rightarrow> byte list option \<Rightarrow> block_span \<Rightarrow> read_core \<Rightarrow> (errno + byte list) \<times> read_core" where
  "read_block x reader download s k =
     (let (got, k1) =
        (if rr_size reader \<noteq> rx_size x then repair_block x download s k
         else let k0 = (if rx_cache_blocks x
                        then k\<lparr>rc_cache := store_block_geometry (rx_key x) (rx_uid x) (rx_mtime x) (rx_size x) (rr_block_sizes reader) (rc_cache k)\<rparr>
                        else k)
              in case rr_read_at reader (bs_start s) (bs_len s) of
                   None \<Rightarrow> (Inl EIO, k0)
                 | Some data \<Rightarrow> (if length data = bs_len s then (Inr data, k0) else repair_block x download s k0))
      in case got of
           Inl e \<Rightarrow> (Inl e, k1)
         | Inr data \<Rightarrow>
             (let k2 = (if rx_cache_blocks x
                        then k1\<lparr>rc_cache := store_block (rx_key x) (rx_uid x) (rx_mtime x) (rx_size x) s data (rx_now x) (rc_cache k1)\<rparr>
                        else k1)
              in (Inr data, k2\<lparr>rc_ring := ring_insert (rx_uid x) (rx_mtime x) (rx_size x) s data (rc_ring k2)\<rparr>)))"

section \<open>The blocks of a range\<close>

text \<open>What is at hand, in the order of the plan: from the ring, or from the disk into the ring.\<close>

definition hit_block :: "read_ctx \<Rightarrow> block_span \<Rightarrow> read_core \<Rightarrow> byte list option \<times> read_core" where
  "hit_block x s k = (case ring_get (rx_uid x) (rx_mtime x) (rx_size x) s (rc_ring k) of
      (Some data, r) \<Rightarrow> (Some data, k\<lparr>rc_ring := r\<rparr>)
    | (None, r) \<Rightarrow>
        (if \<not> rx_cache_blocks x then (None, k\<lparr>rc_ring := r\<rparr>)
         else case cached_block (rx_key x) (rx_uid x) (rx_mtime x) (rx_size x) s (rx_now x) (rc_cache k) of
                (None, c) \<Rightarrow> (None, k\<lparr>rc_ring := r, rc_cache := c\<rparr>)
              | (Some data, c) \<Rightarrow> (Some data, k\<lparr>rc_ring := ring_insert (rx_uid x) (rx_mtime x) (rx_size x) s data r, rc_cache := c\<rparr>)))"

fun hit_blocks :: "read_ctx \<Rightarrow> block_span list \<Rightarrow> read_core \<Rightarrow> byte list option list \<times> read_core" where
  "hit_blocks x [] k = ([], k)"
| "hit_blocks x (s # ss) k = (case hit_block x s k of (b, k1) \<Rightarrow> (case hit_blocks x ss k1 of (bs, k2) \<Rightarrow> (b # bs, k2)))"

text \<open>
  One attempt to fetch what is missing: whether the link is up or comes back in time, whether the
  deadline passes first, the reader the attempt gets, what a download of the whole file would give, the order in
  which the blocks come in, and whether the link is up after it.
\<close>

record attempt =
  at_online :: bool
  at_timeout :: bool
  at_reader :: "revision_read option"
  at_download :: "byte list option"
  at_order :: "block_span list \<Rightarrow> block_span list"
  at_online_after :: bool

fun fetch_blocks :: "read_ctx \<Rightarrow> revision_read \<Rightarrow> byte list option \<Rightarrow> block_span list \<Rightarrow> read_core \<Rightarrow>
    (errno + (nat \<times> byte list) list) \<times> read_core" where
  "fetch_blocks x reader download [] k = (Inr [], k)"
| "fetch_blocks x reader download (s # ss) k = (case read_block x reader download s k of
      (Inl e, k1) \<Rightarrow> (Inl e, k1)
    | (Inr data, k1) \<Rightarrow> (case fetch_blocks x reader download ss k1 of
          (Inl e, k2) \<Rightarrow> (Inl e, k2)
        | (Inr rest, k2) \<Rightarrow> (Inr ((bs_idx s, data) # rest), k2)))"

definition fetch_misses :: "read_ctx \<Rightarrow> attempt \<Rightarrow> block_span list \<Rightarrow> read_core \<Rightarrow> (errno + (nat \<times> byte list) list) \<times> read_core" where
  "fetch_misses x a misses k = (case at_reader a of
      None \<Rightarrow> (Inl EIO, k)
    | Some reader \<Rightarrow> fetch_blocks x reader (at_download a) (at_order a misses) k)"

definition evict_reader :: "uid \<Rightarrow> read_core \<Rightarrow> read_core" where
  "evict_reader u k = k\<lparr>rc_ring := drop_node u (rc_ring k), rc_streams := AList.delete u (rc_streams k)\<rparr>"

text \<open>
  The loop around the fetch. At the deadline the blocks that came in stay cached, and the reader
  with its blocks in memory is dropped.
\<close>

function fetch_loop :: "read_ctx \<Rightarrow> (bool \<Rightarrow> attempt) \<Rightarrow> bool \<Rightarrow> block_span list \<Rightarrow> read_core \<Rightarrow>
    (errno + (nat \<times> byte list) list) \<times> read_core" where
  "fetch_loop x tries retried misses k =
     (let a = tries retried
      in if \<not> at_online a then (Inl EIO, k)
         else case fetch_misses x a misses k of (got, k1) \<Rightarrow>
           (if at_timeout a then (Inl EIO, evict_reader (rx_uid x) k1)
            else case got of
                   Inr fetched \<Rightarrow> (Inr fetched, k1)
                 | Inl e \<Rightarrow> (if \<not> retried \<and> \<not> at_online_after a then fetch_loop x tries True misses k1 else (Inl e, k1))))"
  by pat_completeness auto
termination by (relation "measure (\<lambda>(x, tries, retried, misses, k). if retried then 0 else 1)") auto

declare fetch_loop.simps [simp del]

text \<open>Each fetched block goes to its slot.\<close>

definition fill_slots :: "nat \<Rightarrow> (nat \<times> byte list) list \<Rightarrow> byte list option list \<Rightarrow> byte list option list" where
  "fill_slots first fetched blocks = fold (\<lambda>(idx, data) bs. bs[idx - first := Some data]) fetched blocks"

text \<open>The answer: \<open>None\<close> where the code panics on a slot that is still empty.\<close>

fun assemble_blocks :: "nat \<Rightarrow> nat \<Rightarrow> (block_span \<times> byte list option) list \<Rightarrow> (errno + byte list) option" where
  "assemble_blocks off stop [] = Some (Inr [])"
| "assemble_blocks off stop ((s, block) # rest) = (case block of
      None \<Rightarrow> None
    | Some data \<Rightarrow>
        (if length data \<noteq> bs_len s then Some (Inl EIO)
         else let from_idx = max off (bs_start s) - bs_start s;
                  to_idx = min stop (bs_start s + length data) - bs_start s;
                  part = (if from_idx < to_idx then take (to_idx - from_idx) (drop from_idx data) else [])
              in case assemble_blocks off stop rest of
                   None \<Rightarrow> None
                 | Some (Inl e) \<Rightarrow> Some (Inl e)
                 | Some (Inr out) \<Rightarrow> Some (Inr (part @ out))))"

section \<open>Read-ahead\<close>

definition wants :: "read_ctx \<Rightarrow> block_span \<Rightarrow> read_core \<Rightarrow> bool \<times> read_core" where
  "wants x s k = (case ring_get (rx_uid x) (rx_mtime x) (rx_size x) s (rc_ring k) of
      (hit, r) \<Rightarrow> (hit = None \<and> \<not> (rx_cache_blocks x \<and> has_block (rx_key x) (rx_uid x) (rx_mtime x) (rx_size x) s (rc_cache k)),
                   k\<lparr>rc_ring := r\<rparr>))"

fun filter_wanted :: "read_ctx \<Rightarrow> block_span list \<Rightarrow> read_core \<Rightarrow> block_span list \<times> read_core" where
  "filter_wanted x [] k = ([], k)"
| "filter_wanted x (s # ss) k = (case wants x s k of (w, k1) \<Rightarrow> (case filter_wanted x ss k1 of
      (rest, k2) \<Rightarrow> (if w then s # rest else rest, k2)))"

text \<open>The blocks the background fetch is started for.\<close>

definition prefetch_ahead :: "read_ctx \<Rightarrow> nat \<Rightarrow> nat \<Rightarrow> read_core \<Rightarrow> block_span list \<times> read_core" where
  "prefetch_ahead x first last_idx k = (case window (rx_uid x) first last_idx (rc_streams k) of
      (depth, st) \<Rightarrow>
        (let k1 = k\<lparr>rc_streams := st\<rparr>
         in if depth = 0 then ([], k1)
            else let g = core_geometry x k1; last_block = length (bg_sizes g) - 1
                 in filter_wanted x (List.map_filter (span g) [last_idx + 1..<Suc (min (last_idx + depth) last_block)]) k1))"

section \<open>A range of the base\<close>

definition read_range_remote :: "read_ctx \<Rightarrow> (bool \<Rightarrow> attempt) \<Rightarrow> nat \<Rightarrow> nat \<Rightarrow> read_core \<Rightarrow> (errno + byte list) option \<times> read_core" where
  "read_range_remote x tries off len k = (case blob_range x off len k of
      (Some data, k1) \<Rightarrow> (Some (Inr data), k1)
    | (None, k1) \<Rightarrow>
        (if off \<ge> rx_size x \<or> len = 0 then (Some (Inr []), k1)
         else let stop = min (saturating_add off len) (rx_size x); wanted = spans (core_geometry x k1) off stop
              in if wanted = [] then (Some (Inr []), k1)
                 else let first = bs_idx (hd wanted); last_idx = bs_idx (last wanted)
                      in case hit_blocks x wanted k1 of
                        (blocks, k2) \<Rightarrow>
                          (let misses = map fst (filter (\<lambda>(s, b). b = None) (zip wanted blocks))
                           in case (if misses = [] then (Inr [], k2) else fetch_loop x tries False misses k2) of
                                (Inl e, k3) \<Rightarrow> (Some (Inl e), k3)
                              | (Inr fetched, k3) \<Rightarrow>
                                  (assemble_blocks off stop (zip wanted (fill_slots first fetched blocks)),
                                   snd (prefetch_ahead x first last_idx k3)))))"

text \<open>The same range from this machine only: nothing as soon as part of it is not here.\<close>

fun cached_spans :: "read_ctx \<Rightarrow> nat \<Rightarrow> nat \<Rightarrow> block_span list \<Rightarrow> read_core \<Rightarrow> byte list option \<times> read_core" where
  "cached_spans x off stop [] k = (Some [], k)"
| "cached_spans x off stop (s # ss) k =
     (let (block, k1) = (case ring_get (rx_uid x) (rx_mtime x) (rx_size x) s (rc_ring k) of
          (Some data, r) \<Rightarrow> (Some data, k\<lparr>rc_ring := r\<rparr>)
        | (None, r) \<Rightarrow> (case cached_block (rx_key x) (rx_uid x) (rx_mtime x) (rx_size x) s (rx_now x) (rc_cache k) of
              (data, c) \<Rightarrow> (data, k\<lparr>rc_ring := r, rc_cache := c\<rparr>)))
      in case block of
           None \<Rightarrow> (None, k1)
         | Some data \<Rightarrow>
             (let from_idx = max off (bs_start s) - bs_start s; to_idx = min stop (bs_start s + length data) - bs_start s
              in if from_idx \<ge> to_idx then (None, k1)
                 else case cached_spans x off stop ss k1 of
                        (rest, k2) \<Rightarrow> (map_option (\<lambda>r. take (to_idx - from_idx) (drop from_idx data) @ r) rest, k2)))"

definition cached_range :: "read_ctx \<Rightarrow> nat \<Rightarrow> nat \<Rightarrow> read_core \<Rightarrow> byte list option \<times> read_core" where
  "cached_range x off len k =
     (if len = 0 then (Some [], k)
      else case blob_range x off len k of
             (Some data, k1) \<Rightarrow> (Some data, k1)
           | (None, k1) \<Rightarrow>
               (if off + len > U64_MAX then (None, k1)
                else let stop = min (off + len) (rx_size x)
                     in if off \<ge> stop then (None, k1)
                        else case cached_spans x off stop (spans (core_geometry x k1) off stop) k1 of
                               (out, k2) \<Rightarrow> (case out of Some data \<Rightarrow> (if length data = stop - off then Some data else None) | None \<Rightarrow> None, k2)))"

section \<open>A read of a file nobody has open for writing\<close>

text \<open>The uid a stand-in has once its create landed; never a stand-in itself.\<close>

definition landed_lid_uid :: "db \<Rightarrow> lid \<Rightarrow> uid option" where
  "landed_lid_uid d l = (case uid_of_lid d l of
      Some u \<Rightarrow> (if parse_node_uid u \<noteq> None \<and> \<not> is_local_uid_str u then Some u else None)
    | None \<Rightarrow> None)"

definition landed_stand_in_uid :: "db \<Rightarrow> uid \<Rightarrow> uid option" where
  "landed_stand_in_uid d u = Option.bind (local_lid u) (landed_lid_uid d)"

text \<open>
  \<open>read_range\<close>: the queued write is the truth until it lands; a file created here and never written is
  empty; everything else is the base. \<open>remote_of\<close> is \<open>read_range_remote\<close> for a revision.
\<close>

function read_range_of :: "db \<Rightarrow> (uid \<Rightarrow> pending_revision option) \<Rightarrow> (uid \<Rightarrow> int \<Rightarrow> nat \<Rightarrow> remote) \<Rightarrow>
    uid \<Rightarrow> int \<Rightarrow> nat \<Rightarrow> nat \<Rightarrow> nat \<Rightarrow> errno + byte list" where
  "read_range_of d pending remote_of u mtime n off len = (case pending u of
      Some p \<Rightarrow> read_pending (remote_of (sw_uid (pr_meta p)) (sw_base_mtime (pr_meta p)) (sw_base_size (pr_meta p))) p off len
    | None \<Rightarrow>
        (if is_local_uid_str u
         then (case landed_stand_in_uid d u of
                 Some real \<Rightarrow> read_range_of d pending remote_of real mtime n off len
               | None \<Rightarrow> Inr [])
         else remote_of u mtime n off len))"
  by pat_completeness auto
termination
  by (relation "measure (\<lambda>(d, pending, remote_of, u, mtime, n, off, len). if is_local_uid_str u then 1 else 0)")
    (auto simp: landed_stand_in_uid_def landed_lid_uid_def bind_eq_Some_conv split: option.splits if_splits)

declare read_range_of.simps [simp del]

text \<open>What a read of the base gives in a state of the caches.\<close>

definition remote_at :: "read_ctx \<Rightarrow> (bool \<Rightarrow> attempt) \<Rightarrow> read_core \<Rightarrow> uid \<Rightarrow> int \<Rightarrow> nat \<Rightarrow> remote" where
  "remote_at x tries k u mtime n off len =
     (case fst (read_range_remote (x\<lparr>rx_uid := u, rx_mtime := mtime, rx_size := n\<rparr>) tries off len k) of
        Some res \<Rightarrow> res | None \<Rightarrow> Inl EIO)"

end
