(* ===== verification/Reads_Spec.thy ===== *)
theory Reads_Spec
  imports Reads
begin

text \<open>
  A read of the base is the base: from the ring, the disk or the network, in whatever order blocks
  come in, after a retry and after a repair. What is relied on of the SDK is \<open>attempt_right\<close>: a reader
  whose size is the node's reads that revision, and a download of that length is it.
\<close>

definition attempt_right :: "read_ctx \<Rightarrow> byte list \<Rightarrow> attempt \<Rightarrow> bool" where
  "attempt_right x base a =
     ((\<forall>reader. at_reader a = Some reader \<longrightarrow> rr_size reader = rx_size x \<longrightarrow>
         sum_list (rr_block_sizes reader) \<le> U64_MAX \<and>
         (\<forall>s l d. rr_read_at reader s l = Some d \<longrightarrow> length d = l \<longrightarrow> d = take l (drop s base))) \<and>
      (\<forall>d. at_download a = Some d \<longrightarrow> length d = rx_size x \<longrightarrow> d = base) \<and>
      (\<forall>ss. set (at_order a ss) \<subseteq> set ss \<and> (\<not> at_timeout a \<longrightarrow> set (at_order a ss) = set ss)))"

definition cache_core_right :: "read_ctx \<Rightarrow> byte list \<Rightarrow> content_cache \<Rightarrow> bool" where
  "cache_core_right x base c =
     (right_blocks (rx_key x) (rx_uid x) (rx_mtime x) base c \<and>
      (\<forall>m. map_of (cc_geom c) (rx_key x (rx_uid x)) = Some m \<longrightarrow> sum_list (gm_sizes m) \<le> U64_MAX))"

definition core_right :: "read_ctx \<Rightarrow> (uid \<Rightarrow> int \<Rightarrow> nat \<Rightarrow> byte list) \<Rightarrow> read_core \<Rightarrow> bool" where
  "core_right x content k =
     (let base = content (rx_uid x) (rx_mtime x) (rx_size x)
      in length base = rx_size x \<and> rx_size x \<le> U64_MAX \<and> cache_core_right x base (rc_cache k) \<and>
         ring_ok content (rc_ring k) \<and> br_bytes (rc_ring k) \<le> RING_BYTES)"

section \<open>The caches stay right\<close>

lemma enforce_loop_geom [simp]: "cc_geom (enforce_loop exempt cap kind skipped running c) = cc_geom c"
proof (induction exempt cap kind skipped running c rule: enforce_loop.induct)
  case (1 exempt cap kind skipped running c)
  have batch: "cc_geom (snd (snd (snd (evict_batch exempt cap kind batch s r d)))) = cc_geom d" for batch s r d
    by (induction exempt cap kind batch s r d rule: evict_batch.induct) (auto simp: evict_key_def split: prod.splits)
  show ?case
    using 1 batch [of _ skipped running c] unfolding enforce_loop.simps [of exempt cap kind skipped running c]
    by (auto simp: Let_def split: prod.splits) (metis snd_conv)+
qed

lemma enforce_pool_geom [simp]: "cc_geom (enforce_pool exempt kind c) = cc_geom c"
  by (simp add: enforce_pool_def Let_def reseed_totals_def flush_touches_def)

lemma put_file_geom [simp]: "cc_geom (put_file kind k data t now c) = cc_geom c"
  by (simp add: put_file_def set_pool_def split: cache_kind.split)

lemma touch_geom [simp]: "cc_geom (touch k now c) = cc_geom c"
  by (simp add: touch_def Let_def flush_touches_def)

lemma right_blocks_evict:
  assumes "right_blocks key u mtime base c" and "evicted_or_kept kind c c'"
  shows "right_blocks key u mtime base c'"
proof -
  have same: "map_of (cc_files c') y = map_of (cc_files c) y \<and> map_of (cc_tags c') y = map_of (cc_tags c) y"
    if "map_of (cc_files c') y = Some d" for y d
    using assms(2) that unfolding evicted_or_kept_def by (metis option.distinct(1))
  have "data = slice base s" if "block_tag key u mtime (length base) s c'"
    "map_of (cc_files c') (KIND_BLOCK, block_key key u (bs_idx s)) = Some data" "length data = bs_len s" for s data
  proof -
    have "block_tag key u mtime (length base) s c" using that(1) same [OF that(2)] by (simp add: block_tag_def)
    then show ?thesis using assms(1) that same [OF that(2)] unfolding right_blocks_def by metis
  qed
  moreover have "valid_blob key u mtime (length base) c = Some blob" if "valid_blob key u mtime (length base) c' = Some blob" for blob
  proof -
    have "map_of (cc_files c') (KIND_BLOB, key u) = Some blob" using that by (auto simp: valid_blob_def split: if_splits option.splits)
    from same [OF this] that show ?thesis by (simp add: valid_blob_def cong: if_cong)
  qed
  ultimately show ?thesis using assms(1) unfolding right_blocks_def by metis
qed

lemma right_blocks_store_block:
  assumes "right_blocks key u mtime base c" and "data = slice base s" and "length data = bs_len s"
  shows "right_blocks key u mtime base (store_block key u mtime (length base) s data now c)"
proof -
  let ?p = "put_file KIND_BLOCK (block_key key u (bs_idx s)) data (BlockMeta mtime (length base) (Some (bs_start s))) now c"
  have "right_blocks key u mtime base ?p"
    unfolding right_blocks_def
  proof (intro conjI allI impI)
    fix t d assume t: "block_tag key u mtime (length base) t ?p" "length d = bs_len t"
      "map_of (cc_files ?p) (KIND_BLOCK, block_key key u (bs_idx t)) = Some d"
    show "d = slice base t"
    proof (cases "block_key key u (bs_idx t) = block_key key u (bs_idx s)")
      case True
      then have "bs_start t = bs_start s" "d = data" using t by (simp_all add: block_tag_def put_file_maps)
      then show ?thesis using assms t(2) by (simp add: slice_def)
    next
      case False
      then have "block_tag key u mtime (length base) t c" "map_of (cc_files c) (KIND_BLOCK, block_key key u (bs_idx t)) = Some d"
        using t by (simp_all add: block_tag_def put_file_maps)
      then show ?thesis using assms(1) t(2) unfolding right_blocks_def by blast
    qed
  next
    fix blob assume "valid_blob key u mtime (length base) ?p = Some blob"
    then have "valid_blob key u mtime (length base) c = Some blob" by (simp add: valid_blob_def put_file_maps split: if_splits)
    then show "blob = base" using assms(1) unfolding right_blocks_def by blast
  qed
  then show ?thesis
    unfolding store_block_def enforce_block_budget_def by (rule right_blocks_evict [OF _ enforce_pool_files])
qed

lemma right_blocks_store_file:
  assumes "right_blocks key u mtime base c"
  shows "right_blocks key u mtime base (store_file key d u mtime (length base) base now c)"
proof -
  let ?p = "put_file KIND_BLOB (key u) base (Meta mtime (length base)) now c"
  have "block_tag key u mtime (length base) s ?p = block_tag key u mtime (length base) s c" for s
    by (simp add: block_tag_def put_file_maps)
  moreover have "valid_blob key u mtime (length base) ?p = Some base" by (simp add: valid_blob_def put_file_maps)
  ultimately have "right_blocks key u mtime base ?p"
    using assms unfolding right_blocks_def by (simp add: put_file_maps)
  then show ?thesis
    using right_blocks_evict [OF _ enforce_pool_files] by (simp add: store_file_def enforce_budget_def Let_def)
qed

lemma cache_core_touch: "cache_core_right x base c \<Longrightarrow> cache_core_right x base (touch k now c)"
  by (simp add: cache_core_right_def right_blocks_def valid_blob_def)

lemma cache_core_cached_block:
  "cache_core_right x base c \<Longrightarrow> cache_core_right x base (snd (cached_block (rx_key x) (rx_uid x) mtime n s now c))"
  by (simp add: cached_block_def cache_core_touch split: option.split)

lemma cache_core_geometry:
  "cache_core_right x base c \<Longrightarrow> sum_list sizes \<le> U64_MAX \<Longrightarrow> cache_core_right x base (store_block_geometry (rx_key x) (rx_uid x) mtime n sizes c)"
  by (simp add: cache_core_right_def right_blocks_def valid_blob_def block_tag_def store_block_geometry_def update_conv)

lemma cache_core_store_block:
  "cache_core_right x base c \<Longrightarrow> data = slice base s \<Longrightarrow> length data = bs_len s \<Longrightarrow>
     cache_core_right x base (store_block (rx_key x) (rx_uid x) (rx_mtime x) (length base) s data now c)"
  using right_blocks_store_block [of "rx_key x" "rx_uid x" "rx_mtime x" base c data s now]
  by (simp add: cache_core_right_def store_block_def enforce_block_budget_def)

lemma cache_core_store_file:
  "cache_core_right x base c \<Longrightarrow> cache_core_right x base (store_file (rx_key x) d (rx_uid x) (rx_mtime x) (length base) base now c)"
  using right_blocks_store_file [of "rx_key x" "rx_uid x" "rx_mtime x" base c d now]
  by (auto simp: cache_core_right_def store_file_def enforce_budget_def Let_def split: if_splits)

section \<open>Each step reads right\<close>

abbreviation base_of :: "read_ctx \<Rightarrow> (uid \<Rightarrow> int \<Rightarrow> nat \<Rightarrow> byte list) \<Rightarrow> byte list" where
  "base_of x content \<equiv> content (rx_uid x) (rx_mtime x) (rx_size x)"

lemma core_right_cache:
  "core_right x content k \<Longrightarrow> cache_core_right x (base_of x content) c \<Longrightarrow> core_right x content (k\<lparr>rc_cache := c\<rparr>)"
  by (simp add: core_right_def Let_def)

lemma core_rightD:
  assumes "core_right x content k"
  shows "length (base_of x content) = rx_size x" "rx_size x \<le> U64_MAX" "cache_core_right x (base_of x content) (rc_cache k)"
    "ring_ok content (rc_ring k)" "br_bytes (rc_ring k) \<le> RING_BYTES"
  using assms by (simp_all add: core_right_def Let_def)

lemma core_right_ring:
  "core_right x content k \<Longrightarrow> ring_ok content r \<Longrightarrow> br_bytes r \<le> RING_BYTES \<Longrightarrow> core_right x content (k\<lparr>rc_ring := r\<rparr>)"
  by (simp add: core_right_def Let_def)

lemma core_right_insert:
  assumes "core_right x content k" and "data = slice (base_of x content) s"
  shows "core_right x content (k\<lparr>rc_ring := ring_insert (rx_uid x) (rx_mtime x) (rx_size x) s data (rc_ring k)\<rparr>)"
  using core_right_ring [OF assms(1)] ring_insert_ok [OF core_rightD(4,5) [OF assms(1)] assms(2)] by blast

lemma blob_range_right:
  assumes "core_right x content k" and "blob_range x off len k = (got, k')"
  shows "core_right x content k'" and "got = Some data \<Longrightarrow> data = take len (drop off (base_of x content))"
proof -
  note D = core_rightD [OF assms(1)]
  show "core_right x content k'"
    using assms D(3) by (auto simp: blob_range_def read_range_def Let_def cache_core_touch intro!: core_right_cache split: option.splits if_splits)
  assume "got = Some data"
  then obtain blob where blob: "valid_blob (rx_key x) (rx_uid x) (rx_mtime x) (rx_size x) (rc_cache k) = Some blob"
    and data: "data = (if off \<ge> rx_size x then [] else take (min (saturating_add off len) (rx_size x) - off) (drop off blob))"
    using assms(2) by (auto simp: blob_range_def read_range_def Let_def read_exact_at_def split: option.splits if_splits)
  have "blob = base_of x content" using blob D(1,3) by (auto simp: cache_core_right_def right_blocks_def)
  then show "data = take len (drop off (base_of x content))"
    using data D(1,2) by (auto simp: saturating_add_def min_def)
qed

lemma repair_block_right:
  assumes "core_right x content k" and "\<And>d. download = Some d \<Longrightarrow> length d = rx_size x \<Longrightarrow> d = base_of x content"
    and "repair_block x download s k = (got, k')"
  shows "core_right x content k'" and "got = Inr data \<Longrightarrow> data = slice (base_of x content) s \<and> length data = bs_len s"
proof -
  obtain found k1 where f: "blob_range x (bs_start s) (bs_len s) k = (found, k1)" by (cases "blob_range x (bs_start s) (bs_len s) k")
  note r1 = blob_range_right [OF assms(1) f]
  obtain st k2 where d: "download_whole_revision x download k1 = (st, k2)" by (cases "download_whole_revision x download k1")
  have k2: "core_right x content k2"
    using d r1(1) assms(2) core_rightD(1,3) [OF r1(1)] cache_core_store_file [of x "base_of x content" "rc_cache k1" "rx_db x" "rx_now x"]
    by (auto simp: download_whole_revision_def intro!: core_right_cache split: option.splits if_splits)
  obtain again k3 where g: "blob_range x (bs_start s) (bs_len s) k2 = (again, k3)" by (cases "blob_range x (bs_start s) (bs_len s) k2")
  note r3 = blob_range_right [OF k2 g]
  show "core_right x content k'"
    using assms(1,3) r1(1) k2 r3(1) by (auto simp: repair_block_def f d g split: if_splits option.splits sum.splits)
  show "data = slice (base_of x content) s \<and> length data = bs_len s" if "got = Inr data"
    using that assms(3) r1(2) r3(2) by (auto simp: repair_block_def f d g slice_def split: if_splits option.splits sum.splits)
qed

lemma read_block_right:
  assumes "core_right x content k" and "attempt_right x (base_of x content) a" and "at_reader a = Some reader"
    and "read_block x reader (at_download a) s k = (got, k')"
  shows "core_right x content k'" and "got = Inr data \<Longrightarrow> data = slice (base_of x content) s \<and> length data = bs_len s"
proof -
  note D = core_rightD [OF assms(1)]
  have dl: "d = base_of x content" if "at_download a = Some d" "length d = rx_size x" for d
    using assms(2) that by (simp add: attempt_right_def)
  define k0 where "k0 = (if rx_cache_blocks x then k\<lparr>rc_cache := store_block_geometry (rx_key x) (rx_uid x) (rx_mtime x) (rx_size x)
      (rr_block_sizes reader) (rc_cache k)\<rparr> else k)"
  define mid where "mid = (if rr_size reader \<noteq> rx_size x then repair_block x (at_download a) s k
      else case rr_read_at reader (bs_start s) (bs_len s) of None \<Rightarrow> (Inl EIO, k0)
           | Some data \<Rightarrow> (if length data = bs_len s then (Inr data, k0) else repair_block x (at_download a) s k0))"
  obtain g k1 where m: "mid = (g, k1)" by (cases mid)
  have k0: "core_right x content k0" if "rr_size reader = rx_size x"
    using that assms(1-3) D(3) by (auto simp: k0_def attempt_right_def intro!: core_right_cache cache_core_geometry)
  have mid: "core_right x content k1 \<and> (\<forall>d. g = Inr d \<longrightarrow> d = slice (base_of x content) s \<and> length d = bs_len s)"
  proof (cases "rr_size reader = rx_size x")
    case False
    then have "repair_block x (at_download a) s k = (g, k1)" using m by (simp add: mid_def)
    from repair_block_right [OF assms(1) dl this] show ?thesis by blast
  next
    case True
    show ?thesis
    proof (cases "rr_read_at reader (bs_start s) (bs_len s)")
      case None
      then show ?thesis using m True k0 by (auto simp: mid_def)
    next
      case (Some d)
      show ?thesis
      proof (cases "length d = bs_len s")
        case len: True
        have "d = slice (base_of x content) s" using assms(2,3) True Some len unfolding attempt_right_def slice_def by blast
        then show ?thesis using m True Some len k0 by (auto simp: mid_def)
      next
        case False
        then have "repair_block x (at_download a) s k0 = (g, k1)" using m True Some by (simp add: mid_def)
        from repair_block_right [OF k0 [OF True] dl this] show ?thesis by blast
      qed
    qed
  qed
  then have k1: "core_right x content k1" and g: "\<And>d. g = Inr d \<Longrightarrow> d = slice (base_of x content) s \<and> length d = bs_len s" by simp_all
  have eq: "read_block x reader (at_download a) s k = (case g of Inl e \<Rightarrow> (Inl e, k1)
      | Inr data \<Rightarrow> (let k2 = (if rx_cache_blocks x
                        then k1\<lparr>rc_cache := store_block (rx_key x) (rx_uid x) (rx_mtime x) (rx_size x) s data (rx_now x) (rc_cache k1)\<rparr> else k1)
              in (Inr data, k2\<lparr>rc_ring := ring_insert (rx_uid x) (rx_mtime x) (rx_size x) s data (rc_ring k2)\<rparr>)))"
    unfolding read_block_def Let_def k0_def [symmetric] by (subst mid_def [symmetric]) (simp add: m)
  show "core_right x content k'"
  proof (cases g)
    case (Inr d)
    have "core_right x content (if rx_cache_blocks x
        then k1\<lparr>rc_cache := store_block (rx_key x) (rx_uid x) (rx_mtime x) (rx_size x) s d (rx_now x) (rc_cache k1)\<rparr> else k1)"
      using k1 g [OF Inr] cache_core_store_block [OF core_rightD(3) [OF k1], of d s "rx_now x"] core_rightD(1) [OF k1]
      by (auto intro!: core_right_cache)
    from core_right_insert [OF this, of d s] show ?thesis using eq assms(4) Inr g [OF Inr] by (auto simp: Let_def)
  qed (use eq assms(4) k1 in auto)
  show "data = slice (base_of x content) s \<and> length data = bs_len s" if "got = Inr data"
    using that eq assms(4) g by (auto simp: Let_def split: sum.splits)
qed

lemma fetch_blocks_right:
  assumes "core_right x content k" and "attempt_right x (base_of x content) a" and "at_reader a = Some reader"
    and "fetch_blocks x reader (at_download a) ss k = (got, k')"
  shows "core_right x content k' \<and> (\<forall>fetched. got = Inr fetched \<longrightarrow>
           fetched = map (\<lambda>s. (bs_idx s, slice (base_of x content) s)) ss \<and> (\<forall>s \<in> set ss. length (slice (base_of x content) s) = bs_len s))"
  using assms(1,4)
proof (induction ss arbitrary: k got k')
  case (Cons s ss)
  obtain g k1 where b: "read_block x reader (at_download a) s k = (g, k1)" by (cases "read_block x reader (at_download a) s k")
  note r = read_block_right [OF Cons.prems(1) assms(2,3) b]
  obtain h k2 where f: "fetch_blocks x reader (at_download a) ss k1 = (h, k2)" by (cases "fetch_blocks x reader (at_download a) ss k1")
  from Cons.IH [OF r(1) f] Cons.prems(2) r show ?case by (auto simp: b f split: sum.splits)
qed auto

lemma core_right_evict:
  assumes "core_right x content k"
  shows "core_right x content (evict_reader u k)"
proof -
  have "br_bytes (drop_node u (rc_ring k)) \<le> RING_BYTES"
    using core_rightD(5) [OF assms] by (simp add: drop_node_def le_diff_conv trans_le_add1)
  with core_right_ring [OF assms ring_ok_drop_node [OF core_rightD(4) [OF assms]]] show ?thesis
    by (simp add: evict_reader_def core_right_def Let_def)
qed

lemma fetch_loop_right:
  assumes "core_right x content k" and "\<And>r. attempt_right x (base_of x content) (tries r)"
    and "fetch_loop x tries retried misses k = (got, k')"
  shows "core_right x content k' \<and> (\<forall>fetched. got = Inr fetched \<longrightarrow>
           set fetched = (\<lambda>s. (bs_idx s, slice (base_of x content) s)) ` set misses \<and>
           (\<forall>s \<in> set misses. length (slice (base_of x content) s) = bs_len s))"
  using assms
proof (induction x tries retried misses k arbitrary: got k' rule: fetch_loop.induct)
  case (1 x tries retried misses k)
  let ?a = "tries retried"
  obtain g k1 where f: "fetch_misses x ?a misses k = (g, k1)" by (cases "fetch_misses x ?a misses k")
  have one: "core_right x content k1 \<and> (\<forall>fetched. g = Inr fetched \<longrightarrow> \<not> at_timeout ?a \<longrightarrow>
      set fetched = (\<lambda>s. (bs_idx s, slice (base_of x content) s)) ` set misses \<and>
      (\<forall>s \<in> set misses. length (slice (base_of x content) s) = bs_len s))"
  proof (cases "at_reader ?a")
    case (Some reader)
    then have "fetch_blocks x reader (at_download ?a) (at_order ?a misses) k = (g, k1)" using f by (simp add: fetch_misses_def)
    from fetch_blocks_right [OF "1.prems"(1,2) Some this]
    have r: "core_right x content k1" "\<And>fetched. g = Inr fetched \<Longrightarrow>
        fetched = map (\<lambda>s. (bs_idx s, slice (base_of x content) s)) (at_order ?a misses) \<and>
        (\<forall>s \<in> set (at_order ?a misses). length (slice (base_of x content) s) = bs_len s)" by blast+
    moreover have "set (at_order ?a misses) = set misses" if "\<not> at_timeout ?a"
      using "1.prems"(2) [of retried] that by (simp add: attempt_right_def)
    ultimately show ?thesis by auto
  qed (use f "1.prems"(1) in \<open>auto simp: fetch_misses_def\<close>)
  show ?case
  proof (cases "at_online ?a \<and> \<not> at_timeout ?a \<and> (\<exists>e. g = Inl e) \<and> \<not> retried \<and> \<not> at_online_after ?a")
    case True
    then have "fetch_loop x tries True misses k1 = (got, k')"
      using "1.prems"(3) f by (subst (asm) fetch_loop.simps) (auto simp: Let_def)
    with "1.IH" [OF refl _ f [symmetric]] True one "1.prems"(2) show ?thesis by blast
  next
    case False
    have drop: "core_right x content (evict_reader (rx_uid x) k1)" using one core_right_evict by blast
    have "(got, k') = (if \<not> at_online ?a then (Inl EIO, k) else if at_timeout ?a then (Inl EIO, evict_reader (rx_uid x) k1) else (g, k1))"
      using "1.prems"(3) f False unfolding fetch_loop.simps [of x tries retried misses k] by (cases g) (auto simp: Let_def)
    then show ?thesis using "1.prems"(1) one drop by (auto split: if_splits)
  qed
qed

lemma hit_block_right:
  assumes "core_right x content k" and "hit_block x s k = (got, k')"
  shows "core_right x content k'" and "got = Some data \<Longrightarrow> data = slice (base_of x content) s"
proof -
  note D = core_rightD [OF assms(1)]
  obtain h r where g: "ring_get (rx_uid x) (rx_mtime x) (rx_size x) s (rc_ring k) = (h, r)"
    by (cases "ring_get (rx_uid x) (rx_mtime x) (rx_size x) s (rc_ring k)")
  note R = ring_ok_get [OF D(4), of "rx_uid x" "rx_mtime x" "rx_size x" s, unfolded g]
  have k1: "core_right x content (k\<lparr>rc_ring := r\<rparr>)" using core_right_ring [OF assms(1)] R(1,2) D(5) by simp
  obtain b c where b: "cached_block (rx_key x) (rx_uid x) (rx_mtime x) (rx_size x) s (rx_now x) (rc_cache k) = (b, c)"
    by (cases "cached_block (rx_key x) (rx_uid x) (rx_mtime x) (rx_size x) s (rx_now x) (rc_cache k)")
  have "cache_core_right x (base_of x content) c" using cache_core_cached_block [OF D(3)] b by (metis snd_conv)
  from core_right_cache [OF k1 this] have k2: "core_right x content (k\<lparr>rc_ring := r, rc_cache := c\<rparr>)" by simp
  have block: "d = slice (base_of x content) s" if "b = Some d" for d
    using that b D(1,3) by (auto simp: cached_block_def cache_core_right_def right_blocks_def split: if_splits option.splits)
  have k3: "core_right x content (k\<lparr>rc_ring := ring_insert (rx_uid x) (rx_mtime x) (rx_size x) s d r, rc_cache := c\<rparr>)" if "b = Some d" for d
    using core_right_insert [OF k2 block [OF that]] by (simp add: core_right_def Let_def)
  show "core_right x content k'"
    using assms(2) k1 k2 k3 by (auto simp: hit_block_def g b split: option.splits if_splits)
  show "data = slice (base_of x content) s" if "got = Some data"
    using that assms(2) R(3) block by (auto simp: hit_block_def g b split: option.splits if_splits)
qed

lemma hit_blocks_right:
  "core_right x content k \<Longrightarrow> hit_blocks x ss k = (bs, k') \<Longrightarrow>
     core_right x content k' \<and> length bs = length ss \<and>
     (\<forall>i < length ss. bs ! i = None \<or> bs ! i = Some (slice (base_of x content) (ss ! i)))"
proof (induction ss arbitrary: k bs k')
  case (Cons s ss)
  obtain b k1 where h: "hit_block x s k = (b, k1)" by (cases "hit_block x s k")
  obtain bs1 k2 where t: "hit_blocks x ss k1 = (bs1, k2)" by (cases "hit_blocks x ss k1")
  note r = hit_block_right [OF Cons.prems(1) h]
  have "b = None \<or> b = Some (slice (base_of x content) s)" using r(2) by (cases b) auto
  with Cons.IH [OF r(1) t] Cons.prems(2) show ?case by (auto simp: h t nth_Cons split: nat.splits)
qed auto

text \<open>A slot holds its block once it was fetched, and no slot gets another one's.\<close>

lemma fill_slots_right:
  assumes "\<And>i. i < length ss \<Longrightarrow> bs_idx (ss ! i) = first + i" and "set fetched \<subseteq> (\<lambda>s. (bs_idx s, f s)) ` set ss"
    and "length bs = length ss" and "\<And>i. i < length ss \<Longrightarrow> bs ! i = None \<or> bs ! i = Some (f (ss ! i))"
  shows "length (fill_slots first fetched bs) = length ss \<and>
     (\<forall>i < length ss. (fill_slots first fetched bs ! i = None \<or> fill_slots first fetched bs ! i = Some (f (ss ! i))) \<and>
        (bs ! i \<noteq> None \<or> (first + i, f (ss ! i)) \<in> set fetched \<longrightarrow> fill_slots first fetched bs ! i = Some (f (ss ! i))))"
  using assms(2-4)
proof (induction fetched arbitrary: bs)
  case (Cons p fetched)
  obtain j where j: "j < length ss" "p = (first + j, f (ss ! j))"
    using Cons.prems(1) assms(1) by (auto simp: in_set_conv_nth)
  have "length (bs[j := Some (f (ss ! j))]) = length ss"
    "\<And>i. i < length ss \<Longrightarrow> bs[j := Some (f (ss ! j))] ! i = None \<or> bs[j := Some (f (ss ! j))] ! i = Some (f (ss ! i))"
    using Cons.prems(2,3) j(1) by (simp, metis nth_list_update_eq nth_list_update_neq)
  from Cons.IH [OF _ this] Cons.prems(1,2) show ?case
    by (auto simp: fill_slots_def j nth_list_update)
next
  case Nil
  then show ?case by (fastforce simp: fill_slots_def)
qed

section \<open>The assembly\<close>

definition seg :: "byte list \<Rightarrow> nat \<Rightarrow> nat \<Rightarrow> byte list" where
  "seg base a b = take (b - a) (drop a base)"

lemma seg_append: "a \<le> b \<Longrightarrow> b \<le> c \<Longrightarrow> seg base a b @ seg base b c = seg base a c"
  using take_add [of "b - a" "c - b" "drop a base"] by (simp add: seg_def)

definition within :: "nat \<Rightarrow> nat \<Rightarrow> nat \<Rightarrow> nat" where
  "within off stop y = max off (min stop y)"

lemma assemble_part:
  assumes "off \<le> stop" and "data = seg base a b" and "a \<le> b" and "b \<le> length base"
  shows "(if max off a - a < min stop (a + length data) - a
          then take (min stop (a + length data) - a - (max off a - a)) (drop (max off a - a) data) else []) =
         seg base (within off stop a) (within off stop b)"
proof -
  have len: "a + length data = b" using assms by (simp add: seg_def)
  show ?thesis
  proof (cases "max off a < min stop b")
    case True
    then have "within off stop a = max off a" "within off stop b = min stop b" by (auto simp: within_def)
    then show ?thesis using True assms unfolding len
      by (auto simp: seg_def take_drop min_def max_def split: if_splits)
  next
    case False
    then have "within off stop b \<le> within off stop a" using assms(1,3) by (auto simp: within_def)
    then show ?thesis using False unfolding len by (auto simp: seg_def)
  qed
qed

lemma assemble_Cons:
  assumes "length data = bs_len s" and "assemble_blocks off stop rest = Some (Inr out)"
    and "(if max off (bs_start s) - bs_start s < min stop (bs_start s + length data) - bs_start s
          then take (min stop (bs_start s + length data) - bs_start s - (max off (bs_start s) - bs_start s))
                 (drop (max off (bs_start s) - bs_start s) data) else []) = part"
  shows "assemble_blocks off stop ((s, Some data) # rest) = Some (Inr (part @ out))"
  using assms(1,2) unfolding assms(3) [symmetric] by (simp add: Let_def)

lemma assemble_right:
  assumes "off \<le> stop" and "sum_list ns = length base" and "i \<le> m" and "m \<le> length ns"
  shows "assemble_blocks off stop (map (\<lambda>k. (\<lparr>bs_idx = k, bs_start = starts_at ns k, bs_len = ns ! k\<rparr>,
            Some (slice base \<lparr>bs_idx = k, bs_start = starts_at ns k, bs_len = ns ! k\<rparr>))) [i..<m]) =
         Some (Inr (seg base (within off stop (starts_at ns i)) (within off stop (starts_at ns m))))"
  using assms(3)
proof (induction "m - i" arbitrary: i)
  case 0
  then show ?case by (simp add: seg_def)
next
  case (Suc n)
  then have i: "i < m" by simp
  let ?s = "\<lparr>bs_idx = i, bs_start = starts_at ns i, bs_len = ns ! i\<rparr>"
  have next_start: "starts_at ns (Suc i) = starts_at ns i + ns ! i" using starts_at_Suc [of i ns] i assms(4) by simp
  have fits: "starts_at ns (Suc i) \<le> length base"
    using starts_at_mono [of "Suc i" "length ns" ns] i assms(2,4) starts_at_all [of ns] by simp
  from fits have data: "slice base ?s = seg base (starts_at ns i) (starts_at ns (Suc i))" "length (slice base ?s) = ns ! i"
    using next_start by (simp_all add: slice_def seg_def)
  have IH: "assemble_blocks off stop (map (\<lambda>k. (\<lparr>bs_idx = k, bs_start = starts_at ns k, bs_len = ns ! k\<rparr>,
            Some (slice base \<lparr>bs_idx = k, bs_start = starts_at ns k, bs_len = ns ! k\<rparr>))) [Suc i..<m]) =
         Some (Inr (seg base (within off stop (starts_at ns (Suc i))) (within off stop (starts_at ns m))))"
    using Suc by simp
  have "within off stop (starts_at ns i) \<le> within off stop (starts_at ns (Suc i))"
    "within off stop (starts_at ns (Suc i)) \<le> within off stop (starts_at ns m)"
    using starts_at_mono [of i "Suc i" ns] starts_at_mono [of "Suc i" m ns] i by (auto simp: within_def)
  note joined = seg_append [OF this, of base]
  have "assemble_blocks off stop ((?s, Some (slice base ?s)) # map (\<lambda>k. (\<lparr>bs_idx = k, bs_start = starts_at ns k, bs_len = ns ! k\<rparr>,
            Some (slice base \<lparr>bs_idx = k, bs_start = starts_at ns k, bs_len = ns ! k\<rparr>))) [Suc i..<m]) =
      Some (Inr (seg base (within off stop (starts_at ns i)) (within off stop (starts_at ns (Suc i))) @
        seg base (within off stop (starts_at ns (Suc i))) (within off stop (starts_at ns m))))"
  proof (rule assemble_Cons [OF _ IH])
    have "starts_at ns i \<le> starts_at ns (Suc i)" by (simp add: next_start)
    from assemble_part [OF assms(1) data(1) this fits]
    show "(if max off (bs_start ?s) - bs_start ?s < min stop (bs_start ?s + length (slice base ?s)) - bs_start ?s
          then take (min stop (bs_start ?s + length (slice base ?s)) - bs_start ?s - (max off (bs_start ?s) - bs_start ?s))
                 (drop (max off (bs_start ?s) - bs_start ?s) (slice base ?s)) else []) =
        seg base (within off stop (starts_at ns i)) (within off stop (starts_at ns (Suc i)))"
      by (simp only: block_span.simps)
  qed (simp add: data(2))
  then show ?case unfolding joined using i by (simp add: upt_conv_Cons)
qed

section \<open>The read\<close>

lemma core_geometry_right:
  assumes "core_right x content k"
  obtains sizes where "core_geometry x k = from_sizes sizes" and "sum_list sizes = rx_size x"
proof -
  note D = core_rightD [OF assms]
  show thesis
  proof (cases "block_geometry_of (rx_key x) (rx_uid x) (rx_mtime x) (rx_size x) (rc_cache k)")
    case None
    then show thesis
      using that [of "map (block_len (rx_size x)) [0..<(rx_size x + BLOCK_SIZE - 1) div BLOCK_SIZE]"] uniform_size [OF D(2)]
      by (simp add: core_geometry_def uniform_def)
  next
    case (Some g)
    then obtain m where m: "map_of (cc_geom (rc_cache k)) (rx_key x (rx_uid x)) = Some m" "g = from_sizes (gm_sizes m)" "bg_size g = rx_size x"
      by (auto simp: block_geometry_of_def Let_def split: option.splits if_splits)
    have le: "sum_list (gm_sizes m) \<le> U64_MAX" using m(1) D(3) by (simp add: cache_core_right_def)
    obtain ns where "geometry_of ns g" "sum_list ns = sum_list (gm_sizes m)" using from_sizes_geometry [OF le] m(2) by metis
    then have "sum_list (gm_sizes m) = rx_size x" using m(3) by (simp add: geometry_of_def)
    then show thesis using that [of "gm_sizes m"] m(2) Some by (simp add: core_geometry_def)
  qed
qed

lemma filter_wanted_right: "core_right x content k \<Longrightarrow> core_right x content (snd (filter_wanted x ss k))"
proof (induction ss arbitrary: k)
  case (Cons s ss)
  note D = core_rightD [OF Cons.prems]
  obtain w k1 where w: "wants x s k = (w, k1)" by (cases "wants x s k")
  then have "k1 = k\<lparr>rc_ring := snd (ring_get (rx_uid x) (rx_mtime x) (rx_size x) s (rc_ring k))\<rparr>"
    by (auto simp: wants_def split: prod.splits)
  then have "core_right x content k1"
    using core_right_ring [OF Cons.prems] ring_ok_get(1,2) [OF D(4)] D(5) by simp
  from Cons.IH [OF this] show ?case by (simp add: w split: prod.split) (metis snd_conv)
qed simp

lemma prefetch_right: "core_right x content k \<Longrightarrow> core_right x content (snd (prefetch_ahead x i j k))"
proof -
  assume k: "core_right x content k"
  obtain depth st where w: "window (rx_uid x) i j (rc_streams k) = (depth, st)" by (cases "window (rx_uid x) i j (rc_streams k)")
  have "core_right x content (k\<lparr>rc_streams := st\<rparr>)" using k by (simp add: core_right_def Let_def)
  then show ?thesis using filter_wanted_right by (simp add: prefetch_ahead_def w Let_def)
qed

text \<open>An attempt that reaches Drive and is answered in full.\<close>

definition attempt_answers :: "read_ctx \<Rightarrow> attempt \<Rightarrow> bool" where
  "attempt_answers x a = (at_online a \<and> \<not> at_timeout a \<and> (case at_reader a of None \<Rightarrow> False
     | Some reader \<Rightarrow> rr_size reader = rx_size x \<and>
         (\<forall>s l. s + l \<le> rx_size x \<longrightarrow> (case rr_read_at reader s l of Some d \<Rightarrow> length d = l | None \<Rightarrow> False))))"

lemma fetch_blocks_answers:
  assumes "rr_size reader = rx_size x"
    and "\<And>s l. s + l \<le> rx_size x \<Longrightarrow> (case rr_read_at reader s l of Some d \<Rightarrow> length d = l | None \<Rightarrow> False)"
    and "\<forall>s \<in> set ss. bs_start s + bs_len s \<le> rx_size x"
  shows "\<exists>fetched k'. fetch_blocks x reader download ss k = (Inr fetched, k')"
  using assms(3)
proof (induction ss arbitrary: k)
  case (Cons s ss)
  obtain d where d: "rr_read_at reader (bs_start s) (bs_len s) = Some d" "length d = bs_len s"
    using assms(2) [of "bs_start s" "bs_len s"] Cons.prems by (auto split: option.splits)
  obtain k1 where "read_block x reader download s k = (Inr d, k1)"
    using assms(1) d by (simp add: read_block_def Let_def)
  with Cons.IH [of k1] Cons.prems show ?case by (auto split: sum.splits)
qed simp

lemma fetch_loop_answers:
  assumes "attempt_answers x (tries retried)" and "attempt_right x base (tries retried)"
    and "\<forall>s \<in> set misses. bs_start s + bs_len s \<le> rx_size x"
  shows "\<exists>fetched k'. fetch_loop x tries retried misses k = (Inr fetched, k')"
proof -
  obtain reader where r: "at_reader (tries retried) = Some reader" "rr_size reader = rx_size x"
    "\<And>s l. s + l \<le> rx_size x \<Longrightarrow> (case rr_read_at reader s l of Some d \<Rightarrow> length d = l | None \<Rightarrow> False)"
    using assms(1) by (auto simp: attempt_answers_def split: option.splits)
  have "set (at_order (tries retried) misses) \<subseteq> set misses" using assms(2) by (simp add: attempt_right_def)
  with assms(3) have "\<forall>s \<in> set (at_order (tries retried) misses). bs_start s + bs_len s \<le> rx_size x" by blast
  from fetch_blocks_answers [OF r(2,3) this] obtain fetched k' where
    "fetch_blocks x reader (at_download (tries retried)) (at_order (tries retried) misses) k = (Inr fetched, k')" by blast
  then show ?thesis
    using assms(1) r(1) unfolding fetch_loop.simps [of x tries retried misses k]
    by (simp add: Let_def fetch_misses_def attempt_answers_def)
qed

lemma remote_read_right:
  assumes "core_right x content k" and "\<And>r. attempt_right x (base_of x content) (tries r)"
    and "read_range_remote x tries off len k = (res, k')"
  shows "core_right x content k' \<and> (res = Some (Inr (take len (drop off (base_of x content)))) \<or>
           (\<exists>e. res = Some (Inl e) \<and> \<not> attempt_answers x (tries False)))"
proof -
  let ?base = "base_of x content"
  obtain found k1 where f: "blob_range x off len k = (found, k1)" by (cases "blob_range x off len k")
  note r1 = blob_range_right [OF assms(1) f]
  note D = core_rightD [OF r1(1)]
  define stop where "stop = min (saturating_add off len) (rx_size x)"
  define wanted where "wanted = spans (core_geometry x k1) off stop"
  show ?thesis
  proof (cases "found \<noteq> None \<or> off \<ge> rx_size x \<or> len = 0")
    case True
    show ?thesis
    proof (cases found)
      case (Some data)
      then have "res = Some (Inr data)" "k' = k1" using assms(3) f by (simp_all add: read_range_remote_def)
      then show ?thesis using r1(1) r1(2) [OF Some] by simp
    next
      case None
      then have past: "off \<ge> rx_size x \<or> len = 0" using True by simp
      then have "res = Some (Inr [])" "k' = k1" using assms(3) f None unfolding read_range_remote_def by auto
      moreover have "take len (drop off ?base) = []" using past D(1) by auto
      ultimately show ?thesis using r1(1) by simp
    qed
  next
    case False
    then have none: "found = None" and off: "off < rx_size x" "0 < len" by auto
    have stop: "off < stop" "stop = min (off + len) (rx_size x)" using off D(2) by (auto simp: stop_def saturating_add_def min_def)
    obtain sizes where g: "core_geometry x k1 = from_sizes sizes" "sum_list sizes = rx_size x" using core_geometry_right [OF r1(1)] .
    obtain ns where ns: "geometry_of ns (from_sizes sizes)" "sum_list ns = sum_list sizes"
      using from_sizes_geometry [of sizes] g(2) D(2) by auto
    let ?b = "\<lambda>i. \<lparr>bs_idx = i, bs_start = starts_at ns i, bs_len = ns ! i\<rparr>"
    obtain i j where ij: "i \<le> j" "j < length ns" "starts_at ns i \<le> off" "min stop (sum_list ns) \<le> starts_at ns (Suc j)"
      "wanted = map ?b [i..<Suc j]"
      using spans_eq [OF ns(1) stop(1)] off ns(2) g unfolding wanted_def by metis
    have hd: "wanted \<noteq> []" "bs_idx (hd wanted) = i" using ij(1) by (simp_all add: ij(5) hd_map upt_conv_Cons del: upt_Suc)
    have idx: "wanted ! n = ?b (i + n)" if "n < length wanted" for n using that by (simp add: ij(5) del: upt_Suc)
    have inside: "\<forall>s \<in> set wanted. bs_start s + bs_len s \<le> rx_size x"
      using starts_at_Suc [of _ ns] starts_at_mono [of _ "length ns" ns] ij(2) ns(2) g(2)
      by (auto simp: ij(5) simp del: upt_Suc) (metis Suc_leI le_less_trans less_Suc_eq_le starts_at_all(1))
    obtain blocks k2 where h: "hit_blocks x wanted k1 = (blocks, k2)" by (cases "hit_blocks x wanted k1")
    note hits = hit_blocks_right [OF r1(1) h]
    define misses where "misses = map fst (filter (\<lambda>(s, b). b = None) (zip wanted blocks))"
    have misses: "set misses \<subseteq> set wanted" by (auto simp: misses_def dest: set_zip_leftD)
    obtain got k3 where l: "(if misses = [] then (Inr [], k2) else fetch_loop x tries False misses k2) = (got, k3)"
      by (cases "if misses = [] then (Inr [], k2) else fetch_loop x tries False misses k2")
    have k2: "core_right x content k2" using hits by simp
    have k3: "core_right x content k3" and fetched: "\<And>fs. got = Inr fs \<Longrightarrow> set fs = (\<lambda>s. (bs_idx s, slice ?base s)) ` set misses"
      using l k2 fetch_loop_right [OF k2 assms(2)] by (auto split: if_splits)
    have res: "(res, k') = (case got of Inl e \<Rightarrow> (Some (Inl e), k3)
        | Inr fs \<Rightarrow> (assemble_blocks off stop (zip wanted (fill_slots i fs blocks)), snd (prefetch_ahead x i (bs_idx (last wanted)) k3)))"
    proof -
      have "read_range_remote x tries off len k =
          (case (if misses = [] then (Inr [], k2) else fetch_loop x tries False misses k2) of
             (Inl e, k3) \<Rightarrow> (Some (Inl e), k3)
           | (Inr fs, k3) \<Rightarrow> (assemble_blocks off stop (zip wanted (fill_slots i fs blocks)), snd (prefetch_ahead x i (bs_idx (last wanted)) k3)))"
        using off hd unfolding read_range_remote_def stop_def [symmetric] misses_def
        by (simp add: f none h Let_def flip: wanted_def) (unfold wanted_def, simp)
      then show ?thesis using assms(3) unfolding l by (cases got) simp_all
    qed
    show ?thesis
    proof (cases got)
      case (Inl e)
      then have "\<not> attempt_answers x (tries False)"
        using fetch_loop_answers [where tries = tries and retried = False and x = x and misses = misses and k = k2, OF _ assms(2)] l inside misses by (auto split: if_splits)
      then show ?thesis using res Inl k3 by simp
    next
      case (Inr fs)
      let ?slots = "fill_slots i fs blocks"
      have sub: "set fs \<subseteq> (\<lambda>s. (bs_idx s, slice ?base s)) ` set wanted" using fetched [OF Inr] misses by blast
      have slots: "length ?slots = length wanted"
        "\<And>n. n < length wanted \<Longrightarrow> blocks ! n \<noteq> None \<or> (i + n, slice ?base (wanted ! n)) \<in> set fs \<Longrightarrow> ?slots ! n = Some (slice ?base (wanted ! n))"
        using fill_slots_right [of wanted i fs "slice ?base" blocks] hits sub idx by auto
      have "?slots ! n = Some (slice ?base (wanted ! n))" if n: "n < length wanted" for n
      proof (cases "blocks ! n = None")
        case True
        then have "wanted ! n \<in> set misses"
          using n hits unfolding misses_def by (force simp: set_zip image_iff)
        then show ?thesis using slots(2) [OF n] fetched [OF Inr] idx [OF n] by (force simp: image_iff)
      qed (use slots(2) [OF n] in blast)
      then have "?slots = map (\<lambda>s. Some (slice ?base s)) wanted" using slots(1) by (intro nth_equalityI) simp_all
      then have "zip wanted ?slots = map (\<lambda>n. (?b n, Some (slice ?base (?b n)))) [i..<Suc j]"
        unfolding ij(5) by (simp add: zip_map_map zip_same_conv_map del: upt_Suc)
      then have "assemble_blocks off stop (zip wanted ?slots) = Some (Inr (seg ?base (within off stop (starts_at ns i)) (within off stop (starts_at ns (Suc j)))))"
        using assemble_right [of off stop ns ?base i "Suc j"] stop(1) ns(2) g(2) D(1) ij(1,2) by (simp del: upt_Suc)
      moreover have "within off stop (starts_at ns i) = off" "within off stop (starts_at ns (Suc j)) = stop"
        using ij(3,4) stop ns(2) g(2) by (auto simp: within_def)
      moreover have "seg ?base off stop = take len (drop off ?base)" using stop D(1) by (auto simp: seg_def min_def)
      ultimately show ?thesis using res Inr prefetch_right [OF k3] by simp
    qed
  qed
qed

text \<open>From this machine alone: nothing, or exactly the range.\<close>

lemma cached_spans_right:
  assumes "core_right x content k" and "off \<le> stop" and "sum_list ns = rx_size x" and "i \<le> m" and "m \<le> length ns"
    and "cached_spans x off stop (map (\<lambda>k. \<lparr>bs_idx = k, bs_start = starts_at ns k, bs_len = ns ! k\<rparr>) [i..<m]) k = (Some out, k')"
  shows "out = seg (base_of x content) (within off stop (starts_at ns i)) (within off stop (starts_at ns m))"
  using assms(1,4,6)
proof (induction "m - i" arbitrary: i k out)
  case 0
  then show ?case by (simp add: seg_def)
next
  case (Suc n)
  note D = core_rightD [OF Suc.prems(1)]
  have i: "i < m" using Suc.hyps(2) by simp
  let ?base = "base_of x content"
  let ?s = "\<lparr>bs_idx = i, bs_start = starts_at ns i, bs_len = ns ! i\<rparr>"
  let ?ss = "map (\<lambda>k. \<lparr>bs_idx = k, bs_start = starts_at ns k, bs_len = ns ! k\<rparr>) [Suc i..<m]"
  have next_start: "starts_at ns (Suc i) = starts_at ns i + ns ! i" using starts_at_Suc [of i ns] i assms(5) by simp
  have fits: "starts_at ns (Suc i) \<le> length ?base"
    using starts_at_mono [of "Suc i" "length ns" ns] i assms(3,5) D(1) starts_at_all [of ns] by simp
  obtain h r where g: "ring_get (rx_uid x) (rx_mtime x) (rx_size x) ?s (rc_ring k) = (h, r)"
    by (cases "ring_get (rx_uid x) (rx_mtime x) (rx_size x) ?s (rc_ring k)")
  note R = ring_ok_get [OF D(4), of "rx_uid x" "rx_mtime x" "rx_size x" ?s, unfolded g]
  have k1: "core_right x content (k\<lparr>rc_ring := r\<rparr>)" using core_right_ring [OF Suc.prems(1)] R(1,2) D(5) by simp
  obtain b c where b: "cached_block (rx_key x) (rx_uid x) (rx_mtime x) (rx_size x) ?s (rx_now x) (rc_cache k) = (b, c)"
    by (cases "cached_block (rx_key x) (rx_uid x) (rx_mtime x) (rx_size x) ?s (rx_now x) (rc_cache k)")
  have "cache_core_right x ?base c" using cache_core_cached_block [OF D(3)] b by (metis snd_conv)
  from core_right_cache [OF k1 this] have k2: "core_right x content (k\<lparr>rc_ring := r, rc_cache := c\<rparr>)" by simp
  have block: "d = slice ?base ?s" if "b = Some d" for d
    using that b D(1,3) by (auto simp: cached_block_def cache_core_right_def right_blocks_def split: if_splits option.splits)
  obtain data k3 where d: "data = slice ?base ?s" "core_right x content k3"
    and step: "cached_spans x off stop (?s # ?ss) k =
       (let from_idx = max off (starts_at ns i) - starts_at ns i; to_idx = min stop (starts_at ns i + length data) - starts_at ns i
        in if from_idx \<ge> to_idx then (None, k3)
           else case cached_spans x off stop ?ss k3 of (rest, k4) \<Rightarrow> (map_option (\<lambda>r. take (to_idx - from_idx) (drop from_idx data) @ r) rest, k4))"
  proof (cases h)
    case (Some d)
    then show thesis using that [of d "k\<lparr>rc_ring := r\<rparr>"] R(3) k1 g by simp
  next
    case None
    then obtain d where "b = Some d" using Suc.prems(3) i g b by (cases b) (auto simp: upt_conv_Cons Let_def)
    then show thesis using that [of d "k\<lparr>rc_ring := r, rc_cache := c\<rparr>"] block k2 g b None by simp
  qed
  have len: "length data = ns ! i" "data = seg ?base (starts_at ns i) (starts_at ns (Suc i))"
    using d(1) fits next_start by (simp_all add: slice_def seg_def)
  obtain rest k4 where rest: "cached_spans x off stop ?ss k3 = (rest, k4)" by (cases "cached_spans x off stop ?ss k3")
  have prem: "cached_spans x off stop (?s # ?ss) k = (Some out, k')" using Suc.prems(3) i by (simp add: upt_conv_Cons)
  then obtain tl_out where t: "rest = Some tl_out" "max off (starts_at ns i) - starts_at ns i < min stop (starts_at ns i + length data) - starts_at ns i"
    "out = take (min stop (starts_at ns i + length data) - starts_at ns i - (max off (starts_at ns i) - starts_at ns i))
        (drop (max off (starts_at ns i) - starts_at ns i) data) @ tl_out" "k4 = k'"
    unfolding step Let_def rest by (auto split: if_splits)
  have "tl_out = seg ?base (within off stop (starts_at ns (Suc i))) (within off stop (starts_at ns m))"
    using Suc.hyps(1) [of "Suc i" k3 tl_out] Suc.hyps(2) d(2) i rest t(1,4) by simp
  moreover have "out = seg ?base (within off stop (starts_at ns i)) (within off stop (starts_at ns (Suc i))) @ tl_out"
    using assemble_part [OF assms(2) len(2) _ fits] t(2,3) by (simp add: next_start)
  moreover have "within off stop (starts_at ns i) \<le> within off stop (starts_at ns (Suc i))"
    "within off stop (starts_at ns (Suc i)) \<le> within off stop (starts_at ns m)"
    using starts_at_mono [of i "Suc i" ns] starts_at_mono [of "Suc i" m ns] i by (auto simp: within_def)
  ultimately show ?case using seg_append by simp
qed

lemma cached_range_right:
  assumes "core_right x content k" and "fst (cached_range x off len k) = Some data"
  shows "data = take len (drop off (base_of x content))"
proof (cases "len = 0")
  case False
  obtain found k1 where f: "blob_range x off len k = (found, k1)" by (cases "blob_range x off len k")
  note r1 = blob_range_right [OF assms(1) f]
  note D = core_rightD [OF r1(1)]
  show ?thesis
  proof (cases found)
    case (Some d)
    then show ?thesis using assms(2) r1(2) [OF Some] False by (simp add: cached_range_def f)
  next
    case None
    define stop where "stop = min (off + len) (rx_size x)"
    obtain out k2 where c: "cached_spans x off stop (spans (core_geometry x k1) off stop) k1 = (out, k2)"
      by (cases "cached_spans x off stop (spans (core_geometry x k1) off stop) k1")
    have o: "out = Some data" "off < stop"
      using assms(2) None False by (auto simp: cached_range_def f Let_def c simp flip: stop_def split: if_splits option.splits)
    obtain sizes where g: "core_geometry x k1 = from_sizes sizes" "sum_list sizes = rx_size x" using core_geometry_right [OF r1(1)] .
    obtain ns where ns: "geometry_of ns (from_sizes sizes)" "sum_list ns = sum_list sizes"
      using from_sizes_geometry [of sizes] g(2) D(2) by auto
    have off: "off < sum_list ns" using o(2) ns(2) g(2) by (simp add: stop_def)
    obtain i j where ij: "i \<le> j" "j < length ns" "starts_at ns i \<le> off" "min stop (sum_list ns) \<le> starts_at ns (Suc j)"
      "spans (core_geometry x k1) off stop = map (\<lambda>i. \<lparr>bs_idx = i, bs_start = starts_at ns i, bs_len = ns ! i\<rparr>) [i..<Suc j]"
      using spans_eq [OF ns(1) o(2) off] g(1) by metis
    have "data = seg (base_of x content) (within off stop (starts_at ns i)) (within off stop (starts_at ns (Suc j)))"
      using cached_spans_right [OF r1(1), of off stop ns i "Suc j" data k2] o ns(2) g(2) ij(1,2) c unfolding ij(5) by simp
    moreover have "within off stop (starts_at ns i) = off" "within off stop (starts_at ns (Suc j)) = stop"
      using ij(3,4) o(2) ns(2) g(2) by (auto simp: within_def stop_def)
    ultimately show ?thesis using D(1) by (simp add: seg_def stop_def min_def)
  qed
qed (use assms in \<open>simp add: cached_range_def\<close>)


definition cold_core :: read_core where
  "cold_core = \<lparr>rc_cache = \<lparr>cc_files = [], cc_tags = [], cc_geom = [], cc_rows = [], blob_bytes = 0, block_bytes = 0,
     thumb_bytes = 0, touches = [], max_bytes = 0\<rparr>, rc_ring = empty_ring, rc_streams = []\<rparr>"

definition demo_ctx :: "nat \<Rightarrow> read_ctx" where
  "demo_ctx n = \<lparr>rx_key = (\<lambda>u. u), rx_db = pinned_demo, rx_now = 0, rx_uid = ''v~f'', rx_mtime = 9, rx_size = n, rx_cache_blocks = True\<rparr>"

definition demo_try :: "byte list \<Rightarrow> bool \<Rightarrow> attempt" where
  "demo_try base retried = \<lparr>at_online = True, at_timeout = False,
     at_reader = Some \<lparr>rr_size = length base, rr_block_sizes = [length base], rr_read_at = (\<lambda>s l. Some (take l (drop s base)))\<rparr>,
     at_download = None, at_order = rev, at_online_after = True\<rparr>"

lemma cold_core_right:
  assumes "length (content (rx_uid x) (rx_mtime x) (rx_size x)) = rx_size x" and "rx_size x \<le> U64_MAX"
  shows "core_right x content cold_core"
  using assms by (simp add: core_right_def Let_def cold_core_def cache_core_right_def right_blocks_def block_tag_def valid_blob_def
      empty_ring_def ring_ok_def held_def)

lemma demo_try_right:
  assumes "length base \<le> U64_MAX" and "rx_size x = length base"
  shows "attempt_right x base (demo_try base r)" and "attempt_answers x (demo_try base r)"
  using assms by (simp_all add: attempt_right_def attempt_answers_def demo_try_def)



definition demo_pending :: pending_revision where
  "demo_pending = \<lparr>pr_path = ''b'', pr_blob = Some [0, 7, 0, 0], pr_meta = \<lparr>sw_uid = ''v~f'', sw_len = 4, sw_base_size = 3, sw_base_mtime = 9,
     sw_authored = [(1, 2)], sw_complete = False, sw_based_on = None\<rparr>\<rparr>"


end
