(* ===== verification/Readers.thy ===== *)
theory Readers
  imports Schema "HOL-Library.AList"
begin

text \<open>
  The open readers of revisions (\<open>reads.rs\<close>, \<open>ReaderSlot\<close>, \<open>revision_reader\<close>, \<open>trim_readers\<close>,
  \<open>evict_reader\<close>): one open for all reads of a cold file. What a read does under the lock is one step, an
  open that comes back another; in between other reads, evictions and other opens happen. A reader is
  a value of any type.
\<close>

datatype 'r reader_slot = Ready 'r int nat int | Pending nat int nat

datatype 'r reader_act = Hit 'r | Join nat | Lead nat

type_synonym 'r slots = "(uid \<times> 'r reader_slot) list"

definition MAX_OPEN_READERS :: nat where "MAX_OPEN_READERS = 64"

text \<open>The decision under the lock; \<open>fresh\<close> is the next open id.\<close>

definition reader_act :: "uid \<Rightarrow> int \<Rightarrow> nat \<Rightarrow> int \<Rightarrow> nat \<Rightarrow> 'r slots \<Rightarrow> 'r reader_act \<times> nat \<times> 'r slots" where
  "reader_act u mtime n now fresh slots =
     (let lead = (Lead fresh, Suc fresh, AList.update u (Pending fresh mtime n) slots)
      in case map_of slots u of
           Some (Ready r m z _) \<Rightarrow>
             (if m = mtime \<and> z = n then (Hit r, fresh, AList.update u (Ready r m z now) slots) else lead)
         | Some (Pending i m z) \<Rightarrow> (if m = mtime \<and> z = n then (Join i, fresh, slots) else lead)
         | None \<Rightarrow> lead)"

fun last_used :: "'r reader_slot \<Rightarrow> int option" where
  "last_used (Ready _ _ _ t) = Some t"
| "last_used (Pending _ _ _) = None"

text \<open>The \<open>Ready\<close> slot used longest ago, the first of them.\<close>

fun oldest_ready :: "'r slots \<Rightarrow> (uid \<times> int) option" where
  "oldest_ready [] = None"
| "oldest_ready ((u, s) # slots) = (case last_used s of
      None \<Rightarrow> oldest_ready slots
    | Some t \<Rightarrow> (case oldest_ready slots of
          None \<Rightarrow> Some (u, t)
        | Some (v, t') \<Rightarrow> (if t \<le> t' then Some (u, t) else Some (v, t'))))"

lemma oldest_ready_mem: "oldest_ready slots = Some (u, t) \<Longrightarrow> u \<in> fst ` set slots"
  by (induction slots arbitrary: u t rule: oldest_ready.induct) (auto split: option.splits if_splits)

lemma length_delete_less: "u \<in> fst ` set slots \<Longrightarrow> length (AList.delete u slots) < length slots"
  by (induction slots) (auto simp: AList.delete_eq intro: le_imp_less_Suc)

function trim_readers :: "'r slots \<Rightarrow> 'r slots" where
  "trim_readers slots = (if length slots \<le> MAX_OPEN_READERS then slots
     else case oldest_ready slots of None \<Rightarrow> slots | Some (victim, _) \<Rightarrow> trim_readers (AList.delete victim slots))"
  by pat_completeness auto
termination by (relation "measure length") (auto dest: oldest_ready_mem intro: length_delete_less)

declare trim_readers.simps [simp del]

text \<open>An open that came back: cached in the slot it claimed only, and a failure not at all.\<close>

definition publish_open :: "uid \<Rightarrow> int \<Rightarrow> nat \<Rightarrow> nat \<Rightarrow> 'r option \<Rightarrow> int \<Rightarrow> 'r slots \<Rightarrow> 'r slots" where
  "publish_open u mtime n i result now slots =
     (let ours = (case map_of slots u of Some (Pending j _ _) \<Rightarrow> j = i | _ \<Rightarrow> False)
      in trim_readers
           (if ours then (case result of Some r \<Rightarrow> AList.update u (Ready r mtime n now) slots | None \<Rightarrow> AList.delete u slots)
            else slots))"

text \<open>
  A read that joined an open whose leader is gone without an answer (\<open>live\<close>: the opens whose sender
  still exists) starts again from the top, at most \<open>k\<close> times here. \<open>None\<close>: still going round.
\<close>

fun join_rounds :: "(nat \<Rightarrow> bool) \<Rightarrow> nat \<Rightarrow> uid \<Rightarrow> int \<Rightarrow> nat \<Rightarrow> int \<Rightarrow> nat \<Rightarrow> 'r slots \<Rightarrow> 'r reader_act option" where
  "join_rounds live 0 u mtime n now fresh slots = None"
| "join_rounds live (Suc k) u mtime n now fresh slots = (case reader_act u mtime n now fresh slots of
      (Join i, fresh', slots') \<Rightarrow> (if live i then Some (Join i) else join_rounds live k u mtime n now fresh' slots')
    | (act, _, _) \<Rightarrow> Some act)"

section \<open>The slots as a transition system\<close>

record 'r readers =
  rs_slots :: "'r slots"
  rs_fresh :: nat
  rs_opens :: "(nat \<times> uid \<times> int \<times> nat) list"

definition no_readers :: "'r readers" where
  "no_readers = \<lparr>rs_slots = [], rs_fresh = 0, rs_opens = []\<rparr>"

text \<open>
  \<open>opened u mtime n r\<close>: an open of \<open>u\<close> started for that time and size can come back with \<open>r\<close>.
\<close>

inductive reader_step :: "(uid \<Rightarrow> int \<Rightarrow> nat \<Rightarrow> 'r \<Rightarrow> bool) \<Rightarrow> 'r readers \<Rightarrow> 'r readers \<Rightarrow> bool" for opened where
  ask: "reader_act u mtime n now (rs_fresh s) (rs_slots s) = (act, fresh, slots) \<Longrightarrow>
     reader_step opened s \<lparr>rs_slots = slots, rs_fresh = fresh,
       rs_opens = (case act of Lead i \<Rightarrow> (i, u, mtime, n) # rs_opens s | _ \<Rightarrow> rs_opens s)\<rparr>"
| came_back: "(i, u, mtime, n) \<in> set (rs_opens s) \<Longrightarrow> (\<And>r. result = Some r \<Longrightarrow> opened u mtime n r) \<Longrightarrow>
     reader_step opened s (s\<lparr>rs_slots := publish_open u mtime n i result now (rs_slots s),
       rs_opens := filter (\<lambda>p. fst p \<noteq> i) (rs_opens s)\<rparr>)"
| evict: "reader_step opened s (s\<lparr>rs_slots := AList.delete u (rs_slots s)\<rparr>)"

definition slot_ok :: "(uid \<Rightarrow> int \<Rightarrow> nat \<Rightarrow> 'r \<Rightarrow> bool) \<Rightarrow> (nat \<times> uid \<times> int \<times> nat) list \<Rightarrow> uid \<Rightarrow> 'r reader_slot \<Rightarrow> bool" where
  "slot_ok opened opens u s = (case s of
      Ready r m z _ \<Rightarrow> opened u m z r
    | Pending i m z \<Rightarrow> (i, u, m, z) \<in> set opens)"

definition readers_ok :: "(uid \<Rightarrow> int \<Rightarrow> nat \<Rightarrow> 'r \<Rightarrow> bool) \<Rightarrow> 'r readers \<Rightarrow> bool" where
  "readers_ok opened s =
     (distinct (map fst (rs_opens s)) \<and> (\<forall>p \<in> set (rs_opens s). fst p < rs_fresh s) \<and>
      (\<forall>u sl. map_of (rs_slots s) u = Some sl \<longrightarrow> slot_ok opened (rs_opens s) u sl))"

lemma slot_ok_more: "slot_ok opened opens u s \<Longrightarrow> slot_ok opened (p # opens) u s"
  by (auto simp: slot_ok_def split: reader_slot.splits)

lemma map_of_delete: "map_of (AList.delete k xs) v = (if v = k then None else map_of xs v)"
  by (simp add: delete_conv)

lemma trim_readers_keeps: "map_of (trim_readers slots) u = Some s \<Longrightarrow> map_of slots u = Some s"
proof (induction slots rule: trim_readers.induct)
  case (1 slots)
  show ?case
  proof (cases "length slots \<le> MAX_OPEN_READERS \<or> oldest_ready slots = None")
    case True
    then show ?thesis using "1.prems" unfolding trim_readers.simps [of slots] by (auto split: if_splits)
  next
    case False
    then obtain v t where v: "oldest_ready slots = Some (v, t)" by auto
    then have "map_of (trim_readers (AList.delete v slots)) u = Some s"
      using "1.prems" False unfolding trim_readers.simps [of slots] by simp
    from "1.IH" [OF _ v refl this] False show ?thesis by (simp add: map_of_delete split: if_splits)
  qed
qed

text \<open>No more readers stay open than the bound, unless all the rest are opens in flight.\<close>

lemma trim_readers_bound:
  "length (trim_readers slots) \<le> MAX_OPEN_READERS \<or> (\<forall>s \<in> snd ` set (trim_readers slots). last_used s = None)"
proof (induction slots rule: trim_readers.induct)
  case (1 slots)
  have none: "oldest_ready xs = None \<Longrightarrow> \<forall>s \<in> snd ` set xs. last_used s = None" for xs :: "'a slots"
    by (induction xs rule: oldest_ready.induct) (auto split: option.splits if_splits)
  show ?case
  proof (cases "length slots \<le> MAX_OPEN_READERS \<or> oldest_ready slots = None")
    case True
    then show ?thesis using none [of slots] unfolding trim_readers.simps [of slots] by (cases "length slots \<le> MAX_OPEN_READERS") simp_all
  next
    case False
    then obtain v t where v: "oldest_ready slots = Some (v, t)" by auto
    then show ?thesis using False "1.IH" [OF _ v refl] unfolding trim_readers.simps [of slots] by simp
  qed
qed

lemma slot_ok_closed:
  "slot_ok opened opens u s \<Longrightarrow> (\<And>m z. s \<noteq> Pending i m z) \<Longrightarrow> slot_ok opened (filter (\<lambda>p. fst p \<noteq> i) opens) u s"
  by (auto simp: slot_ok_def split: reader_slot.splits)

lemma ask_slots:
  assumes "reader_act u mtime n now fresh slots = (act, fresh', slots')"
  shows "(\<exists>r t. act = Hit r \<and> fresh' = fresh \<and> map_of slots u = Some (Ready r mtime n t) \<and> slots' = AList.update u (Ready r mtime n now) slots) \<or>
    (\<exists>i. act = Join i \<and> fresh' = fresh \<and> map_of slots u = Some (Pending i mtime n) \<and> slots' = slots) \<or>
    (act = Lead fresh \<and> fresh' = Suc fresh \<and> slots' = AList.update u (Pending fresh mtime n) slots)"
  using assms by (auto simp: reader_act_def Let_def split: option.splits reader_slot.splits if_splits)

lemma ask_ok:
  assumes "reader_act u mtime n now (rs_fresh s) (rs_slots s) = (act, fresh, slots)" and "readers_ok opened s"
  shows "readers_ok opened \<lparr>rs_slots = slots, rs_fresh = fresh, rs_opens = (case act of Lead i \<Rightarrow> (i, u, mtime, n) # rs_opens s | _ \<Rightarrow> rs_opens s)\<rparr>"
  using ask_slots [OF assms(1)]
proof (elim disjE exE conjE)
  fix r t assume "act = Hit r" "fresh = rs_fresh s" "map_of (rs_slots s) u = Some (Ready r mtime n t)" "slots = AList.update u (Ready r mtime n now) (rs_slots s)"
  then show ?thesis using assms(2) by (force simp: readers_ok_def slot_ok_def AList.update_conv)
next
  assume lead: "act = Lead (rs_fresh s)" "fresh = Suc (rs_fresh s)" "slots = AList.update u (Pending (rs_fresh s) mtime n) (rs_slots s)"
  have "rs_fresh s \<notin> fst ` set (rs_opens s)" using assms(2) by (auto simp: readers_ok_def)
  moreover have "slot_ok opened ((rs_fresh s, u, mtime, n) # rs_opens s) v sl" if "map_of slots v = Some sl" for v sl
  proof (cases "v = u")
    case True
    then show ?thesis using that lead(3) by (auto simp: AList.update_conv slot_ok_def)
  next
    case False
    then have "map_of (rs_slots s) v = Some sl" using that lead(3) by (simp add: AList.update_conv)
    then have "slot_ok opened (rs_opens s) v sl" using assms(2) by (simp add: readers_ok_def)
    then show ?thesis by (rule slot_ok_more)
  qed
  ultimately show ?thesis using assms(2) lead(1,2) by (auto simp: readers_ok_def less_SucI)
qed (use assms(2) in \<open>simp add: readers_ok_def\<close>)

lemma came_back_ok:
  assumes "(i, u, mtime, n) \<in> set (rs_opens s)" and "\<And>r. result = Some r \<Longrightarrow> opened u mtime n r" and "readers_ok opened s"
  shows "readers_ok opened (s\<lparr>rs_slots := publish_open u mtime n i result now (rs_slots s), rs_opens := filter (\<lambda>p. fst p \<noteq> i) (rs_opens s)\<rparr>)"
proof -
  define ours where "ours = (case map_of (rs_slots s) u of Some (Pending j _ _) \<Rightarrow> j = i | _ \<Rightarrow> False)"
  define next_slots where "next_slots = (if ours then (case result of Some r \<Rightarrow> AList.update u (Ready r mtime n now) (rs_slots s) | None \<Rightarrow> AList.delete u (rs_slots s))
            else rs_slots s)"
  have ok: "slot_ok opened (rs_opens s) v sl" if "map_of (rs_slots s) v = Some sl" for v sl
    using that assms(3) by (simp add: readers_ok_def)
  have own: "v = u" if "map_of (rs_slots s) v = Some (Pending i m z)" for v m z
  proof -
    have "(i, v, m, z) \<in> set (rs_opens s)" using ok [OF that] by (simp add: slot_ok_def)
    with assms(1,3) have "(i, v, m, z) = (i, u, mtime, n)" by (auto simp: readers_ok_def dest: eq_key_imp_eq_value)
    then show ?thesis by simp
  qed
  have "slot_ok opened (filter (\<lambda>p. fst p \<noteq> i) (rs_opens s)) v sl" if at: "map_of next_slots v = Some sl" for v sl
  proof (cases "ours \<and> v = u")
    case True
    then show ?thesis using at assms(2) by (auto simp: next_slots_def AList.update_conv map_of_delete slot_ok_def split: option.splits)
  next
    case False
    then have sl: "map_of (rs_slots s) v = Some sl"
      using at by (auto simp: next_slots_def AList.update_conv map_of_delete split: option.splits if_splits)
    have "sl \<noteq> Pending i m z" for m z
      using own [of v m z] sl False by (auto simp: ours_def)
    from slot_ok_closed [OF ok [OF sl] this] show ?thesis .
  qed
  then have "slot_ok opened (filter (\<lambda>p. fst p \<noteq> i) (rs_opens s)) v sl"
    if "map_of (publish_open u mtime n i result now (rs_slots s)) v = Some sl" for v sl
    using trim_readers_keeps [of next_slots v sl] that by (simp add: publish_open_def ours_def next_slots_def Let_def)
  moreover have "distinct (map fst (filter (\<lambda>p. fst p \<noteq> i) (rs_opens s)))"
    using assms(3) by (simp add: readers_ok_def distinct_map_filter)
  ultimately show ?thesis using assms(3) by (auto simp: readers_ok_def)
qed

lemma reader_step_ok: "reader_step opened s t \<Longrightarrow> readers_ok opened s \<Longrightarrow> readers_ok opened t"
proof (induction rule: reader_step.induct)
  case (evict s u)
  then show ?case by (auto simp: readers_ok_def map_of_delete)
qed (blast intro: ask_ok came_back_ok)+

interpretation readers: inv_system "\<lambda>s. s = no_readers" "reader_step opened" "readers_ok opened" for opened
proof unfold_locales
  show "readers_ok opened s" if "s = no_readers" for s using that by (simp add: no_readers_def readers_ok_def)
qed (rule reader_step_ok)



definition stuck :: "nat readers" where
  "stuck = \<lparr>rs_slots = [(''v'', Pending 0 1 2)], rs_fresh = 1, rs_opens = [(0, ''v'', 1, 2)]\<rparr>"

lemma stuck_reachable: "reach (\<lambda>s. s = no_readers) (reader_step opened) stuck"
proof -
  have "reader_act ''v'' 1 2 0 (rs_fresh no_readers) (rs_slots (no_readers :: nat readers)) = (Lead 0, 1, [(''v'', Pending 0 1 2)])"
    by (simp add: no_readers_def reader_act_def)
  from reader_step.ask [OF this] have "reader_step opened no_readers stuck" by (simp add: stuck_def no_readers_def)
  moreover have "reach (\<lambda>s. s = no_readers) (reader_step opened) no_readers" by (rule reach_init) simp
  ultimately show ?thesis using reach_step by metis
qed



end
