(* ===== verification/Scratch_Files.thy ===== *)
theory Scratch_Files
  imports Staged "HOL-Library.AList"
begin

text \<open>
  The directories that hold bytes not yet on Drive (\<open>cache.rs\<close>): the scratch files of open handles, the
  staged blobs, and what was rescued from a run that did not end. A disk maps paths to contents. A
  program is run against a list of outcomes, one for each call that touches the disk: it goes through,
  fails, or the daemon stops there. What a call leaves half done is part of the outcome.
\<close>

datatype place = Scratch | Staging | Recovery

text \<open>Names have no dot in them (\<open>create_scratch\<close>, \<open>staging_path\<close>), so a suffix is one of these.\<close>

datatype suffix = Plain | Json | Json_Tmp

type_synonym file_path = "place \<times> string \<times> suffix"

datatype content = Data "byte list" | Sidecar staged_write | Torn

type_synonym files = "(file_path \<times> content) list"

section \<open>Calls that may fail\<close>

text \<open>\<open>Fail k\<close> and \<open>Crash k\<close>: with \<open>k = 0\<close> nothing was written, otherwise all but the rest after \<open>k - 1\<close> bytes.\<close>

datatype outcome = Good | Fail nat | Crosses | Crash nat

datatype 'a run = Done 'a | Stopped

datatype io_error = Crosses_devices | Other_error

type_synonym 'a io = "outcome list \<Rightarrow> files \<Rightarrow> 'a run \<times> outcome list \<times> files"

definition ret :: "'a \<Rightarrow> 'a io" where
  "ret x = (\<lambda>os d. (Done x, os, d))"

definition and_then :: "'a io \<Rightarrow> ('a \<Rightarrow> 'b io) \<Rightarrow> 'b io" where
  "and_then m f = (\<lambda>os d. case m os d of (Done x, os', d') \<Rightarrow> f x os' d' | (Stopped, os', d') \<Rightarrow> (Stopped, os', d'))"

text \<open>Rust's \<open>?\<close>.\<close>

definition or_fail :: "(io_error + 'a) io \<Rightarrow> ('a \<Rightarrow> (io_error + 'b) io) \<Rightarrow> (io_error + 'b) io" where
  "or_fail m f = and_then m (\<lambda>r. case r of Inl e \<Rightarrow> ret (Inl e) | Inr x \<Rightarrow> f x)"

text \<open>A look at the disk, which changes nothing.\<close>

definition looking :: "(files \<Rightarrow> 'a io) \<Rightarrow> 'a io" where
  "looking f = (\<lambda>os d. f d os d)"

definition is_file :: "file_path \<Rightarrow> files \<Rightarrow> bool" where
  "is_file p d = (map_of d p \<noteq> None)"

text \<open>
  One call: \<open>good\<close> is the disk when it goes through, \<open>None\<close> when the call itself refuses; \<open>half\<close> is what
  is left when it fails or the daemon stops with \<open>Suc k\<close>.
\<close>

definition disk_call :: "(files \<Rightarrow> files option) \<Rightarrow> (nat \<Rightarrow> files \<Rightarrow> files) \<Rightarrow> (io_error + unit) io" where
  "disk_call good half = (\<lambda>os d.
     let (out, os') = (case os of [] \<Rightarrow> (Good, []) | out # os' \<Rightarrow> (out, os'))
     in case out of
          Good \<Rightarrow> (case good d of Some d' \<Rightarrow> (Done (Inr ()), os', d') | None \<Rightarrow> (Done (Inl Other_error), os', d))
        | Fail 0 \<Rightarrow> (Done (Inl Other_error), os', d)
        | Fail (Suc k) \<Rightarrow> (Done (Inl Other_error), os', half k d)
        | Crosses \<Rightarrow> (Done (Inl Crosses_devices), os', d)
        | Crash 0 \<Rightarrow> (Stopped, os', d)
        | Crash (Suc k) \<Rightarrow> (Stopped, os', half k d))"

definition rename_file :: "file_path \<Rightarrow> file_path \<Rightarrow> (io_error + unit) io" where
  "rename_file a b = disk_call (\<lambda>d. map_option (\<lambda>c. AList.update b c (AList.delete a d)) (map_of d a)) (\<lambda>k d. d)"

definition part_of :: "nat \<Rightarrow> content \<Rightarrow> content" where
  "part_of k c = (case c of Data xs \<Rightarrow> Data (take k xs) | _ \<Rightarrow> Torn)"

definition copy_file :: "file_path \<Rightarrow> file_path \<Rightarrow> (io_error + unit) io" where
  "copy_file a b = disk_call (\<lambda>d. map_option (\<lambda>c. AList.update b c d) (map_of d a))
     (\<lambda>k d. case map_of d a of Some c \<Rightarrow> AList.update b (part_of k c) d | None \<Rightarrow> d)"

definition sync_file :: "file_path \<Rightarrow> (io_error + unit) io" where
  "sync_file p = disk_call (\<lambda>d. if is_file p d then Some d else None) (\<lambda>k d. d)"

definition sync_dir :: "(io_error + unit) io" where
  "sync_dir = disk_call Some (\<lambda>k d. d)"

definition write_over :: "file_path \<Rightarrow> content \<Rightarrow> (io_error + unit) io" where
  "write_over p c = disk_call (\<lambda>d. Some (AList.update p c d)) (\<lambda>k d. AList.update p (part_of k c) d)"

definition write_new :: "file_path \<Rightarrow> content \<Rightarrow> (io_error + unit) io" where
  "write_new p c = disk_call (\<lambda>d. if is_file p d then None else Some (AList.update p c d))
     (\<lambda>k d. if is_file p d then d else AList.update p (part_of k c) d)"

definition remove_path :: "file_path \<Rightarrow> (io_error + unit) io" where
  "remove_path p = disk_call (\<lambda>d. if is_file p d then Some (AList.delete p d) else None) (\<lambda>k d. d)"

text \<open>\<open>let _ = ..\<close>.\<close>

definition ignoring :: "(io_error + unit) io \<Rightarrow> unit io" where
  "ignoring m = and_then m (\<lambda>_. ret ())"

section \<open>Marking a scratch file\<close>

definition mark_scratch_durable :: "string \<Rightarrow> staged_write \<Rightarrow> (io_error + unit) io" where
  "mark_scratch_durable s meta =
     or_fail (write_over (Scratch, s, Json_Tmp) (Sidecar meta)) (\<lambda>_.
     or_fail (sync_file (Scratch, s, Json_Tmp)) (\<lambda>_.
     or_fail (rename_file (Scratch, s, Json_Tmp) (Scratch, s, Json)) (\<lambda>_. sync_dir)))"

definition clear_scratch_durable :: "string \<Rightarrow> unit io" where
  "clear_scratch_durable s = ignoring (remove_path (Scratch, s, Json))"

section \<open>Staging a released write\<close>

definition publish_sidecar :: "string \<Rightarrow> staged_write \<Rightarrow> (io_error + unit) io" where
  "publish_sidecar p meta =
     or_fail (write_new (Staging, p, Json_Tmp) (Sidecar meta)) (\<lambda>_.
     or_fail (sync_file (Staging, p, Json_Tmp)) (\<lambda>_.
     or_fail (rename_file (Staging, p, Json_Tmp) (Staging, p, Json)) (\<lambda>_. sync_dir)))"

definition stage_write_at :: "staged_write \<Rightarrow> string \<Rightarrow> string \<Rightarrow> (io_error + unit) io" where
  "stage_write_at meta s p =
     or_fail (and_then (rename_file (Scratch, s, Plain) (Staging, p, Plain)) (\<lambda>r. case r of
         Inr _ \<Rightarrow> ret (Inr False)
       | Inl Crosses_devices \<Rightarrow> or_fail (copy_file (Scratch, s, Plain) (Staging, p, Plain)) (\<lambda>_. ret (Inr True))
       | Inl e \<Rightarrow> ret (Inl e))) (\<lambda>copied.
     or_fail (sync_file (Staging, p, Plain)) (\<lambda>_.
     or_fail (publish_sidecar p meta) (\<lambda>_.
     if copied then remove_path (Scratch, s, Plain) else ret (Inr ()))))"

section \<open>Preserving a write that cannot be queued\<close>

record preserve_error =
  surviving_path :: file_path
  marker_path :: "file_path option"

definition scratch_sidecar :: "file_path \<Rightarrow> file_path" where
  "scratch_sidecar p = (fst p, fst (snd p), Json)"

definition retained :: "string \<Rightarrow> file_path \<Rightarrow> (preserve_error + unit) io" where
  "retained s surviving = looking (\<lambda>d. ret (Inl \<lparr>surviving_path = surviving,
     marker_path = find (\<lambda>p. is_file p d) [scratch_sidecar surviving, (Scratch, s, Json)]\<rparr>))"

text \<open>The blob goes back beside its marker, or stays where it is.\<close>

definition put_back :: "staged_write \<Rightarrow> string \<Rightarrow> string \<Rightarrow> (preserve_error + unit) io" where
  "put_back meta s p =
     and_then (rename_file (Staging, p, Plain) (Scratch, s, Plain)) (\<lambda>r. case r of
         Inr _ \<Rightarrow>
           and_then (looking (\<lambda>d. if is_file (Scratch, s, Json) d then ret () else ignoring (mark_scratch_durable s meta))) (\<lambda>_.
           and_then (ignoring sync_dir) (\<lambda>_. retained s (Scratch, s, Plain)))
       | Inl _ \<Rightarrow> retained s (Staging, p, Plain))"

definition after_rename :: "staged_write \<Rightarrow> string \<Rightarrow> string \<Rightarrow> bool \<Rightarrow> (preserve_error + unit) io" where
  "after_rename meta s p marked =
     and_then (sync_file (Staging, p, Plain)) (\<lambda>r. case r of
         Inl _ \<Rightarrow> put_back meta s p
       | Inr _ \<Rightarrow>
           and_then (if marked then or_fail (rename_file (Scratch, s, Json) (Staging, p, Json)) (\<lambda>_. sync_dir)
                     else publish_sidecar p meta) (\<lambda>r. case r of
               Inl _ \<Rightarrow> and_then (ignoring (remove_path (Staging, p, Json_Tmp))) (\<lambda>_. put_back meta s p)
             | Inr _ \<Rightarrow> ret (Inr ())))"

definition after_copy :: "staged_write \<Rightarrow> string \<Rightarrow> string \<Rightarrow> bool \<Rightarrow> (preserve_error + unit) io" where
  "after_copy meta s p source_marked =
     (let surviving = (if source_marked then (Scratch, s, Plain) else (Staging, p, Plain))
      in and_then (sync_file (Staging, p, Plain)) (\<lambda>r. case r of
           Inl _ \<Rightarrow> retained s surviving
         | Inr _ \<Rightarrow> and_then (publish_sidecar p meta) (\<lambda>r. case r of
               Inl _ \<Rightarrow> and_then (ignoring (remove_path (Staging, p, Json_Tmp))) (\<lambda>_. retained s surviving)
             | Inr _ \<Rightarrow> and_then (remove_path (Scratch, s, Plain)) (\<lambda>r. case r of
                   Inl _ \<Rightarrow> retained s (Staging, p, Plain)
                 | Inr _ \<Rightarrow> and_then (clear_scratch_durable s) (\<lambda>_. ret (Inr ()))))))"

definition preserve_write_at :: "staged_write \<Rightarrow> string \<Rightarrow> string \<Rightarrow> (preserve_error + unit) io" where
  "preserve_write_at meta s p =
     and_then (mark_scratch_durable s meta) (\<lambda>marker.
     and_then (rename_file (Scratch, s, Plain) (Staging, p, Plain)) (\<lambda>renamed. case renamed of
         Inr _ \<Rightarrow> after_rename meta s p (\<exists>u. marker = Inr u)
       | Inl _ \<Rightarrow>
           looking (\<lambda>d. let source_marked = (\<exists>u. marker = Inr u) \<or> is_file (Scratch, s, Json) d
             in and_then (copy_file (Scratch, s, Plain) (Staging, p, Plain)) (\<lambda>copied. case copied of
                  Inr _ \<Rightarrow> after_copy meta s p source_marked
                | Inl _ \<Rightarrow>
                    (if source_marked then retained s (Scratch, s, Plain)
                     else and_then (rename_file (Scratch, s, Plain) (Recovery, p, Plain)) (\<lambda>r. case r of
                            Inr _ \<Rightarrow> and_then (ignoring sync_dir) (\<lambda>_. retained s (Recovery, p, Plain))
                          | Inl _ \<Rightarrow> retained s (Scratch, s, Plain)))))))"

section \<open>Opening the cache\<close>

text \<open>The blobs of a directory, in the order the disk lists them.\<close>

definition blobs_in :: "place \<Rightarrow> files \<Rightarrow> file_path list" where
  "blobs_in w d = map fst (filter (\<lambda>(p, _). fst p = w \<and> snd (snd p) \<noteq> Json) d)"

definition has_sidecar :: "file_path \<Rightarrow> files \<Rightarrow> bool" where
  "has_sidecar p d = (snd (snd p) = Plain \<and> is_file (scratch_sidecar p) d)"

definition rescue_one :: "file_path \<Rightarrow> unit io" where
  "rescue_one blob = looking (\<lambda>d.
     if \<not> has_sidecar blob d then ret ()
     else let valid = (case map_of d (scratch_sidecar blob) of Some (Sidecar _) \<Rightarrow> True | _ \<Rightarrow> False);
              name = fst (snd blob)
          in and_then (rename_file blob (Recovery, name, Plain)) (\<lambda>r. case r of
               Inl _ \<Rightarrow> ret ()
             | Inr _ \<Rightarrow>
                 (if \<not> valid then ignoring (remove_path (scratch_sidecar blob))
                  else ignoring (rename_file (scratch_sidecar blob) (Recovery, name, Json)))))"

fun for_each :: "'a list \<Rightarrow> ('a \<Rightarrow> unit io) \<Rightarrow> unit io" where
  "for_each [] f = ret ()"
| "for_each (x # xs) f = and_then (f x) (\<lambda>_. for_each xs f)"

definition rescue_scratch :: "unit io" where
  "rescue_scratch = looking (\<lambda>d. for_each (blobs_in Scratch d) rescue_one)"

definition discard_unmarked_scratch :: "unit io" where
  "discard_unmarked_scratch = looking (\<lambda>d. for_each (blobs_in Scratch d)
     (\<lambda>blob. looking (\<lambda>d. if \<not> has_sidecar blob d then ignoring (remove_path blob) else ret ())))"

definition open_dirs :: "unit io" where
  "open_dirs = and_then rescue_scratch (\<lambda>_. discard_unmarked_scratch)"

text \<open>What the daemon queues after it: the blobs of a directory that carry a sidecar that parses.\<close>

definition described :: "place \<Rightarrow> files \<Rightarrow> (file_path \<times> staged_write) list" where
  "described w d = List.map_filter (\<lambda>blob. case map_of d (scratch_sidecar blob) of
     Some (Sidecar m) \<Rightarrow> (if snd (snd blob) = Plain then Some (blob, m) else None) | _ \<Rightarrow> None) (blobs_in w d)"

definition recovered_writes :: "bool \<Rightarrow> files \<Rightarrow> (file_path \<times> staged_write) list \<times> bool" where
  "recovered_writes recovery_pending d =
     (if \<not> recovery_pending then ([], recovery_pending)
      else let out = described Recovery d in (out, out \<noteq> []))"

definition staged_writes :: "files \<Rightarrow> (file_path \<times> staged_write option) list" where
  "staged_writes d = map (\<lambda>blob. (blob, case map_of d (scratch_sidecar blob) of
     Some (Sidecar m) \<Rightarrow> (if snd (snd blob) = Plain then Some m else None) | _ \<Rightarrow> None)) (blobs_in Staging d)"

definition discard_recovered :: "file_path \<Rightarrow> unit io" where
  "discard_recovered p = and_then (ignoring (remove_path (scratch_sidecar p))) (\<lambda>_. ignoring (remove_path p))"

definition discard_staged :: "file_path \<Rightarrow> unit io" where
  "discard_staged p = and_then (ignoring (remove_path p)) (\<lambda>_. ignoring (remove_path (scratch_sidecar p)))"

end
