(* ===== verification/Scratch_Spec.thy ===== *)
theory Scratch_Spec
  imports Scratch_Files
begin

text \<open>
  Accepted bytes are not lost: what a run leaves on disk, however its calls go and wherever it stops.
  A triple says what holds of the disk when a program returns, and, last, what holds wherever
  the daemon stops inside it.
\<close>

definition triple :: "(files \<Rightarrow> bool) \<Rightarrow> 'a io \<Rightarrow> ('a \<Rightarrow> files \<Rightarrow> bool) \<Rightarrow> (files \<Rightarrow> bool) \<Rightarrow> bool" where
  "triple P m Q C = (\<forall>os d. P d \<longrightarrow> (case m os d of (Done x, _, d') \<Rightarrow> Q x d' | (Stopped, _, d') \<Rightarrow> C d'))"

lemma triple_at: "triple P m Q C \<Longrightarrow> P d \<Longrightarrow> m os d = (r, os', d') \<Longrightarrow> (case r of Done x \<Rightarrow> Q x d' | Stopped \<Rightarrow> C d')"
  unfolding triple_def by (drule spec [of _ os], drule spec [of _ d]) (cases r; simp)

lemma tripleI:
  assumes "\<And>os d r os' d'. P d \<Longrightarrow> m os d = (r, os', d') \<Longrightarrow> (case r of Done x \<Rightarrow> Q x d' | Stopped \<Rightarrow> C d')"
  shows "triple P m Q C"
  unfolding triple_def
proof (intro allI impI)
  fix os d assume "P d"
  obtain r os' d' where m: "m os d = (r, os', d')" by (cases "m os d")
  from assms [OF \<open>P d\<close> m] show "case m os d of (Done x, _, d') \<Rightarrow> Q x d' | (Stopped, _, d') \<Rightarrow> C d'"
    by (cases r; simp add: m)
qed

lemma triple_ret: "(\<And>d. P d \<Longrightarrow> Q x d) \<Longrightarrow> triple P (ret x) Q C"
  by (simp add: triple_def ret_def)

lemma triple_bind:
  assumes "triple P m R C" and "\<And>x. triple (R x) (f x) Q C"
  shows "triple P (and_then m f) Q C"
proof (rule tripleI)
  fix os d r os' d' assume P: "P d" and run: "and_then m f os d = (r, os', d')"
  obtain r1 os1 d1 where m: "m os d = (r1, os1, d1)" by (cases "m os d")
  note first = triple_at [OF assms(1) P m]
  show "case r of Done x \<Rightarrow> Q x d' | Stopped \<Rightarrow> C d'"
  proof (cases r1)
    case (Done x)
    then have "f x os1 d1 = (r, os', d')" using run m by (simp add: and_then_def)
    from triple_at [OF assms(2) _ this] first Done show ?thesis by simp
  next
    case Stopped
    then show ?thesis using run m first by (auto simp: and_then_def)
  qed
qed

lemma triple_conseq:
  assumes "triple P' m Q' C'" and "\<And>d. P d \<Longrightarrow> P' d" and "\<And>x d. Q' x d \<Longrightarrow> Q x d" and "\<And>d. C' d \<Longrightarrow> C d"
  shows "triple P m Q C"
proof (rule tripleI)
  fix os d r os' d' assume P: "P d" and run: "m os d = (r, os', d')"
  from triple_at [OF assms(1) assms(2) [OF P] run] assms(3,4) show "case r of Done x \<Rightarrow> Q x d' | Stopped \<Rightarrow> C d'"
    by (cases r) simp_all
qed

lemma triple_or_fail:
  assumes "triple P m (\<lambda>r d. case r of Inl e \<Rightarrow> Q (Inl e) d | Inr x \<Rightarrow> R x d) C" and "\<And>x. triple (R x) (f x) Q C"
  shows "triple P (or_fail m f) Q C"
proof -
  have "triple (\<lambda>d. case r of Inl e \<Rightarrow> Q (Inl e) d | Inr x \<Rightarrow> R x d) (case r of Inl e \<Rightarrow> ret (Inl e) | Inr x \<Rightarrow> f x) Q C" for r
  proof (cases r)
    case (Inl e)
    show ?thesis unfolding Inl by (simp only: sum.case) (rule triple_ret)
  next
    case (Inr x)
    show ?thesis unfolding Inr by (simp only: sum.case) (rule assms(2))
  qed
  from triple_bind [OF assms(1) this] show ?thesis unfolding or_fail_def .
qed

lemma triple_looking:
  assumes "\<And>d0. P d0 \<Longrightarrow> triple (\<lambda>d. d = d0) (f d0) Q C"
  shows "triple P (looking f) Q C"
proof (rule tripleI)
  fix os d r os' d' assume P: "P d" and run: "looking f os d = (r, os', d')"
  from triple_at [OF assms [OF P] refl, of os r os' d'] run show "case r of Done x \<Rightarrow> Q x d' | Stopped \<Rightarrow> C d'"
    by (simp only: looking_def)
qed

lemma triple_call:
  assumes "\<And>d. P d \<Longrightarrow> C d" and "\<And>d k. P d \<Longrightarrow> C (half k d)"
    and "\<And>d e. P d \<Longrightarrow> Q (Inl e) d" and "\<And>d k e. P d \<Longrightarrow> Q (Inl e) (half k d)"
    and "\<And>d d'. P d \<Longrightarrow> good d = Some d' \<Longrightarrow> Q (Inr ()) d'"
  shows "triple P (disk_call good half) Q C"
  using assms unfolding triple_def disk_call_def
  by (auto simp: Let_def split: list.splits outcome.splits nat.splits option.splits)

text \<open>A call that leaves the paths of interest alone, or moves one.\<close>

lemma part_Data [simp]: "part_of k (Sidecar m) = Torn"
  by (simp add: part_of_def)

definition same_plain :: "(files \<Rightarrow> bool) \<Rightarrow> bool" where
  "same_plain P = (\<forall>d d'. P d \<longrightarrow> (\<forall>w t. map_of d' (w, t, Plain) = map_of d (w, t, Plain)) \<longrightarrow> P d')"

lemma triple_sync_file: "(\<And>d. P d \<Longrightarrow> C d) \<Longrightarrow> triple P (sync_file p) (\<lambda>_. P) C"
  unfolding sync_file_def by (rule triple_call) (auto split: if_splits)

lemma triple_sync_dir: "(\<And>d. P d \<Longrightarrow> C d) \<Longrightarrow> triple P sync_dir (\<lambda>_. P) C"
  unfolding sync_dir_def by (rule triple_call) auto

lemma triple_ignoring: "triple P m (\<lambda>_. Q) C \<Longrightarrow> triple P (ignoring m) (\<lambda>_. Q) C"
  unfolding ignoring_def by (erule triple_bind) (simp add: triple_ret)

section \<open>Programs that touch sidecars only\<close>

text \<open>
  What holds of the plain files and of marks that stay: writing a sidecar over, new, moving one and
  removing a temporary one change none of it.
\<close>

definition keeps_marks :: "(files \<Rightarrow> bool) \<Rightarrow> bool" where
  "keeps_marks P = (\<forall>d d'. P d \<longrightarrow> (\<forall>w t. map_of d' (w, t, Plain) = map_of d (w, t, Plain)) \<longrightarrow>
     (\<forall>w t. is_file (w, t, Json) d \<longrightarrow> is_file (w, t, Json) d') \<longrightarrow> P d')"

lemma keeps_marksD:
  "keeps_marks P \<Longrightarrow> P d \<Longrightarrow> (\<And>w t. map_of d' (w, t, Plain) = map_of d (w, t, Plain)) \<Longrightarrow>
     (\<And>w t. is_file (w, t, Json) d \<Longrightarrow> is_file (w, t, Json) d') \<Longrightarrow> P d'"
  unfolding keeps_marks_def by blast

lemma update_other [simp]: "map_of (AList.update p c d) q = (if q = p then Some c else map_of d q)"
  by (simp add: AList.update_conv)

lemma delete_other [simp]: "map_of (AList.delete p d) q = (if q = p then None else map_of d q)"
  by (simp add: delete_conv)

lemma triple_write_tmp:
  assumes "keeps_marks P" and "\<And>d. P d \<Longrightarrow> C d"
  shows "triple P (write_over (w, t, Json_Tmp) c) (\<lambda>_. P) C" and "triple P (write_new (w, t, Json_Tmp) c) (\<lambda>_. P) C"
proof -
  have same: "P (AList.update (w, t, Json_Tmp) c' d)" if "P d" for c' d
    by (rule keeps_marksD [OF assms(1) that]) (simp_all add: is_file_def)
  show "triple P (write_over (w, t, Json_Tmp) c) (\<lambda>_. P) C"
    unfolding write_over_def by (rule triple_call) (auto simp: same assms(2))
  show "triple P (write_new (w, t, Json_Tmp) c) (\<lambda>_. P) C"
    unfolding write_new_def by (rule triple_call) (auto simp: same assms(2) split: if_splits)
qed

lemma triple_remove_tmp:
  assumes "keeps_marks P" and "\<And>d. P d \<Longrightarrow> C d"
  shows "triple P (remove_path (w, t, Json_Tmp)) (\<lambda>_. P) C"
  unfolding remove_path_def
proof (rule triple_call)
  show "P d'" if "P d" "(if is_file (w, t, Json_Tmp) d then Some (AList.delete (w, t, Json_Tmp) d) else None) = Some d'" for d d'
    using that(2) by (intro keeps_marksD [OF assms(1) that(1)]) (auto simp: is_file_def split: if_splits)
qed (auto simp: assms(2))

text \<open>A sidecar is written beside, synced and renamed: it is there whole when the program says so.\<close>

lemma triple_publishing:
  assumes "keeps_marks P" and "\<And>d. P d \<Longrightarrow> C d"
    and "triple P wr (\<lambda>r d. P d \<and> (\<forall>u. r = Inr u \<longrightarrow> map_of d (w, t, Json_Tmp) = Some (Sidecar meta))) C"
  shows "triple P (or_fail wr (\<lambda>_. or_fail (sync_file (w, t, Json_Tmp)) (\<lambda>_. or_fail (rename_file (w, t, Json_Tmp) (w, t, Json)) (\<lambda>_. sync_dir))))
           (\<lambda>r d. P d \<and> (\<forall>u. r = Inr u \<longrightarrow> map_of d (w, t, Json) = Some (Sidecar meta))) C"
proof -
  let ?Q = "\<lambda>r d. P d \<and> (\<forall>u. r = Inr u \<longrightarrow> map_of d (w, t, Json) = Some (Sidecar meta))"
  let ?T = "\<lambda>d. P d \<and> map_of d (w, t, Json_Tmp) = Some (Sidecar meta)"
  let ?J = "\<lambda>d. P d \<and> map_of d (w, t, Json) = Some (Sidecar meta)"
  have last: "triple ?J sync_dir ?Q C"
    by (rule triple_conseq [OF triple_sync_dir [where P = ?J and C = C]]) (auto simp: assms(2))
  have ren: "triple ?T (rename_file (w, t, Json_Tmp) (w, t, Json)) (\<lambda>r d. case r of Inl e \<Rightarrow> ?Q (Inl e) d | Inr _ \<Rightarrow> ?J d) C"
    unfolding rename_file_def
  proof (rule triple_call)
    fix d d' assume T: "?T d" and d': "map_option (\<lambda>c. AList.update (w, t, Json) c (AList.delete (w, t, Json_Tmp) d)) (map_of d (w, t, Json_Tmp)) = Some d'"
    have eq: "d' = AList.update (w, t, Json) (Sidecar meta) (AList.delete (w, t, Json_Tmp) d)" using T d' by simp
    have "P d'" unfolding eq by (rule keeps_marksD [OF assms(1) T [THEN conjunct1]]) (simp_all add: is_file_def)
    then show "case Inr () of Inl e \<Rightarrow> ?Q (Inl e) d' | Inr _ \<Rightarrow> ?J d'" by (simp add: eq)
  qed (auto simp: assms(2))
  have sync: "triple ?T (sync_file (w, t, Json_Tmp)) (\<lambda>r d. case r of Inl e \<Rightarrow> ?Q (Inl e) d | Inr _ \<Rightarrow> ?T d) C"
    by (rule triple_conseq [OF triple_sync_file [where P = ?T and C = C]]) (auto simp: assms(2) split: sum.splits)
  have wr: "triple P wr (\<lambda>r d. case r of Inl e \<Rightarrow> ?Q (Inl e) d | Inr _ \<Rightarrow> ?T d) C"
    by (rule triple_conseq [OF assms(3)]) (auto split: sum.splits)
  show ?thesis
    by (rule triple_or_fail [OF wr triple_or_fail [OF sync triple_or_fail [OF ren last]]])
qed

lemma triple_write_sidecar:
  assumes "keeps_marks P" and "\<And>d. P d \<Longrightarrow> C d"
  shows "triple P (write_over (w, t, Json_Tmp) c) (\<lambda>r d. P d \<and> (\<forall>u. r = Inr u \<longrightarrow> map_of d (w, t, Json_Tmp) = Some c)) C"
    and "triple P (write_new (w, t, Json_Tmp) c) (\<lambda>r d. P d \<and> (\<forall>u. r = Inr u \<longrightarrow> map_of d (w, t, Json_Tmp) = Some c)) C"
proof -
  have same: "P (AList.update (w, t, Json_Tmp) c' d)" if "P d" for c' d
    by (rule keeps_marksD [OF assms(1) that]) (simp_all add: is_file_def)
  show "triple P (write_over (w, t, Json_Tmp) c) (\<lambda>r d. P d \<and> (\<forall>u. r = Inr u \<longrightarrow> map_of d (w, t, Json_Tmp) = Some c)) C"
    unfolding write_over_def by (rule triple_call) (auto simp: same assms(2))
  show "triple P (write_new (w, t, Json_Tmp) c) (\<lambda>r d. P d \<and> (\<forall>u. r = Inr u \<longrightarrow> map_of d (w, t, Json_Tmp) = Some c)) C"
    unfolding write_new_def by (rule triple_call) (auto simp: same assms(2) split: if_splits)
qed

lemma triple_mark:
  assumes "keeps_marks P" and "\<And>d. P d \<Longrightarrow> C d"
  shows "triple P (mark_scratch_durable s meta) (\<lambda>r d. P d \<and> (\<forall>u. r = Inr u \<longrightarrow> map_of d (Scratch, s, Json) = Some (Sidecar meta))) C"
  unfolding mark_scratch_durable_def by (rule triple_publishing [OF assms triple_write_sidecar(1) [OF assms]])

lemma triple_publish:
  assumes "keeps_marks P" and "\<And>d. P d \<Longrightarrow> C d"
  shows "triple P (publish_sidecar p meta) (\<lambda>r d. P d \<and> (\<forall>u. r = Inr u \<longrightarrow> map_of d (Staging, p, Json) = Some (Sidecar meta))) C"
  unfolding publish_sidecar_def by (rule triple_publishing [OF assms triple_write_sidecar(2) [OF assms]])

lemma triple_case:
  assumes "triple P m (\<lambda>r d. case r of Inl _ \<Rightarrow> L d | Inr _ \<Rightarrow> R d) C" and "\<And>e. triple L (f e) Q C" and "\<And>x. triple R (g x) Q C"
  shows "triple P (and_then m (\<lambda>r. case r of Inl e \<Rightarrow> f e | Inr x \<Rightarrow> g x)) Q C"
proof -
  have "triple (\<lambda>d. case r of Inl _ \<Rightarrow> L d | Inr _ \<Rightarrow> R d) (case r of Inl e \<Rightarrow> f e | Inr x \<Rightarrow> g x) Q C" for r
    using assms(2,3) by (cases r) (simp_all only: sum.case)
  from triple_bind [OF assms(1) this] show ?thesis .
qed

section \<open>Where the bytes are\<close>

text \<open>Bytes the next run keeps: staged, rescued, or beside a mark.\<close>

definition safe :: "byte list \<Rightarrow> files \<Rightarrow> bool" where
  "safe data d = ((\<exists>t. map_of d (Staging, t, Plain) = Some (Data data)) \<or>
     (\<exists>t. map_of d (Recovery, t, Plain) = Some (Data data) \<and> map_of d (Scratch, t, Plain) = None) \<or>
     (\<exists>t. map_of d (Scratch, t, Plain) = Some (Data data) \<and> is_file (Scratch, t, Json) d))"

definition in_scratch :: "string \<Rightarrow> string \<Rightarrow> byte list \<Rightarrow> files \<Rightarrow> bool" where
  "in_scratch s p data d = (map_of d (Scratch, s, Plain) = Some (Data data) \<and> map_of d (Scratch, p, Plain) = None)"

definition in_staging :: "string \<Rightarrow> string \<Rightarrow> byte list \<Rightarrow> files \<Rightarrow> bool" where
  "in_staging s p data d = (map_of d (Staging, p, Plain) = Some (Data data) \<and> map_of d (Scratch, p, Plain) = None)"

definition somewhere :: "string \<Rightarrow> string \<Rightarrow> byte list \<Rightarrow> files \<Rightarrow> bool" where
  "somewhere s p data d = (\<exists>q \<in> {(Scratch, s, Plain), (Staging, p, Plain), (Recovery, p, Plain)}. map_of d q = Some (Data data))"

lemma keeps_marks_places:
  "keeps_marks (in_scratch s p data)" "keeps_marks (in_staging s p data)" "keeps_marks (safe data)"
  "keeps_marks (\<lambda>d. in_scratch s p data d \<and> is_file (Scratch, s, Json) d)"
  "keeps_marks (\<lambda>d. in_scratch s p data d \<and> in_staging s p data d)"
  by (auto simp: keeps_marks_def in_scratch_def in_staging_def) (auto simp: safe_def)

lemma somewhereI:
  "in_scratch s p data d \<Longrightarrow> somewhere s p data d" "in_staging s p data d \<Longrightarrow> somewhere s p data d"
  by (auto simp: in_scratch_def in_staging_def somewhere_def)

text \<open>What a program that ends in an error says of the bytes.\<close>

definition kept :: "byte list \<Rightarrow> preserve_error \<Rightarrow> files \<Rightarrow> bool" where
  "kept data e d = (map_of d (surviving_path e) = Some (Data data) \<and> snd (snd (surviving_path e)) = Plain \<and>
     (fst (surviving_path e) \<noteq> Scratch \<or> marker_path e \<noteq> None \<longrightarrow> safe data d))"

lemma triple_retained:
  assumes "\<And>d. P d \<Longrightarrow> map_of d (w, t, Plain) = Some (Data data)" and "w = Scratch \<Longrightarrow> t = s" and "\<And>d. P d \<Longrightarrow> w = Recovery \<Longrightarrow> map_of d (Scratch, t, Plain) = None"
    and "\<And>e d. kept data e d \<Longrightarrow> Q (Inl e) d"
  shows "triple P (retained s (w, t, Plain)) Q C"
  unfolding retained_def
proof (rule triple_looking)
  fix d0 assume P: "P d0"
  show "triple (\<lambda>d. d = d0) (ret (Inl \<lparr>surviving_path = (w, t, Plain), marker_path = find (\<lambda>p. is_file p d0)
      [scratch_sidecar (w, t, Plain), (Scratch, s, Json)]\<rparr>)) Q C"
  proof (rule triple_ret)
    fix d assume "d = d0"
    then show "Q (Inl \<lparr>surviving_path = (w, t, Plain), marker_path = find (\<lambda>p. is_file p d0) [scratch_sidecar (w, t, Plain), (Scratch, s, Json)]\<rparr>) d"
      using assms(1-3) P by (intro assms(4)) (cases w; auto simp: kept_def safe_def scratch_sidecar_def split: if_splits)
  qed
qed

definition published :: "staged_write \<Rightarrow> string \<Rightarrow> byte list \<Rightarrow> files \<Rightarrow> bool" where
  "published meta p data d = (map_of d (Staging, p, Plain) = Some (Data data) \<and> map_of d (Staging, p, Json) = Some (Sidecar meta))"

definition preserved :: "staged_write \<Rightarrow> string \<Rightarrow> byte list \<Rightarrow> preserve_error + unit \<Rightarrow> files \<Rightarrow> bool" where
  "preserved meta p data r d = (case r of Inl e \<Rightarrow> kept data e d | Inr _ \<Rightarrow> published meta p data d)"

abbreviation outcome_triple where
  "outcome_triple meta s p data P m \<equiv> triple P m (preserved meta p data) (somewhere s p data)"

lemma triple_move:
  assumes "\<And>d. P d \<Longrightarrow> L d \<and> C d" and "\<And>d c. P d \<Longrightarrow> map_of d a = Some c \<Longrightarrow> R (AList.update b c (AList.delete a d))"
  shows "triple P (rename_file a b) (\<lambda>r d. case r of Inl _ \<Rightarrow> L d | Inr _ \<Rightarrow> R d) C"
  unfolding rename_file_def by (rule triple_call) (use assms in auto)

lemma triple_drop:
  assumes "\<And>d. P d \<Longrightarrow> L d \<and> C d" and "\<And>d. P d \<Longrightarrow> R (AList.delete a d)"
  shows "triple P (remove_path a) (\<lambda>r d. case r of Inl _ \<Rightarrow> L d | Inr _ \<Rightarrow> R d) C"
  unfolding remove_path_def by (rule triple_call) (use assms in \<open>auto split: if_splits\<close>)

lemma triple_same: "triple P m (\<lambda>_. P) C \<Longrightarrow> triple P m (\<lambda>r d. case r of Inl _ \<Rightarrow> P d | Inr _ \<Rightarrow> P d) C"
  by (erule triple_conseq) (auto split: sum.splits)

lemma retained_scratch: "outcome_triple meta s p data (in_scratch s p data) (retained s (Scratch, s, Plain))"
  by (rule triple_retained [where data = data]) (auto simp: in_scratch_def preserved_def)

lemma retained_staging: "outcome_triple meta s p data (in_staging s p data) (retained s (Staging, p, Plain))"
  by (rule triple_retained [where data = data]) (auto simp: in_staging_def preserved_def)

lemma put_back_keeps:
  assumes "s \<noteq> p"
  shows "outcome_triple meta s p data (in_staging s p data) (put_back meta s p)"
  unfolding put_back_def
proof (rule triple_case)
  show "triple (in_staging s p data) (rename_file (Staging, p, Plain) (Scratch, s, Plain))
      (\<lambda>r d. case r of Inl _ \<Rightarrow> in_staging s p data d | Inr _ \<Rightarrow> in_scratch s p data d) (somewhere s p data)"
    by (rule triple_move) (use assms in \<open>auto simp: in_staging_def in_scratch_def somewhere_def\<close>)
  show "outcome_triple meta s p data (in_staging s p data) (retained s (Staging, p, Plain))" by (rule retained_staging)
  have mark: "triple (in_scratch s p data) (ignoring (mark_scratch_durable s meta)) (\<lambda>_. in_scratch s p data) (somewhere s p data)"
    by (rule triple_ignoring) (rule triple_conseq [OF triple_mark [OF keeps_marks_places(1) somewhereI(1)]], auto)
  have again: "triple (in_scratch s p data) (looking (\<lambda>d. if is_file (Scratch, s, Json) d then ret () else ignoring (mark_scratch_durable s meta)))
      (\<lambda>_. in_scratch s p data) (somewhere s p data)"
  proof (rule triple_looking)
    fix d0 assume "in_scratch s p data d0"
    then show "triple (\<lambda>d. d = d0) (if is_file (Scratch, s, Json) d0 then ret () else ignoring (mark_scratch_durable s meta))
        (\<lambda>_. in_scratch s p data) (somewhere s p data)"
      using triple_conseq [OF mark, of "\<lambda>d. d = d0"] by (auto intro: triple_ret)
  qed
  have sync: "triple (in_scratch s p data) (ignoring sync_dir) (\<lambda>_. in_scratch s p data) (somewhere s p data)"
    by (rule triple_ignoring) (rule triple_sync_dir, rule somewhereI(1))
  show "outcome_triple meta s p data (in_scratch s p data)
      (and_then (looking (\<lambda>d. if is_file (Scratch, s, Json) d then ret () else ignoring (mark_scratch_durable s meta)))
        (\<lambda>_. and_then (ignoring sync_dir) (\<lambda>_. retained s (Scratch, s, Plain))))"
    by (rule triple_bind [OF again triple_bind [OF sync retained_scratch]])
qed

lemma after_rename_keeps:
  assumes "s \<noteq> p"
  shows "outcome_triple meta s p data (\<lambda>d. in_staging s p data d \<and> (marked \<longrightarrow> map_of d (Scratch, s, Json) = Some (Sidecar meta))) (after_rename meta s p marked)"
    (is "outcome_triple meta s p data ?P _")
  unfolding after_rename_def
proof (rule triple_case [where R = ?P])
  show "triple ?P (sync_file (Staging, p, Plain)) (\<lambda>r d. case r of Inl _ \<Rightarrow> in_staging s p data d | Inr _ \<Rightarrow> ?P d) (somewhere s p data)"
    by (rule triple_conseq [OF triple_sync_file [where P = ?P and C = "somewhere s p data"]]) (auto split: sum.splits intro: somewhereI(2))
  show "outcome_triple meta s p data (in_staging s p data) (put_back meta s p)" by (rule put_back_keeps [OF assms])
  let ?D = "\<lambda>d. in_staging s p data d \<and> published meta p data d"
  have dir: "triple ?D sync_dir (\<lambda>r d. case r of Inl _ \<Rightarrow> in_staging s p data d | Inr _ \<Rightarrow> published meta p data d) (somewhere s p data)"
    by (rule triple_conseq [OF triple_sync_dir [where P = ?D and C = "somewhere s p data"]]) (auto split: sum.splits intro: somewhereI(2))
  have side: "triple ?P (if marked then or_fail (rename_file (Scratch, s, Json) (Staging, p, Json)) (\<lambda>_. sync_dir) else publish_sidecar p meta)
      (\<lambda>r d. case r of Inl _ \<Rightarrow> in_staging s p data d | Inr _ \<Rightarrow> published meta p data d) (somewhere s p data)"
  proof (cases marked)
    case True
    have "triple ?P (rename_file (Scratch, s, Json) (Staging, p, Json)) (\<lambda>r d. case r of Inl _ \<Rightarrow> in_staging s p data d | Inr _ \<Rightarrow> ?D d) (somewhere s p data)"
      by (rule triple_move) (use True in \<open>auto simp: in_staging_def published_def somewhere_def\<close>)
    then have "triple ?P (rename_file (Scratch, s, Json) (Staging, p, Json))
        (\<lambda>r d. case r of Inl e \<Rightarrow> (case (Inl e :: io_error + unit) of Inl _ \<Rightarrow> in_staging s p data d | Inr _ \<Rightarrow> published meta p data d) | Inr _ \<Rightarrow> ?D d) (somewhere s p data)"
      by (simp only: sum.case)
    from triple_or_fail [OF this dir] show ?thesis by (simp only: True if_True)
  next
    case False
    have "triple (in_staging s p data) (publish_sidecar p meta)
        (\<lambda>r d. case r of Inl _ \<Rightarrow> in_staging s p data d | Inr _ \<Rightarrow> published meta p data d) (somewhere s p data)"
      by (rule triple_conseq [OF triple_publish [OF keeps_marks_places(2) somewhereI(2)]]) (auto simp: published_def in_staging_def split: sum.splits)
    then show ?thesis using False by (simp only: if_False simp_thms)
  qed
  have tmp: "triple (in_staging s p data) (ignoring (remove_path (Staging, p, Json_Tmp))) (\<lambda>_. in_staging s p data) (somewhere s p data)"
    by (rule triple_ignoring) (rule triple_remove_tmp [OF keeps_marks_places(2) somewhereI(2)])
  show "outcome_triple meta s p data ?P (and_then (if marked then or_fail (rename_file (Scratch, s, Json) (Staging, p, Json)) (\<lambda>_. sync_dir)
        else publish_sidecar p meta) (\<lambda>r. case r of Inl _ \<Rightarrow> and_then (ignoring (remove_path (Staging, p, Json_Tmp))) (\<lambda>_. put_back meta s p)
        | Inr _ \<Rightarrow> ret (Inr ())))"
    by (rule triple_case [OF side triple_bind [OF tmp put_back_keeps [OF assms]] triple_ret]) (simp add: preserved_def)
qed

lemma after_copy_keeps:
  "outcome_triple meta s p data (\<lambda>d. in_scratch s p data d \<and> in_staging s p data d) (after_copy meta s p source_marked)"
    (is "outcome_triple meta s p data ?P _")
proof -
  let ?q = "if source_marked then (Scratch, s, Plain) else (Staging, p, Plain)"
  have C: "?P d \<Longrightarrow> somewhere s p data d" for d using somewhereI(1) by blast
  have ret: "outcome_triple meta s p data ?P (retained s ?q)"
    by (cases source_marked) (auto intro: triple_conseq [OF retained_scratch] triple_conseq [OF retained_staging])
  have sync: "triple ?P (sync_file (Staging, p, Plain)) (\<lambda>r d. case r of Inl _ \<Rightarrow> ?P d | Inr _ \<Rightarrow> ?P d) (somewhere s p data)"
    by (rule triple_same [OF triple_sync_file]) (rule C)
  let ?D = "\<lambda>d. ?P d \<and> published meta p data d"
  have pub: "triple ?P (publish_sidecar p meta) (\<lambda>r d. case r of Inl _ \<Rightarrow> ?P d | Inr _ \<Rightarrow> ?D d) (somewhere s p data)"
    by (rule triple_conseq [OF triple_publish [OF keeps_marks_places(5) C]]) (auto simp: published_def in_staging_def split: sum.splits)
  have tmp: "triple ?P (ignoring (remove_path (Staging, p, Json_Tmp))) (\<lambda>_. ?P) (somewhere s p data)"
    by (rule triple_ignoring) (rule triple_remove_tmp [OF keeps_marks_places(5) C])
  let ?E = "\<lambda>d. in_staging s p data d \<and> published meta p data d"
  have rem: "triple ?D (remove_path (Scratch, s, Plain)) (\<lambda>r d. case r of Inl _ \<Rightarrow> ?D d | Inr _ \<Rightarrow> ?E d) (somewhere s p data)"
    by (rule triple_drop) (auto simp: in_staging_def published_def somewhere_def)
  have clear: "triple ?E (clear_scratch_durable s) (\<lambda>_. ?E) (somewhere s p data)"
    unfolding clear_scratch_durable_def
    by (rule triple_ignoring) (rule triple_conseq [OF triple_drop [where P = ?E and L = ?E and R = ?E and C = "somewhere s p data"]], auto simp: in_staging_def published_def somewhere_def split: sum.splits)
  have fin: "outcome_triple meta s p data ?E (ret (Inr ()))" by (rule triple_ret) (simp add: preserved_def)
  have left: "outcome_triple meta s p data ?D (retained s (Staging, p, Plain))" by (rule triple_conseq [OF retained_staging]) auto
  show ?thesis
    unfolding after_copy_def Let_def
    by (rule triple_case [OF sync ret triple_case [OF pub triple_bind [OF tmp ret] triple_case [OF rem left triple_bind [OF clear fin]]]])
qed

lemma preserve_keeps:
  assumes "s \<noteq> p"
  shows "outcome_triple meta s p data (in_scratch s p data) (preserve_write_at meta s p)"
  unfolding preserve_write_at_def
proof (rule triple_bind [OF triple_mark [OF keeps_marks_places(1) somewhereI(1)]])
  fix marker :: "io_error + unit"
  let ?marked = "\<exists>u. marker = Inr u"
  let ?P = "\<lambda>d. in_scratch s p data d \<and> (\<forall>u. marker = Inr u \<longrightarrow> map_of d (Scratch, s, Json) = Some (Sidecar meta))"
  let ?B = "\<lambda>d. in_staging s p data d \<and> (?marked \<longrightarrow> map_of d (Scratch, s, Json) = Some (Sidecar meta))"
  have mv: "triple ?P (rename_file (Scratch, s, Plain) (Staging, p, Plain)) (\<lambda>r d. case r of Inl _ \<Rightarrow> in_scratch s p data d | Inr _ \<Rightarrow> ?B d) (somewhere s p data)"
    by (rule triple_move) (auto simp: in_scratch_def in_staging_def somewhere_def)
  have cp: "triple (in_scratch s p data) (copy_file (Scratch, s, Plain) (Staging, p, Plain))
      (\<lambda>r d. case r of Inl _ \<Rightarrow> in_scratch s p data d | Inr _ \<Rightarrow> in_scratch s p data d \<and> in_staging s p data d) (somewhere s p data)"
    unfolding copy_file_def by (rule triple_call) (auto simp: in_scratch_def in_staging_def somewhere_def split: option.splits)
  let ?R = "\<lambda>d. map_of d (Recovery, p, Plain) = Some (Data data) \<and> map_of d (Scratch, p, Plain) = None"
  have rescue: "triple (in_scratch s p data) (rename_file (Scratch, s, Plain) (Recovery, p, Plain))
      (\<lambda>r d. case r of Inl _ \<Rightarrow> in_scratch s p data d | Inr _ \<Rightarrow> ?R d) (somewhere s p data)"
    by (rule triple_move) (auto simp: in_scratch_def somewhere_def)
  have syn: "triple ?R (ignoring sync_dir) (\<lambda>_. ?R) (somewhere s p data)"
    by (rule triple_ignoring) (rule triple_sync_dir, simp add: somewhere_def)
  have ret: "outcome_triple meta s p data ?R (retained s (Recovery, p, Plain))"
    by (rule triple_retained [where data = data]) (auto simp: preserved_def)
  have failed: "outcome_triple meta s p data (in_scratch s p data) (if source_marked then retained s (Scratch, s, Plain)
      else and_then (rename_file (Scratch, s, Plain) (Recovery, p, Plain)) (\<lambda>r. case r of
          Inl _ \<Rightarrow> retained s (Scratch, s, Plain) | Inr _ \<Rightarrow> and_then (ignoring sync_dir) (\<lambda>_. retained s (Recovery, p, Plain))))" for source_marked
    using retained_scratch triple_case [OF rescue retained_scratch triple_bind [OF syn ret]] by (cases source_marked) simp_all
  show "outcome_triple meta s p data ?P (and_then (rename_file (Scratch, s, Plain) (Staging, p, Plain)) (\<lambda>renamed. case renamed of
         Inl _ \<Rightarrow> looking (\<lambda>d. let source_marked = ?marked \<or> is_file (Scratch, s, Json) d
             in and_then (copy_file (Scratch, s, Plain) (Staging, p, Plain)) (\<lambda>copied. case copied of
                  Inl _ \<Rightarrow> (if source_marked then retained s (Scratch, s, Plain)
                     else and_then (rename_file (Scratch, s, Plain) (Recovery, p, Plain)) (\<lambda>r. case r of
                            Inl _ \<Rightarrow> retained s (Scratch, s, Plain)
                          | Inr _ \<Rightarrow> and_then (ignoring sync_dir) (\<lambda>_. retained s (Recovery, p, Plain))))
                | Inr _ \<Rightarrow> after_copy meta s p source_marked))
       | Inr _ \<Rightarrow> after_rename meta s p ?marked))"
  proof (rule triple_case [OF mv _ after_rename_keeps [OF assms]], rule triple_looking, unfold Let_def)
    fix d0 assume A: "in_scratch s p data d0"
    let ?m = "?marked \<or> is_file (Scratch, s, Json) d0"
    show "outcome_triple meta s p data (\<lambda>d. d = d0) (and_then (copy_file (Scratch, s, Plain) (Staging, p, Plain)) (\<lambda>copied. case copied of
                  Inl _ \<Rightarrow> (if ?m then retained s (Scratch, s, Plain)
                     else and_then (rename_file (Scratch, s, Plain) (Recovery, p, Plain)) (\<lambda>r. case r of
                            Inl _ \<Rightarrow> retained s (Scratch, s, Plain)
                          | Inr _ \<Rightarrow> and_then (ignoring sync_dir) (\<lambda>_. retained s (Recovery, p, Plain))))
                | Inr _ \<Rightarrow> after_copy meta s p ?m))"
      by (rule triple_conseq [OF triple_case [OF cp failed after_copy_keeps]]) (use A in auto)
  qed
qed

lemma stage_keeps:
  assumes "s \<noteq> p"
  shows "triple (in_scratch s p data) (stage_write_at meta s p)
     (\<lambda>r d. case r of Inl _ \<Rightarrow> somewhere s p data d | Inr _ \<Rightarrow> published meta p data d) (somewhere s p data)"
    (is "triple _ _ ?Q ?C")
proof -
  let ?A = "in_scratch s p data"
  let ?B = "\<lambda>copied d. in_staging s p data d"
  have cp: "triple ?A (copy_file (Scratch, s, Plain) (Staging, p, Plain)) (\<lambda>r d. case r of Inl _ \<Rightarrow> ?A d | Inr _ \<Rightarrow> in_staging s p data d) ?C"
    unfolding copy_file_def by (rule triple_call) (auto simp: in_scratch_def in_staging_def somewhere_def split: option.splits)
  let ?M = "\<lambda>r d. case r of Inl e \<Rightarrow> ?Q (Inl e) d | Inr _ \<Rightarrow> in_staging s p data d"
  have toA: "triple ?A (ret (Inl e)) ?M ?C" for e
    by (rule triple_ret) (simp add: somewhereI(1))
  have toB: "triple (in_staging s p data) (ret (Inr b)) ?M ?C" for b by (rule triple_ret) simp
  have cp': "triple ?A (or_fail (copy_file (Scratch, s, Plain) (Staging, p, Plain)) (\<lambda>_. ret (Inr True))) ?M ?C"
    unfolding or_fail_def by (rule triple_case [OF cp toA toB])
  have mv: "triple ?A (rename_file (Scratch, s, Plain) (Staging, p, Plain)) (\<lambda>r d. case r of Inl _ \<Rightarrow> ?A d | Inr _ \<Rightarrow> in_staging s p data d) ?C"
    by (rule triple_move) (auto simp: in_scratch_def in_staging_def somewhere_def)
  have move: "triple ?A (and_then (rename_file (Scratch, s, Plain) (Staging, p, Plain)) (\<lambda>r. case r of
         Inr _ \<Rightarrow> ret (Inr False)
       | Inl Crosses_devices \<Rightarrow> or_fail (copy_file (Scratch, s, Plain) (Staging, p, Plain)) (\<lambda>_. ret (Inr True))
       | Inl e \<Rightarrow> ret (Inl e))) ?M ?C"
  proof (rule triple_bind [OF mv])
    fix r :: "io_error + unit"
    show "triple (\<lambda>d. case r of Inl _ \<Rightarrow> ?A d | Inr _ \<Rightarrow> in_staging s p data d)
        (case r of Inr _ \<Rightarrow> ret (Inr False) | Inl Crosses_devices \<Rightarrow> or_fail (copy_file (Scratch, s, Plain) (Staging, p, Plain)) (\<lambda>_. ret (Inr True))
         | Inl e \<Rightarrow> ret (Inl e)) ?M ?C"
      using cp' toA toB by (cases r; cases "projl r") simp_all
  qed
  have sync: "triple (in_staging s p data) (sync_file (Staging, p, Plain)) (\<lambda>r d. case r of Inl e \<Rightarrow> ?Q (Inl e) d | Inr _ \<Rightarrow> in_staging s p data d) ?C"
    by (rule triple_conseq [OF triple_sync_file [where P = "in_staging s p data" and C = ?C]]) (auto split: sum.splits intro: somewhereI(2))
  have pub: "triple (in_staging s p data) (publish_sidecar p meta) (\<lambda>r d. case r of Inl e \<Rightarrow> ?Q (Inl e) d | Inr _ \<Rightarrow> published meta p data d) ?C"
    by (rule triple_conseq [OF triple_publish [OF keeps_marks_places(2) somewhereI(2)]]) (auto simp: published_def in_staging_def somewhere_def split: sum.splits)
  have rem: "triple (published meta p data) (remove_path (Scratch, s, Plain)) (\<lambda>r d. case r of Inl _ \<Rightarrow> published meta p data d | Inr _ \<Rightarrow> published meta p data d) ?C"
    by (rule triple_drop) (auto simp: published_def somewhere_def)
  have fin: "triple (published meta p data) (if copied then remove_path (Scratch, s, Plain) else ret (Inr ())) ?Q ?C" for copied
    by (cases copied) (auto intro: triple_ret triple_conseq [OF rem] simp: published_def somewhere_def split: sum.splits)
  show ?thesis
    unfolding stage_write_at_def by (rule triple_or_fail [OF move triple_or_fail [OF sync triple_or_fail [OF pub fin]]])
qed

section \<open>The next run\<close>

lemma triple_for_each:
  assumes "\<And>x. x \<in> set xs \<Longrightarrow> triple P (f x) (\<lambda>_. P) C" and "\<And>d. P d \<Longrightarrow> C d"
  shows "triple P (for_each xs f) (\<lambda>_. P) C"
  using assms(1)
proof (induction xs)
  case Nil
  show ?case by (simp add: triple_ret)
next
  case (Cons x xs)
  have one: "triple P (f x) (\<lambda>_. P) C" and rest: "triple P (for_each xs f) (\<lambda>_. P) C" using Cons by simp_all
  show ?case by (simp only: for_each.simps) (rule triple_bind [OF one rest])
qed

lemma blobs_in_place: "b \<in> set (blobs_in w d) \<Longrightarrow> fst b = w \<and> snd (snd b) \<noteq> Json"
  by (auto simp: blobs_in_def)

lemma safe_keep:
  assumes "safe data d" and "\<And>u c. map_of d (Staging, u, Plain) = Some c \<Longrightarrow> map_of d' (Staging, u, Plain) = Some c"
    and "\<And>u c. map_of d (Recovery, u, Plain) = Some c \<Longrightarrow> map_of d' (Recovery, u, Plain) = Some c"
    and "\<And>u. map_of d (Scratch, u, Plain) = None \<Longrightarrow> map_of d' (Scratch, u, Plain) = None"
    and "\<And>u c. map_of d (Scratch, u, Plain) = Some c \<Longrightarrow> is_file (Scratch, u, Json) d \<Longrightarrow>
          map_of d' (Scratch, u, Plain) = Some c \<and> is_file (Scratch, u, Json) d'"
  shows "safe data d'"
  using assms unfolding safe_def by blast

lemma rescue_one_safe:
  assumes "fst blob = Scratch"
  shows "triple (safe data) (rescue_one blob) (\<lambda>_. safe data) (safe data)"
  unfolding rescue_one_def
proof (rule triple_looking)
  fix d0 assume S: "safe data d0"
  obtain t x where b: "blob = (Scratch, t, x)" using assms by (cases blob) auto
  show "triple (\<lambda>d. d = d0) (if \<not> has_sidecar blob d0 then ret ()
      else let valid = (case map_of d0 (scratch_sidecar blob) of Some (Sidecar _) \<Rightarrow> True | _ \<Rightarrow> False); name = fst (snd blob)
           in and_then (rename_file blob (Recovery, name, Plain)) (\<lambda>r. case r of Inl _ \<Rightarrow> ret ()
             | Inr _ \<Rightarrow> (if \<not> valid then ignoring (remove_path (scratch_sidecar blob))
                        else ignoring (rename_file (scratch_sidecar blob) (Recovery, name, Json))))) (\<lambda>_. safe data) (safe data)"
  proof (cases "has_sidecar blob d0")
    case False
    then show ?thesis using S by (auto intro: triple_ret)
  next
    case True
    then have x: "x = Plain" by (simp add: has_sidecar_def b)
    let ?G = "\<lambda>d. safe data d \<and> map_of d (Scratch, t, Plain) = None"
    have mv: "triple (\<lambda>d. d = d0) (rename_file blob (Recovery, t, Plain)) (\<lambda>r d. case r of Inl _ \<Rightarrow> safe data d | Inr _ \<Rightarrow> ?G d) (safe data)"
    proof (rule triple_move)
      fix d c assume d: "d = d0" "map_of d blob = Some c"
      then have src: "map_of d0 (Scratch, t, Plain) = Some c" by (simp add: b x)
      show "?G (AList.update (Recovery, t, Plain) c (AList.delete blob d))"
      proof -
        have gone: "map_of (AList.update (Recovery, t, Plain) c (AList.delete blob d)) (Scratch, t, Plain) = None" by (simp add: b x)
        from S have "safe data (AList.update (Recovery, t, Plain) c (AList.delete blob d))"
          unfolding safe_def [of data d0]
        proof (elim disjE exE conjE)
          fix u assume "map_of d0 (Staging, u, Plain) = Some (Data data)"
          then show ?thesis unfolding d(1) b x safe_def by simp blast
        next
          fix u assume u: "map_of d0 (Recovery, u, Plain) = Some (Data data)" "map_of d0 (Scratch, u, Plain) = None"
          then have "u \<noteq> t" using src by auto
          then show ?thesis using u unfolding d(1) b x safe_def by (intro disjI2 disjI1 exI [of _ u]) simp
        next
          fix u assume u: "map_of d0 (Scratch, u, Plain) = Some (Data data)" "is_file (Scratch, u, Json) d0"
          show ?thesis
          proof (cases "u = t")
            case True
            then show ?thesis using u src unfolding d(1) b x safe_def by (intro disjI2 disjI1 exI [of _ t]) simp
          next
            case False
            then show ?thesis using u unfolding d(1) b x safe_def by (intro disjI2 disjI2 exI [of _ u]) (simp add: is_file_def)
          qed
        qed
        with gone show ?thesis by simp
      qed
    qed (use S in simp)
    have rm: "triple ?G (ignoring (remove_path (scratch_sidecar blob))) (\<lambda>_. safe data) (safe data)"
    proof (rule triple_ignoring, rule triple_conseq [OF triple_drop [where P = ?G and L = "safe data" and R = "safe data" and C = "safe data"]])
      show "safe data (AList.delete (scratch_sidecar blob) d)" if "?G d" for d
      proof (rule safe_keep [OF that [THEN conjunct1]])
        have "map_of d (Scratch, t, Plain) = None" using that by simp
        then show "map_of d (Scratch, u, Plain) = Some c' \<Longrightarrow> is_file (Scratch, u, Json) d \<Longrightarrow> map_of (AList.delete (scratch_sidecar blob) d) (Scratch, u, Plain) = Some c' \<and> is_file (Scratch, u, Json) (AList.delete (scratch_sidecar blob) d)" for u c'
          by (cases "u = t") (simp_all add: b x scratch_sidecar_def is_file_def)
      qed (simp_all add: b x scratch_sidecar_def)
    qed (auto split: sum.splits)
    have mvs: "triple ?G (ignoring (rename_file (scratch_sidecar blob) (Recovery, t, Json))) (\<lambda>_. safe data) (safe data)"
    proof (rule triple_ignoring, rule triple_conseq [OF triple_move [where P = ?G and L = "safe data" and R = "safe data" and C = "safe data"]])
      show "safe data (AList.update (Recovery, t, Json) c (AList.delete (scratch_sidecar blob) d))" if "?G d" for d c
      proof (rule safe_keep [OF that [THEN conjunct1]])
        have "map_of d (Scratch, t, Plain) = None" using that by simp
        then show "map_of d (Scratch, u, Plain) = Some c' \<Longrightarrow> is_file (Scratch, u, Json) d \<Longrightarrow> map_of (AList.update (Recovery, t, Json) c (AList.delete (scratch_sidecar blob) d)) (Scratch, u, Plain) = Some c' \<and> is_file (Scratch, u, Json) (AList.update (Recovery, t, Json) c (AList.delete (scratch_sidecar blob) d))" for u c'
          by (cases "u = t") (simp_all add: b x scratch_sidecar_def is_file_def)
      qed (simp_all add: b x scratch_sidecar_def)
    qed (auto split: sum.splits)
    have stay: "triple (safe data) (ret ()) (\<lambda>_. safe data) (safe data)" by (rule triple_ret)
    have rest: "triple ?G (if \<not> valid then ignoring (remove_path (scratch_sidecar blob)) else ignoring (rename_file (scratch_sidecar blob) (Recovery, t, Json)))
        (\<lambda>_. safe data) (safe data)" for valid
      using rm mvs by simp
    show ?thesis
      using True by (simp only: Let_def b fst_conv snd_conv not_True_eq_False if_False) (rule triple_case [OF mv [unfolded b] stay rest [unfolded b]])
  qed
qed

lemma discard_one_safe:
  assumes "fst blob = Scratch" and "snd (snd blob) \<noteq> Json"
  shows "triple (safe data) (looking (\<lambda>d. if \<not> has_sidecar blob d then ignoring (remove_path blob) else ret ())) (\<lambda>_. safe data) (safe data)"
proof (rule triple_looking)
  fix d0 assume S: "safe data d0"
  obtain t x where b: "blob = (Scratch, t, x)" using assms by (cases blob) auto
  show "triple (\<lambda>d. d = d0) (if \<not> has_sidecar blob d0 then ignoring (remove_path blob) else ret ()) (\<lambda>_. safe data) (safe data)"
  proof (cases "has_sidecar blob d0")
    case True
    then show ?thesis using S by (auto intro: triple_ret)
  next
    case False
    have x: "x \<noteq> Json" using assms(2) b by simp
    have "triple (\<lambda>d. d = d0) (ignoring (remove_path blob)) (\<lambda>_. safe data) (safe data)"
    proof (rule triple_ignoring, rule triple_conseq [OF triple_drop [where P = "\<lambda>d. d = d0" and L = "safe data" and R = "safe data" and C = "safe data"]])
      show "safe data (AList.delete blob d)" if "d = d0" for d
        using S False x unfolding that b by (intro safe_keep [OF S]) (cases x; auto simp: has_sidecar_def scratch_sidecar_def is_file_def)+
    qed (use S in \<open>auto split: sum.splits\<close>)
    with False show ?thesis by simp
  qed
qed

lemma open_keeps_safe: "triple (safe data) open_dirs (\<lambda>_. safe data) (safe data)"
  unfolding open_dirs_def
proof (rule triple_bind)
  show "triple (safe data) rescue_scratch (\<lambda>_. safe data) (safe data)"
    unfolding rescue_scratch_def
  proof (rule triple_looking)
    fix d0 assume "safe data d0"
    then show "triple (\<lambda>d. d = d0) (for_each (blobs_in Scratch d0) rescue_one) (\<lambda>_. safe data) (safe data)"
      by (intro triple_conseq [OF triple_for_each [OF rescue_one_safe]]) (auto dest: blobs_in_place)
  qed
  show "triple (safe data) discard_unmarked_scratch (\<lambda>_. safe data) (safe data)"
    unfolding discard_unmarked_scratch_def
  proof (rule triple_looking)
    fix d0 assume "safe data d0"
    then show "triple (\<lambda>d. d = d0) (for_each (blobs_in Scratch d0) (\<lambda>blob. looking (\<lambda>d. if \<not> has_sidecar blob d then ignoring (remove_path blob) else ret ())))
        (\<lambda>_. safe data) (safe data)"
      by (intro triple_conseq [OF triple_for_each [OF discard_one_safe]]) (auto dest: blobs_in_place)
  qed
qed

text \<open>A run in which every call goes through.\<close>

definition clean :: "(files \<Rightarrow> bool) \<Rightarrow> unit io \<Rightarrow> (files \<Rightarrow> bool) \<Rightarrow> bool" where
  "clean P m Q = (\<forall>d. P d \<longrightarrow> fst (m [] d) = Done () \<and> fst (snd (m [] d)) = [] \<and> Q (snd (snd (m [] d))))"

lemma clean_bind: "clean P m R \<Longrightarrow> clean R f Q \<Longrightarrow> clean P (and_then m (\<lambda>_. f)) Q"
  by (auto simp: clean_def and_then_def split: prod.splits run.splits)

lemma clean_for_each: "(\<And>x. x \<in> set xs \<Longrightarrow> clean P (f x) P) \<Longrightarrow> clean P (for_each xs f) P"
proof (induction xs)
  case (Cons x xs)
  then show ?case using clean_bind [of P "f x" P "for_each xs f" P] by simp
qed (simp add: clean_def ret_def)

lemma clean_for_each_at:
  assumes "x \<in> set xs" and "clean P (f x) Q" and "\<And>y. y \<in> set xs \<Longrightarrow> y \<noteq> x \<Longrightarrow> clean P (f y) P"
    and "\<And>y. y \<in> set xs \<Longrightarrow> clean Q (f y) Q"
  shows "clean P (for_each xs f) Q"
  using assms(1,3,4)
proof (induction xs)
  case (Cons y ys)
  show ?case
  proof (cases "y = x")
    case True
    have "clean Q (for_each ys f) Q" by (rule clean_for_each) (use Cons.prems(3) in simp)
    with assms(2) True show ?thesis using clean_bind [of P "f y" Q "for_each ys f" Q] by simp
  next
    case False
    then have "clean P (for_each ys f) Q" using Cons by simp
    moreover have "clean P (f y) P" using Cons.prems(2) False by simp
    ultimately show ?thesis using clean_bind [of P "f y" P "for_each ys f" Q] by simp
  qed
qed simp

text \<open>What rescuing one blob does then.\<close>

lemma rescue_one_clean:
  "rescue_one (Scratch, t, x) [] d = (Done (), [],
     if x = Plain \<and> is_file (Scratch, t, Json) d \<and> is_file (Scratch, t, Plain) d
     then (let d1 = AList.update (Recovery, t, Plain) (the (map_of d (Scratch, t, Plain))) (AList.delete (Scratch, t, Plain) d)
           in case the (map_of d (Scratch, t, Json)) of
                Sidecar m \<Rightarrow> AList.update (Recovery, t, Json) (Sidecar m) (AList.delete (Scratch, t, Json) d1)
              | _ \<Rightarrow> AList.delete (Scratch, t, Json) d1)
     else d)"
  by (auto simp: rescue_one_def looking_def ret_def has_sidecar_def scratch_sidecar_def and_then_def ignoring_def rename_file_def remove_path_def
      disk_call_def Let_def is_file_def split: content.splits option.splits)

lemma discard_one_clean:
  "looking (\<lambda>d. if \<not> has_sidecar blob d then ignoring (remove_path blob) else ret ()) [] d =
     (Done (), [], if has_sidecar blob d \<or> \<not> is_file blob d then d else AList.delete blob d)"
  by (auto simp: looking_def ret_def and_then_def ignoring_def remove_path_def disk_call_def Let_def)

definition marked_pair :: "place \<Rightarrow> string \<Rightarrow> byte list \<Rightarrow> staged_write \<Rightarrow> files \<Rightarrow> bool" where
  "marked_pair w s data m d = (map_of d (w, s, Plain) = Some (Data data) \<and> map_of d (w, s, Json) = Some (Sidecar m))"

definition rescued :: "string \<Rightarrow> byte list \<Rightarrow> staged_write \<Rightarrow> files \<Rightarrow> bool" where
  "rescued s data m d = (marked_pair Recovery s data m d \<and> map_of d (Scratch, s, Plain) = None)"

lemma open_rescues:
  assumes "marked_pair Scratch s data m d"
  shows "fst (open_dirs [] d) = Done () \<and> rescued s data m (snd (snd (open_dirs [] d)))"
proof -
  have here: "(Scratch, s, Plain) \<in> set (blobs_in Scratch d)"
    using assms by (force simp: marked_pair_def blobs_in_def dest: map_of_SomeD)
  have "clean (marked_pair Scratch s data m) (for_each (blobs_in Scratch d) rescue_one) (rescued s data m)"
  proof (rule clean_for_each_at [OF here])
    show "clean (marked_pair Scratch s data m) (rescue_one (Scratch, s, Plain)) (rescued s data m)"
      unfolding clean_def rescue_one_clean by (simp add: marked_pair_def rescued_def is_file_def Let_def)
    fix y assume "y \<in> set (blobs_in Scratch d)"
    then have "fst y = Scratch" using blobs_in_place by blast
    then obtain t x where y: "y = (Scratch, t, x)" by (cases y) auto
    show "clean (marked_pair Scratch s data m) (rescue_one y) (marked_pair Scratch s data m)" if "y \<noteq> (Scratch, s, Plain)"
      using that unfolding clean_def y rescue_one_clean by (auto simp: marked_pair_def Let_def split: content.splits)
    show "clean (rescued s data m) (rescue_one y) (rescued s data m)"
      unfolding clean_def y rescue_one_clean by (auto simp: marked_pair_def rescued_def is_file_def Let_def split: content.splits)
  qed
  then have r: "fst (rescue_scratch [] d) = Done ()" "fst (snd (rescue_scratch [] d)) = []" "rescued s data m (snd (snd (rescue_scratch [] d)))"
    using assms unfolding clean_def rescue_scratch_def looking_def by blast+
  have "clean (rescued s data m) (for_each (blobs_in Scratch d') (\<lambda>blob. looking (\<lambda>d. if \<not> has_sidecar blob d then ignoring (remove_path blob) else ret ())))
      (rescued s data m)" for d'
  proof (rule clean_for_each)
    fix y assume "y \<in> set (blobs_in Scratch d')"
    then have "fst y = Scratch" using blobs_in_place by blast
    then obtain t x where y: "y = (Scratch, t, x)" by (cases y) auto
    show "clean (rescued s data m) (looking (\<lambda>d. if \<not> has_sidecar y d then ignoring (remove_path y) else ret ())) (rescued s data m)"
      unfolding clean_def discard_one_clean by (auto simp: y marked_pair_def rescued_def)
  qed
  then have "fst (discard_unmarked_scratch [] d') = Done () \<and> rescued s data m (snd (snd (discard_unmarked_scratch [] d')))" if "rescued s data m d'" for d'
    using that unfolding clean_def discard_unmarked_scratch_def looking_def by blast
  note last = this [OF r(3)]
  have "open_dirs [] d = discard_unmarked_scratch [] (snd (snd (rescue_scratch [] d)))"
    using r(1,2) by (cases "rescue_scratch [] d") (simp add: open_dirs_def and_then_def)
  with last show ?thesis by simp
qed

lemma described_mem:
  "marked_pair w s data m d \<Longrightarrow> ((w, s, Plain), m) \<in> set (described w d)"
proof -
  assume pair: "marked_pair w s data m d"
  then have "(w, s, Plain) \<in> set (blobs_in w d)" by (force simp: marked_pair_def blobs_in_def dest: map_of_SomeD)
  then show ?thesis
    using pair unfolding described_def by (force simp: marked_pair_def scratch_sidecar_def map_filter_def image_iff)
qed

section \<open>The properties\<close>

lemma triple_run:
  assumes "triple P m Q C" and "P d"
  shows "fst (m os d) = Done x \<Longrightarrow> Q x (snd (snd (m os d)))" and "fst (m os d) = Stopped \<Longrightarrow> C (snd (snd (m os d)))"
proof -
  obtain r os' d' where m: "m os d = (r, os', d')" by (cases "m os d")
  from triple_at [OF assms m] show "fst (m os d) = Done x \<Longrightarrow> Q x (snd (snd (m os d)))" "fst (m os d) = Stopped \<Longrightarrow> C (snd (snd (m os d)))"
    by (simp_all add: m)
qed

text \<open>
  C13. Accepted bytes are on disk at every moment. While a released write is staged, or one that cannot be
  queued is preserved, its bytes are whole in the scratch file, in staging or in recovery wherever the
  daemon stops and whatever calls fail. When either returns a path, the blob is there with its sidecar;
  when \<open>preserve_write\<close> fails, the path it names has the bytes, and if it names a mark, or the
  path is not in scratch, the next run keeps them.
\<close>

theorem accepted_bytes_stay_on_disk:
  assumes "map_of d (Scratch, s, Plain) = Some (Data data)" and "map_of d (Scratch, p, Plain) = None"
  shows "(let (r, _, d') = stage_write_at meta s p os d
          in (\<exists>w t. map_of d' (w, t, Plain) = Some (Data data)) \<and> (r = Done (Inr ()) \<longrightarrow> published meta p data d')) \<and>
         (let (r, _, d') = preserve_write_at meta s p os d
          in (\<exists>w t. map_of d' (w, t, Plain) = Some (Data data)) \<and> (r = Done (Inr ()) \<longrightarrow> published meta p data d') \<and>
             (\<forall>e. r = Done (Inl e) \<longrightarrow> map_of d' (surviving_path e) = Some (Data data) \<and>
                (fst (surviving_path e) \<noteq> Scratch \<or> marker_path e \<noteq> None \<longrightarrow> safe data d')))"
proof -
  have sp: "s \<noteq> p" using assms by auto
  have start: "in_scratch s p data d" using assms by (simp add: in_scratch_def)
  have where_it_is: "somewhere s p data d' \<Longrightarrow> \<exists>w t. map_of d' (w, t, Plain) = Some (Data data)"
    "published meta p data d' \<Longrightarrow> \<exists>w t. map_of d' (w, t, Plain) = Some (Data data)" for d'
    by (auto simp: somewhere_def published_def)
  obtain r1 o1 d1 where m1: "stage_write_at meta s p os d = (r1, o1, d1)" by (cases "stage_write_at meta s p os d")
  obtain r2 o2 d2 where m2: "preserve_write_at meta s p os d = (r2, o2, d2)" by (cases "preserve_write_at meta s p os d")
  note stage = triple_at [OF stage_keeps [OF sp] start m1] and preserve = triple_at [OF preserve_keeps [OF sp] start m2]
  have "(\<exists>w t. map_of d1 (w, t, Plain) = Some (Data data)) \<and> (r1 = Done (Inr ()) \<longrightarrow> published meta p data d1)"
    using stage where_it_is by (auto split: run.splits sum.splits)
  moreover have "(\<exists>w t. map_of d2 (w, t, Plain) = Some (Data data)) \<and> (r2 = Done (Inr ()) \<longrightarrow> published meta p data d2) \<and>
      (\<forall>e. r2 = Done (Inl e) \<longrightarrow> kept data e d2)"
  proof (cases r2)
    case (Done r)
    show ?thesis
    proof (cases r)
      case (Inl e)
      then have k: "kept data e d2" using preserve Done by (simp add: preserved_def)
      then have "\<exists>w t. map_of d2 (w, t, Plain) = Some (Data data)"
        by (cases "surviving_path e") (auto simp: kept_def)
      with k show ?thesis using Done Inl by simp
    qed (use preserve Done where_it_is in \<open>auto simp: preserved_def\<close>)
  qed (use preserve where_it_is in \<open>auto\<close>)
  ultimately show ?thesis by (simp add: m1 m2 kept_def)
qed

text \<open>
  C14. The next run keeps what was promised. Staged, rescued and marked bytes survive any number of
  openings of the cache, each with its own failures and stops; and an opening in which nothing fails hands every scratch
  file with a readable mark to the queue, bytes and description together.
\<close>

theorem next_run_keeps_marked_bytes:
  assumes "safe data d" and "map_of d (Scratch, s, Plain) = Some (Data data')" and "map_of d (Scratch, s, Json) = Some (Sidecar m)"
  shows "safe data (foldl (\<lambda>d os. snd (snd (open_dirs os d))) d runs) \<and>
     (case open_dirs [] d of (r, _, d') \<Rightarrow> r = Done () \<and> ((Recovery, s, Plain), m) \<in> set (fst (recovered_writes True d')) \<and>
         map_of d' (Recovery, s, Plain) = Some (Data data'))"
proof -
  have one: "safe data (snd (snd (open_dirs os e)))" if "safe data e" for os e
  proof -
    obtain r o' e' where m: "open_dirs os e = (r, o', e')" by (cases "open_dirs os e")
    from triple_at [OF open_keeps_safe that m] show ?thesis by (cases r) (simp_all add: m)
  qed
  have "safe data (foldl (\<lambda>d os. snd (snd (open_dirs os d))) e runs)" if "safe data e" for e
    using that by (induction runs arbitrary: e) (simp_all add: one)
  moreover have "marked_pair Scratch s data' m d" using assms(2,3) by (simp add: marked_pair_def)
  from open_rescues [OF this] have "fst (open_dirs [] d) = Done ()" "marked_pair Recovery s data' m (snd (snd (open_dirs [] d)))"
    by (simp_all add: rescued_def)
  moreover from this(2) have "((Recovery, s, Plain), m) \<in> set (fst (recovered_writes True (snd (snd (open_dirs [] d)))))"
    using described_mem by (simp add: recovered_writes_def Let_def)
  ultimately show ?thesis using assms(1) by (auto simp: marked_pair_def split: prod.split)
qed

definition unlucky :: "outcome list" where
  "unlucky = [Good, Good, Good, Good, Good, Good, Good, Fail 0, Good, Good, Fail 0]"


definition demo_meta :: staged_write where
  "demo_meta = \<lparr>sw_uid = ''v~f'', sw_len = 1, sw_base_size = 0, sw_base_mtime = 0, sw_authored = [(0, 1)], sw_complete = True, sw_based_on = None\<rparr>"

definition marked_scratch :: files where
  "marked_scratch = [((Scratch, ''w'', Plain), Data [7]), ((Scratch, ''w'', Json), Sidecar demo_meta)]"

theorem accepted_bytes_stay_on_disk_witness:
  "(let (r, _, d') = stage_write_at demo_meta ''w'' ''b'' [Crosses, Crash 2] marked_scratch
    in r = Stopped \<and> (\<exists>w t. map_of d' (w, t, Plain) = Some (Data [7])))"
proof -
  have "map_of marked_scratch (Scratch, ''w'', Plain) = Some (Data [7])" "map_of marked_scratch (Scratch, ''b'', Plain) = None"
    by (simp_all add: marked_scratch_def)
  from accepted_bytes_stay_on_disk [OF this, of demo_meta "[Crosses, Crash 2]"]
  show ?thesis
    by (simp add: stage_write_at_def or_fail_def and_then_def rename_file_def copy_file_def disk_call_def marked_scratch_def ret_def part_of_def)
qed

theorem next_run_keeps_marked_bytes_witness:
  "safe [7] (foldl (\<lambda>d os. snd (snd (open_dirs os d))) marked_scratch [[Good, Crash 0], [Fail 0]])"
  by (rule next_run_keeps_marked_bytes [where s = "''w''" and data' = "[7]" and m = demo_meta, THEN conjunct1])
    (simp_all add: marked_scratch_def safe_def is_file_def)


end
