(* ===== verification/Spec2Isabelle.thy ===== *)
theory Spec2Isabelle
  imports Landing_Spec Drain_Spec Reconcile_Spec Pause Engine Staged_Spec Tree_Spec Reads_Spec Readers Scratch_Spec
begin

text \<open>
  A verification development of proton-drive-linux: the daemon that mounts Proton Drive through FUSE,
  keeps local folders in sync with it, and queues what is changed while there is no connection.

  \<^bold>\<open>The program and its parts.\<close> The database (\<open>crates/pdfs-core/src/db\<close>) is a set of SQLite tables.
  \<open>nodes\<close> mirrors Drive: a row per node under a local id that never changes, with the uid it has on
  Drive or a stand-in while it exists only here. \<open>pending_op\<close> is the queue of mutations that have
  to reach Drive. \<open>share_access\<close> says what this account may do in what others share with it.
  The FUSE side (\<open>crates/pdfs-fuse/src\<close>) keeps a resident tree of inodes over the node table
  (\<open>state.rs\<close>), gives each file open for writing one handle with a scratch file and the set of byte
  ranges it has written (\<open>state.rs\<close>, \<open>filesystem.rs\<close>, \<open>reads.rs\<close>), and on release stages the
  scratch file as a blob with a sidecar and queues a revision (\<open>lib.rs\<close>). The drain (\<open>drain.rs\<close>)
  claims queued ops one at a time for each node and sends them; whether it may is asked of the access
  tables, whether it can of the link (\<open>link.rs\<close>). Folder sync (\<open>sync.rs\<close>, \<open>sync/*.rs\<close>) compares a
  scan of a local folder with a walk of its remote one and with the rows of the last sync, plans
  one action for each path and applies them; its engine (\<open>sync/engine.rs\<close>) turns watcher events into
  passes. Pauses (\<open>pause.rs\<close>) stop drain and sync.

  \<^bold>\<open>Theories and what they model.\<close> A theory is one component; its operations keep the names of
  the code, and a \<open>_Spec\<close> theory holds the properties that need most of a component.

    \<^item> \<open>Prelude\<close>: tables as lists of rows, \<open>UPDATE .. WHERE\<close> and \<open>DELETE .. WHERE\<close> on them,
      recursive common table expressions (\<open>cte_union\<close>, the locale \<open>finite_cte\<close>), transition systems
      (\<open>inv_system\<close>), decimal numbers, key-value stores (\<open>kv_store\<close>).
    \<^item> \<open>Schema\<close>: the rows and the database (\<open>db/migrations.rs\<close>, \<open>db/ops.rs\<close>), nodes as the SDK hands
      them over.
    \<^item> \<open>Nodes\<close>, \<open>Node_Table\<close>, \<open>Node_Table_Spec\<close>: \<open>db/nodes.rs\<close> and \<open>db/utils.rs\<close>; upsert with
      paths, index row and descent, adoption of a landed placeholder; local ids, listings, paths,
      publication and tombstones of what others share.
    \<^item> \<open>Ops\<close>, \<open>Queue\<close>, \<open>Queue_Spec\<close>, \<open>Landing_Spec\<close>: every method of \<open>db/ops.rs\<close>, statement by
      statement; the queue as a transition system; claims, superseding, the removal of a folder,
      a create that lands.
    \<^item> \<open>Access\<close>: \<open>access.rs\<close>, \<open>db/share_access.rs\<close>. \<open>Pause\<close>: \<open>db/state.rs\<close>, \<open>pause.rs\<close>.
      \<open>Link\<close>: \<open>link.rs\<close>.
    \<^item> \<open>Intervals\<close>, \<open>Handle\<close>, \<open>Staged\<close>, \<open>Staged_Spec\<close>: the ranges a handle has written, the handle
      and its scratch file as byte lists, the staged blob with its sidecar, the reads that stitch
      them with the base, the fold of two queued writes.
    \<^item> \<open>Inodes\<close>, \<open>Inodes_Spec\<close>, \<open>Tree_Spec\<close>: \<open>state.rs\<close>; inode numbers, the resident tree and the
      writes it owes the database, the access of each entry; the tree as a transition system.
    \<^item> \<open>Pins\<close>: \<open>db/pins.rs\<close>. \<open>Content_Cache\<close>, \<open>Cache_Spec\<close>, \<open>Blocks_Spec\<close>: \<open>cache.rs\<close>,
      \<open>db/cache.rs\<close>; whole files, blocks and thumbnails on disk with their tags, the index and the
      running totals, eviction, block geometries.
    \<^item> \<open>Block_Ring\<close>, \<open>Reads\<close>, \<open>Reads_Spec\<close>, \<open>Readers\<close>: \<open>reads.rs\<close>; the blocks kept in memory, a read
      of a range from memory, disk and Drive, and under a queued write; the readers kept open.
    \<^item> \<open>Scratch_Files\<close>, \<open>Scratch_Spec\<close>: the directories of \<open>cache.rs\<close> with bytes that are not on Drive;
      staging, preserving and the opening of the cache, with calls that fail and a daemon that stops.
    \<^item> \<open>Drain\<close>, \<open>Drain_Spec\<close>: \<open>drain.rs\<close>; authorities, deferrals, failures, waits, and one turn of
      a worker over whatever sending an op does.
    \<^item> \<open>Planner\<close>, \<open>Planner_Spec\<close>, \<open>Reconcile\<close>, \<open>Reconcile_Spec\<close>, \<open>Engine\<close>: \<open>sync/planner.rs\<close>,
      \<open>sync/model.rs\<close>, \<open>sync.rs\<close>, \<open>sync/engine.rs\<close>.

  \<^bold>\<open>State and effects.\<close> A table is a list of records in rowid order, a transaction a function on the
  database, a mutex-protected structure a record that is passed on. A scratch file or blob is the list
  of its bytes. A SQLite call that fails is not modelled; a disk or network call that may fail
  is a parameter that returns an error, and both ends of each branch are definitions; in \<open>Scratch_Files\<close>
  each disk call takes its outcome from a list. There, a crash is the end of the daemon: what the kernel
  was given stays. That a power cut may undo it is not modelled, nor a sidecar that cannot be read. Times are
  integers, sizes naturals, and saturation or a bound of the machine type is written out where the
  code relies on it.

  \<^bold>\<open>Interfaces.\<close> \<open>kv_store\<close> (the state table, used by the pauses), \<open>finite_cte\<close> (the recursive
  queries of \<open>ops.rs\<close>, \<open>nodes.rs\<close> and \<open>pins.rs\<close>), \<open>inv_system\<close> (queue, link, pause, inode tree, cache, block ring, open readers), \<open>byte_set\<close> (what the
  handle needs of the interval set), \<open>plain_file\<close> (what a sequence of calls on a handle has to look
  like). Each is interpreted on the definitions of the model.

  \<^bold>\<open>What the theorems show.\<close> Queue: two ops on one node are never on the wire together; a claim
  takes the oldest due op; the last write wins; removing a folder loses no blob; a create that lands
  keeps what changed meanwhile, or is trashed if it was withdrawn. Drain: a worker neither spins nor
  oversleeps, gives its claim back, keeps the op on failure, and sends nothing it has no authority for.
  Content: an open handle reads as the plain file its calls describe (a refinement), the staged write
  is that file, and a later one inherits what the earlier had; where \<open>fallocate\<close> departs from the
  kernel's. Cache: the running totals never hide an overrun, eviction takes the coldest unpinned
  entries and no more than needed, a block is served to the revision it was stored for only. Reads: a
  read gives the bytes of the base or fails, and a file with a queued write reads as that write over
  it, through ring, disk, retry and repair; reads of one cold file share an open of their revision. Scratch and
  staging: accepted bytes are whole on disk wherever the daemon stops and whatever calls fail, and the next
  run keeps and queues what is marked; the one path where it does not. Inodes: uid and inode name each other through every operation of
  the mount. Folder sync: a plan and a pass destroy only what the last sync recorded, leave alone what
  they left out, and a folder in step is not touched. Shares: what is published is what the owner lists;
  losing the list fails closed. Pauses and link: they survive restarts and are not undone by a late
  answer.

  \<^bold>\<open>Bounds and fuel.\<close> \<open>upsert_node_tx\<close> recurses once for each stand-in row it adopts, with the number
  of rows as fuel; \<open>reindex_subtree_tx\<close> and \<open>walk_path_of\<close> stop at the 256 levels the code stops at;
  a recursive query runs at most once for each row it can add, which \<open>finite_cte\<close> proves enough;
  the climbs to an ancestor and the walks below a folder in the inode tree have one step more than there are
  entries; a fetch is tried at most twice;
  \<open>enforce_loop\<close> ends because each batch either removes a row or is the last.

  \<^bold>\<open>Not modelled.\<close> The SDK and its network calls (parameters), SQLite's failures, threads and
  condition variables (a worker's turn, a timer that fires and a probe round are steps), the search
  queries, the walks of disk and Drive that feed a pass, the control
  socket, photos, albums, takeout, devices, accounts, the command line and the GUI.
\<close>

end
